(* ===== verification/Prelude.thy ===== *)
theory Prelude imports Complex_Main begin

text \<open>
  Shared vocabulary of the development.

  \<^item> The insertion-ordered dictionary of JavaScript (\<^verbatim>\<open>Map\<close>) as an association list: \<open>jm_get\<close>, \<open>jm_set\<close>
    (an existing key keeps its position, a new key goes to the end), \<open>jm_del\<close>, \<open>jm_has\<close>,
    and the invariant \<open>jm_ok\<close> (keys are distinct). The caches, the rate limiter, the hook and extension registries
    and the permission gate are built over it.
  \<^item> Deterministic machines: \<open>run\<close> folds a step function over a list of inputs; the locale
    \<open>step_invariant\<close> lifts a one-step invariant to runs.
  \<^item> JavaScript strings are lists of 8-bit code units; the white-space and digit classes of the
    regular expressions used by the code are written out here.
\<close>

named_theorems jm_simps \<open>equations of the ordered dictionary\<close>
named_theorems inv_intros \<open>preservation of component invariants\<close>

section \<open>Errors\<close>

text \<open>A thrown exception is the left branch of a sum; this is sequencing under it.\<close>

definition bind_err :: "'e + 'a \<Rightarrow> ('a \<Rightarrow> 'e + 'b) \<Rightarrow> 'e + 'b" where
  "bind_err r f = (case r of Inl e \<Rightarrow> Inl e | Inr x \<Rightarrow> f x)"

lemma bind_err_simps [simp]:
  "bind_err (Inl e) f = Inl e"
  "bind_err (Inr x) f = f x"
  by (simp_all add: bind_err_def)

lemma bind_err_Inr_iff: "bind_err r f = Inr y \<longleftrightarrow> (\<exists>x. r = Inr x \<and> f x = Inr y)"
  by (cases r) simp_all

text \<open>Code that runs on a state and may throw: the state at the throw is kept. \<open>chain\<close> is sequencing, \<open>catch\<close> is
  \<^verbatim>\<open>try\<close>/\<^verbatim>\<open>catch\<close>, \<open>always\<close> is \<^verbatim>\<open>try\<close>/\<^verbatim>\<open>finally\<close> with a clean-up that cannot throw.\<close>

type_synonym ('s, 'a) prog = "'s \<Rightarrow> (string + 'a) \<times> 's"

definition ret :: "'a \<Rightarrow> ('s, 'a) prog" where
  "ret x s = (Inr x, s)"

definition throw :: "string \<Rightarrow> ('s, 'a) prog" where
  "throw e s = (Inl e, s)"

definition chain :: "('s, 'a) prog \<Rightarrow> ('a \<Rightarrow> ('s, 'b) prog) \<Rightarrow> ('s, 'b) prog" where
  "chain m f s = (case m s of (Inl e, s') \<Rightarrow> (Inl e, s') | (Inr x, s') \<Rightarrow> f x s')"

definition catch :: "('s, 'a) prog \<Rightarrow> (string \<Rightarrow> ('s, 'a) prog) \<Rightarrow> ('s, 'a) prog" where
  "catch m h s = (case m s of (Inl e, s') \<Rightarrow> h e s' | (Inr x, s') \<Rightarrow> (Inr x, s'))"

definition always :: "('s, 'a) prog \<Rightarrow> ('s \<Rightarrow> 's) \<Rightarrow> ('s, 'a) prog" where
  "always m f s = (case m s of (r, s') \<Rightarrow> (r, f s'))"

definition modify :: "('s \<Rightarrow> 's) \<Rightarrow> ('s, unit) prog" where
  "modify f s = (Inr (), f s)"

text \<open>A condition on the state that a program keeps, however it ends.\<close>

definition pres :: "('s \<Rightarrow> bool) \<Rightarrow> ('s, 'a) prog \<Rightarrow> bool" where
  "pres P m \<longleftrightarrow> (\<forall>s. P s \<longrightarrow> P (snd (m s)))"

named_theorems pres_intros \<open>programs that keep a condition\<close>

lemma presD: "pres P m \<Longrightarrow> P s \<Longrightarrow> P (snd (m s))"
  by (simp add: pres_def)

lemma presI: "(\<And>s. P s \<Longrightarrow> P (snd (m s))) \<Longrightarrow> pres P m"
  by (simp add: pres_def)

lemma pres_ret [pres_intros]: "pres P (ret x)"
  by (simp add: pres_def ret_def)

lemma pres_throw [pres_intros]: "pres P (throw e)"
  by (simp add: pres_def throw_def)

lemma pres_chain [pres_intros]: "pres P m \<Longrightarrow> (\<And>x. pres P (f x)) \<Longrightarrow> pres P (chain m f)"
  unfolding pres_def chain_def by (fastforce split: prod.splits sum.splits)

lemma pres_catch [pres_intros]: "pres P m \<Longrightarrow> (\<And>e. pres P (h e)) \<Longrightarrow> pres P (catch m h)"
  unfolding pres_def catch_def by (fastforce split: prod.splits sum.splits)

lemma pres_always: "pres P m \<Longrightarrow> (\<And>s. P s \<Longrightarrow> P (f s)) \<Longrightarrow> pres P (always m f)"
  unfolding pres_def always_def by (fastforce split: prod.splits)

lemma pres_modify [pres_intros]: "(\<And>s. P s \<Longrightarrow> P (f s)) \<Longrightarrow> pres P (modify f)"
  by (simp add: pres_def modify_def)

lemma pres_if [pres_intros]: "pres P m \<Longrightarrow> pres P n \<Longrightarrow> pres P (if b then m else n)"
  by simp

lemma pres_option [pres_intros]: "pres P m \<Longrightarrow> (\<And>x. pres P (f x)) \<Longrightarrow> pres P (case v of None \<Rightarrow> m | Some x \<Rightarrow> f x)"
  by (simp split: option.split)

lemma pres_sum [pres_intros]: "(\<And>x. pres P (f x)) \<Longrightarrow> (\<And>x. pres P (g x)) \<Longrightarrow> pres P (case v of Inl x \<Rightarrow> f x | Inr x \<Rightarrow> g x)"
  by (simp split: sum.split)

lemma chain_InrE:
  assumes "chain m f s = (Inr y, s')"
  obtains x s1 where "m s = (Inr x, s1)" "f x s1 = (Inr y, s')"
  using assms unfolding chain_def by (auto split: prod.splits sum.splits)

lemma chain_Inr: "m s = (Inr x, s1) \<Longrightarrow> chain m f s = f x s1"
  by (simp add: chain_def)

lemma chain_Inl: "m s = (Inl e, s1) \<Longrightarrow> chain m f s = (Inl e, s1)"
  by (simp add: chain_def)

text \<open>A condition on the results of a program.\<close>

definition yields :: "('a \<Rightarrow> bool) \<Rightarrow> ('s, 'a) prog \<Rightarrow> bool" where
  "yields R m \<longleftrightarrow> (\<forall>s x s'. m s = (Inr x, s') \<longrightarrow> R x)"

named_theorems yields_intros \<open>results of programs\<close>

lemma yieldsD: "yields R m \<Longrightarrow> m s = (Inr x, s') \<Longrightarrow> R x"
  unfolding yields_def by blast

lemma yields_ret [yields_intros]: "R x \<Longrightarrow> yields R (ret x)"
  by (simp add: yields_def ret_def)

lemma yields_throw [yields_intros]: "yields R (throw e)"
  by (simp add: yields_def throw_def)

lemma yields_chain [yields_intros]: "(\<And>x. yields R (f x)) \<Longrightarrow> yields R (chain m f)"
  unfolding yields_def chain_def by (fastforce split: prod.splits sum.splits)

lemma yields_if [yields_intros]: "(b \<Longrightarrow> yields R m) \<Longrightarrow> (\<not> b \<Longrightarrow> yields R n) \<Longrightarrow> yields R (if b then m else n)"
  by simp

lemma yields_option [yields_intros]:
  "yields R m \<Longrightarrow> (\<And>x. yields R (f x)) \<Longrightarrow> yields R (case v of None \<Rightarrow> m | Some x \<Rightarrow> f x)"
  by (simp split: option.split)

lemma yields_sum [yields_intros]:
  "(\<And>x. yields R (f x)) \<Longrightarrow> (\<And>x. yields R (g x)) \<Longrightarrow> yields R (case v of Inl x \<Rightarrow> f x | Inr x \<Rightarrow> g x)"
  by (simp split: sum.split)

section \<open>The insertion-ordered dictionary\<close>

type_synonym ('k, 'v) jmap = "('k \<times> 'v) list"

definition jm_get :: "'k \<Rightarrow> ('k, 'v) jmap \<Rightarrow> 'v option" where
  "jm_get k m = map_of m k"

definition jm_has :: "'k \<Rightarrow> ('k, 'v) jmap \<Rightarrow> bool" where
  "jm_has k m \<longleftrightarrow> k \<in> set (map fst m)"

fun jm_set :: "'k \<Rightarrow> 'v \<Rightarrow> ('k, 'v) jmap \<Rightarrow> ('k, 'v) jmap" where
  "jm_set k v [] = [(k, v)]"
| "jm_set k v ((k', v') # m) = (if k = k' then (k, v) # m else (k', v') # jm_set k v m)"

definition jm_del :: "'k \<Rightarrow> ('k, 'v) jmap \<Rightarrow> ('k, 'v) jmap" where
  "jm_del k m = filter (\<lambda>e. fst e \<noteq> k) m"

definition jm_ok :: "('k, 'v) jmap \<Rightarrow> bool" where
  "jm_ok m \<longleftrightarrow> distinct (map fst m)"

lemma jm_get_Nil [simp]: "jm_get k [] = None"
  by (simp add: jm_get_def)

lemma jm_get_Cons [simp]: "jm_get k ((k', v) # m) = (if k' = k then Some v else jm_get k m)"
  by (simp add: jm_get_def)

lemma jm_get_set [simp, jm_simps]: "jm_get k (jm_set k' v m) = (if k = k' then Some v else jm_get k m)"
  by (induction m) auto

lemma jm_get_del [simp, jm_simps]: "jm_get k (jm_del k' m) = (if k = k' then None else jm_get k m)"
  by (induction m) (auto simp: jm_del_def)

lemma jm_has_get [jm_simps]: "jm_has k m \<longleftrightarrow> jm_get k m \<noteq> None"
  by (induction m) (auto simp: jm_has_def)

lemma jm_get_SomeD: "jm_get k m = Some v \<Longrightarrow> (k, v) \<in> set m"
  by (simp add: jm_get_def map_of_SomeD)

lemma jm_get_iff: "jm_ok m \<Longrightarrow> jm_get k m = Some v \<longleftrightarrow> (k, v) \<in> set m"
  by (simp add: jm_get_def jm_ok_def)

lemma keys_jm_set: "set (map fst (jm_set k v m)) = insert k (set (map fst m))"
  by (induction k v m rule: jm_set.induct) (auto split: if_splits)

lemma keys_jm_del: "set (map fst (jm_del k m)) = set (map fst m) - {k}"
  by (auto simp: jm_del_def)

lemma jm_ok_Nil [simp, inv_intros]: "jm_ok []"
  by (simp add: jm_ok_def)

lemma jm_ok_set [inv_intros]: "jm_ok m \<Longrightarrow> jm_ok (jm_set k v m)"
proof (induction m)
  case Nil
  then show ?case by (simp add: jm_ok_def)
next
  case (Cons e m)
  obtain a b where e: "e = (a, b)" by (cases e)
  from Cons show ?case
    using keys_jm_set [of k v m] by (auto simp: jm_ok_def e)
qed

lemma jm_ok_del [inv_intros]: "jm_ok m \<Longrightarrow> jm_ok (jm_del k m)"
  by (simp add: jm_ok_def jm_del_def distinct_map_filter)

lemma jm_ok_tl [inv_intros]: "jm_ok m \<Longrightarrow> jm_ok (tl m)"
  by (cases m) (simp_all add: jm_ok_def)

lemma jm_ok_drop [inv_intros]: "jm_ok m \<Longrightarrow> jm_ok (drop n m)"
  by (simp add: jm_ok_def drop_map [symmetric])

lemma jm_set_absent: "\<not> jm_has k m \<Longrightarrow> jm_set k v m = m @ [(k, v)]"
  by (induction m) (auto simp: jm_has_def)

lemma not_has_del [simp]: "\<not> jm_has k (jm_del k m)"
  by (simp add: jm_has_def keys_jm_del del: set_map)

lemma jm_del_absent: "\<not> jm_has k m \<Longrightarrow> jm_del k m = m"
  by (induction m) (auto simp: jm_del_def jm_has_def)

lemma jm_set_del: "jm_set k v (jm_del k m) = jm_del k m @ [(k, v)]"
  by (simp add: jm_set_absent)

lemma length_jm_set: "length (jm_set k v m) = (if jm_has k m then length m else Suc (length m))"
  by (induction k v m rule: jm_set.induct) (auto simp: jm_has_def split: if_splits)

lemma length_jm_del_le: "length (jm_del k m) \<le> length m"
  by (simp add: jm_del_def)

lemma set_jm_del: "set (jm_del k m) = {e \<in> set m. fst e \<noteq> k}"
  by (auto simp: jm_del_def)

lemma set_jm_set_subset: "set (jm_set k v m) \<subseteq> insert (k, v) (set m)"
  by (induction k v m rule: jm_set.induct) (auto split: if_splits)

lemma length_jm_del_has: "jm_ok m \<Longrightarrow> jm_has k m \<Longrightarrow> Suc (length (jm_del k m)) = length m"
proof (induction m)
  case Nil
  then show ?case by (simp add: jm_has_def)
next
  case (Cons e m)
  obtain a b where e: "e = (a, b)" by (cases e)
  show ?case
  proof (cases "a = k")
    case True
    with Cons.prems have "\<not> jm_has k m" by (simp add: jm_ok_def jm_has_def e)
    then have "jm_del k m = m" by (rule jm_del_absent)
    with True show ?thesis by (simp add: jm_del_def e)
  next
    case False
    with Cons show ?thesis by (simp add: jm_del_def jm_ok_def jm_has_def e)
  qed
qed

text \<open>The elements of a list in the order of their first occurrence, as \<^verbatim>\<open>new Set(xs)\<close> iterates.\<close>

fun uniq :: "'a list \<Rightarrow> 'a list" where
  "uniq [] = []"
| "uniq (x # xs) = x # filter (\<lambda>y. y \<noteq> x) (uniq xs)"

lemma set_uniq [simp]: "set (uniq xs) = set xs"
  by (induction xs) auto

lemma distinct_uniq: "distinct (uniq xs)"
  by (induction xs) auto

section \<open>Runs of a deterministic machine\<close>

fun run :: "('s \<Rightarrow> 'i \<Rightarrow> 's) \<Rightarrow> 's \<Rightarrow> 'i list \<Rightarrow> 's" where
  "run f s [] = s"
| "run f s (i # is) = run f (f s i) is"

lemma run_append: "run f s (xs @ ys) = run f (run f s xs) ys"
  by (induction xs arbitrary: s) simp_all

text \<open>The contract of an invariant that every step of a machine keeps.\<close>

locale step_invariant =
  fixes step :: "'s \<Rightarrow> 'i \<Rightarrow> 's"
    and good :: "'s \<Rightarrow> bool"
  assumes step_good: "good s \<Longrightarrow> good (step s i)"
begin

lemma run_good: "good s \<Longrightarrow> good (run step s is)"
  by (induction "is" arbitrary: s) (simp_all add: step_good)

end

section \<open>Characters and strings\<close>

text \<open>Code unit of a character; strings compare by code units, as \<^verbatim>\<open><\<close> does on JavaScript strings.\<close>

abbreviation code :: "char \<Rightarrow> nat" where
  "code c \<equiv> of_char c"

text \<open>The class \<^verbatim>\<open>\s\<close> of the regular expressions, restricted to 8-bit code units; \<^verbatim>\<open>String.trim\<close> strips the same set.\<close>

definition is_space :: "char \<Rightarrow> bool" where
  "is_space c \<longleftrightarrow> code c \<in> {9, 10, 11, 12, 13, 32, 160}"

definition is_digit :: "char \<Rightarrow> bool" where
  "is_digit c \<longleftrightarrow> 48 \<le> code c \<and> code c \<le> 57"

definition is_alpha :: "char \<Rightarrow> bool" where
  "is_alpha c \<longleftrightarrow> (65 \<le> code c \<and> code c \<le> 90) \<or> (97 \<le> code c \<and> code c \<le> 122) \<or> code c = 95"

definition is_word :: "char \<Rightarrow> bool" where
  "is_word c \<longleftrightarrow> is_alpha c \<or> is_digit c"

definition digit_val :: "char \<Rightarrow> nat" where
  "digit_val c = code c - 48"

definition parse_nat :: "string \<Rightarrow> nat" where
  "parse_nat ds = foldl (\<lambda>n c. 10 * n + digit_val c) 0 ds"

definition lower :: "char \<Rightarrow> char" where
  "lower c = (if 65 \<le> code c \<and> code c \<le> 90 then char_of (code c + 32) else c)"

text \<open>\<^verbatim>\<open>split\<close> at one character.\<close>

fun split_on :: "char \<Rightarrow> string \<Rightarrow> string list" where
  "split_on c [] = [[]]"
| "split_on c (x # xs) =
     (if x = c then [] # split_on c xs
      else case split_on c xs of [] \<Rightarrow> [[x]] | y # ys \<Rightarrow> (x # y) # ys)"

definition trim :: "string \<Rightarrow> string" where
  "trim s = rev (dropWhile is_space (rev (dropWhile is_space s)))"

fun is_prefix_of :: "string \<Rightarrow> string \<Rightarrow> bool" where
  "is_prefix_of [] ys = True"
| "is_prefix_of (x # xs) [] = False"
| "is_prefix_of (x # xs) (y # ys) = (x = y \<and> is_prefix_of xs ys)"

fun str_less :: "string \<Rightarrow> string \<Rightarrow> bool" where
  "str_less xs [] = False"
| "str_less [] (y # ys) = True"
| "str_less (x # xs) (y # ys) =
     (if code x < code y then True else if code y < code x then False else str_less xs ys)"

lemma code_inj: "code x = code y \<Longrightarrow> x = y"
  by (metis char_of_char)

lemma str_less_irrefl [simp]: "\<not> str_less xs xs"
  by (induction xs) auto

lemma str_less_linear: "xs = ys \<or> str_less xs ys \<or> str_less ys xs"
proof (induction xs ys rule: str_less.induct)
  case (3 x xs y ys)
  then show ?case
    by (metis code_inj linorder_neqE_nat str_less.simps(3))
next
  case (1 xs)
  then show ?case by (cases xs) simp_all
qed simp

lemma str_less_trans: "str_less xs ys \<Longrightarrow> str_less ys zs \<Longrightarrow> str_less xs zs"
proof (induction xs ys arbitrary: zs rule: str_less.induct)
  case (2 y ys)
  then show ?case by (cases zs) simp_all
next
  case (3 x xs y ys)
  then show ?case by (cases zs) (auto split: if_splits)
qed simp

lemma str_less_asym: "str_less xs ys \<Longrightarrow> \<not> str_less ys xs"
  using str_less_trans str_less_irrefl by blast

lemma is_prefix_of_append [simp]: "is_prefix_of xs (xs @ ys)"
  by (induction xs) simp_all

end
