(* ===== verification/Concurrency.thy ===== *)
theory Concurrency imports Prelude begin

text \<open>
  \<^verbatim>\<open>ConcurrencyLimiter\<close> of \<^verbatim>\<open>core/src/events/concurrency.ts\<close>. Every call of \<^verbatim>\<open>acquire()\<close> has a ticket (a
  number); \<open>handles\<close> are the release functions handed out, in the order their promises resolved, each with its
  \<^verbatim>\<open>released\<close> flag, and \<open>waiters\<close> the queued calls. A step is one call of \<^verbatim>\<open>acquire()\<close> or of a release
  function that was handed out, in any interleaving.

  Shown: never more than \<open>max\<close> slots in use, the counter equals the live handles, no slot is idle while a call
  waits, and calls are served in the order they were made.
\<close>

record climiter =
  cl_max :: nat
  inflight :: int
  waiters :: "nat list"
  handles :: "(nat \<times> bool) list"

definition create_climiter :: "int \<Rightarrow> int + climiter" where
  "create_climiter m =
     (if m \<le> 0 then Inl m else Inr \<lparr>cl_max = nat m, inflight = 0, waiters = [], handles = []\<rparr>)"

definition acquire :: "nat \<Rightarrow> climiter \<Rightarrow> climiter" where
  "acquire n l =
     (if inflight l < int (cl_max l)
      then l\<lparr>inflight := inflight l + 1, handles := handles l @ [(n, False)]\<rparr>
      else l\<lparr>waiters := waiters l @ [n]\<rparr>)"

text \<open>The private \<^verbatim>\<open>release()\<close>: free the slot and hand it to the first waiter.\<close>

definition release_slot :: "climiter \<Rightarrow> climiter" where
  "release_slot l =
     (let l1 = l\<lparr>inflight := inflight l - 1\<rparr>
      in case waiters l1 of
           [] \<Rightarrow> l1
         | n # ws \<Rightarrow> l1\<lparr>waiters := ws, inflight := inflight l1 + 1, handles := handles l1 @ [(n, False)]\<rparr>)"

definition mark_released :: "nat \<Rightarrow> (nat \<times> bool) list \<Rightarrow> (nat \<times> bool) list" where
  "mark_released n hs = map (\<lambda>h. if fst h = n then (n, True) else h) hs"

text \<open>The function given to the caller with ticket \<open>n\<close>: effective the first time only.\<close>

definition call_release :: "nat \<Rightarrow> climiter \<Rightarrow> climiter" where
  "call_release n l =
     (if (n, False) \<in> set (handles l) then release_slot (l\<lparr>handles := mark_released n (handles l)\<rparr>) else l)"

definition queue_depth :: "climiter \<Rightarrow> nat" where
  "queue_depth l = length (waiters l)"

definition current_inflight :: "climiter \<Rightarrow> int" where
  "current_inflight l = inflight l"

datatype cl_call = Acquire nat | Release nat

definition tickets :: "climiter \<Rightarrow> nat list" where
  "tickets l = map fst (handles l) @ waiters l"

text \<open>Reachable limiters with the list of the tickets that called \<^verbatim>\<open>acquire()\<close>, oldest first.\<close>

inductive cl_reach :: "nat \<Rightarrow> climiter \<Rightarrow> nat list \<Rightarrow> bool" for m where
  start: "create_climiter (int m) = Inr l \<Longrightarrow> cl_reach m l []"
| acq: "cl_reach m l calls \<Longrightarrow> n \<notin> set calls \<Longrightarrow> cl_reach m (acquire n l) (calls @ [n])"
| rel: "cl_reach m l calls \<Longrightarrow> n \<in> set (map fst (handles l)) \<Longrightarrow> cl_reach m (call_release n l) calls"

section \<open>Invariant\<close>

definition live :: "(nat \<times> bool) list \<Rightarrow> nat" where
  "live hs = length (filter (\<lambda>h. \<not> snd h) hs)"

definition climiter_ok :: "climiter \<Rightarrow> nat list \<Rightarrow> bool" where
  "climiter_ok l calls \<longleftrightarrow>
     inflight l = int (live (handles l)) \<and> inflight l \<le> int (cl_max l) \<and> 0 < cl_max l \<and>
     (waiters l \<noteq> [] \<longrightarrow> inflight l = int (cl_max l)) \<and>
     tickets l = calls \<and> distinct calls"

lemma live_append [simp]: "live (xs @ ys) = live xs + live ys"
  by (simp add: live_def)

lemma live_single [simp]: "live [(n, False)] = 1"
  by (simp add: live_def)

lemma fst_mark_released [simp]: "map fst (mark_released n hs) = map fst hs"
  by (induction hs) (auto simp: mark_released_def)

lemma live_mark_released:
  "distinct (map fst hs) \<Longrightarrow> (n, False) \<in> set hs \<Longrightarrow> Suc (live (mark_released n hs)) = live hs"
proof (induction hs)
  case (Cons h hs)
  show ?case
  proof (cases "fst h = n")
    case True
    then have "n \<notin> set (map fst hs)" using Cons.prems(1) by simp
    then have nin: "\<forall>b. (n, b) \<notin> set hs" by force
    then have "mark_released n hs = hs" unfolding mark_released_def by (intro map_idI) auto
    moreover have "h = (n, False)" using nin Cons.prems(2) by auto
    ultimately have "mark_released n hs = hs" and "h = (n, False)" by simp_all
    then show ?thesis by (simp add: mark_released_def live_def)
  next
    case False
    then have "(n, False) \<in> set hs" using Cons.prems(2) by auto
    with Cons False show ?thesis by (auto simp: mark_released_def live_def)
  qed
qed simp

lemma acquire_ok: "climiter_ok l calls \<Longrightarrow> n \<notin> set calls \<Longrightarrow> climiter_ok (acquire n l) (calls @ [n])"
  by (auto simp: climiter_ok_def acquire_def tickets_def)

lemma call_release_ok:
  assumes "climiter_ok l calls"
  shows "climiter_ok (call_release n l) calls"
proof (cases "(n, False) \<in> set (handles l)")
  case True
  have "distinct (map fst (handles l))" using assms by (auto simp: climiter_ok_def tickets_def)
  from live_mark_released [OF this True] have "int (live (mark_released n (handles l))) = inflight l - 1"
    using assms by (simp add: climiter_ok_def)
  then show ?thesis
    using assms True
    by (auto simp: climiter_ok_def call_release_def release_slot_def tickets_def Let_def split: list.splits)
qed (simp add: call_release_def assms)

lemma cl_reach_ok: "cl_reach m l calls \<Longrightarrow> climiter_ok l calls \<and> cl_max l = m"
proof (induction rule: cl_reach.induct)
  case (start l)
  then show ?case by (auto simp: create_climiter_def climiter_ok_def tickets_def live_def split: if_splits)
next
  case (acq l calls n)
  then show ?case using acquire_ok [of l calls n] by (simp add: acquire_def)
next
  case (rel l calls n)
  then show ?case
    using call_release_ok [of l calls n]
    by (auto simp: call_release_def release_slot_def Let_def split: list.splits)
qed

section \<open>Behaviour\<close>

text \<open>C3. In every reachable state the slots in use are the handles not yet released, at most \<open>max\<close>; a call waits
  only while all slots are in use; and the calls served so far followed by the queue are the calls in the order they were
  made: service is first in, first out and no call is lost.\<close>

theorem climiter_safe_and_fifo:
  assumes "cl_reach m l calls"
  shows "current_inflight l = int (live (handles l)) \<and> current_inflight l \<le> int m \<and>
    (0 < queue_depth l \<longrightarrow> current_inflight l = int m) \<and> map fst (handles l) @ waiters l = calls"
  using cl_reach_ok [OF assms]
  by (auto simp: climiter_ok_def tickets_def current_inflight_def queue_depth_def)

theorem climiter_safe_and_fifo_witness:
  "let l = call_release 7 (acquire 8 (acquire 7 \<lparr>cl_max = 1, inflight = 0, waiters = [], handles = []\<rparr>))
   in map fst (handles l) @ waiters l = [7, 8] \<and> current_inflight l \<le> 1"
proof -
  let ?l0 = "\<lparr>cl_max = 1, inflight = 0, waiters = [], handles = []\<rparr>"
  let ?l2 = "acquire 8 (acquire 7 ?l0)"
  have "cl_reach 1 ?l0 []" by (rule cl_reach.start) (simp add: create_climiter_def)
  from cl_reach.acq [OF this, of 7] have "cl_reach 1 (acquire 7 ?l0) [7]" by simp
  from cl_reach.acq [OF this, of 8] have "cl_reach 1 ?l2 [7, 8]" by simp
  from cl_reach.rel [OF this, of 7] have "cl_reach 1 (call_release 7 ?l2) [7, 8]"
    by (simp add: acquire_def)
  from climiter_safe_and_fifo [OF this] show ?thesis by (simp add: Let_def)
qed

text \<open>Calling a release function again changes nothing.\<close>

lemma release_twice:
  assumes "climiter_ok l calls"
  shows "call_release n (call_release n l) = call_release n l"
proof (cases "(n, False) \<in> set (handles l)")
  case True
  have "n \<notin> set (waiters l)" using assms True
    by (force simp: climiter_ok_def tickets_def)
  then have "(n, False) \<notin> set (handles (call_release n l))"
    using True by (auto simp: call_release_def release_slot_def mark_released_def Let_def split: list.splits)
  then show ?thesis by (simp add: call_release_def [of n "call_release n l"])
qed (simp add: call_release_def)

end
