(* ===== verification/Semver.thy ===== *)
theory Semver imports Prelude begin

text \<open>
  The semantic-version range matcher of \<^verbatim>\<open>core/src/events/semver.ts\<close>. The three-number array is the datatype
  \<open>semver\<close> with its lexicographic order; the regular expressions are written out as scanners.
  \<open>None\<close> is \<^verbatim>\<open>null\<close> for the parser and \<^verbatim>\<open>NaN\<close> for the comparison.

  Shown: the comparison is the order of versions; a caret range is the half-open interval up to the next version
  that may break; a tilde range is the interval up to the next minor version; a compound range is the conjunction
  of its parts.
\<close>

datatype semver = SemVer (major: nat) (minor: nat) (patch: nat)

instantiation semver :: linorder
begin

definition less_eq_semver :: "semver \<Rightarrow> semver \<Rightarrow> bool" where
  "less_eq_semver a b \<longleftrightarrow> major a < major b \<or> major a = major b \<and>
     (minor a < minor b \<or> minor a = minor b \<and> patch a \<le> patch b)"

definition less_semver :: "semver \<Rightarrow> semver \<Rightarrow> bool" where
  "less_semver a b \<longleftrightarrow> major a < major b \<or> major a = major b \<and>
     (minor a < minor b \<or> minor a = minor b \<and> patch a < patch b)"

instance
  by standard (auto simp: less_eq_semver_def less_semver_def semver.expand)

end

lemma semver_eq_iff: "a = b \<longleftrightarrow> major a = major b \<and> minor a = minor b \<and> patch a = patch b"
  by (cases a; cases b) simp

lemmas semver_order = less_eq_semver_def less_semver_def semver_eq_iff

section \<open>Scanning\<close>

text \<open>\<^verbatim>\<open>(\d+)\<close> at the front of a string: the digits and the rest.\<close>

definition scan_digits :: "string \<Rightarrow> (string \<times> string) option" where
  "scan_digits s = (case takeWhile is_digit s of [] \<Rightarrow> None | ds \<Rightarrow> Some (ds, dropWhile is_digit s))"

definition scan_char :: "char \<Rightarrow> string \<Rightarrow> string option" where
  "scan_char c s = (case s of x # xs \<Rightarrow> (if x = c then Some xs else None) | [] \<Rightarrow> None)"

text \<open>\<^verbatim>\<open>^(\d+)\.(\d+)\.(\d+)$\<close>.\<close>

definition scan_triple :: "string \<Rightarrow> semver option" where
  "scan_triple s =
     Option.bind (scan_digits s) (\<lambda>(a, r1).
     Option.bind (scan_char (CHR ''.'') r1) (\<lambda>r2.
     Option.bind (scan_digits r2) (\<lambda>(b, r3).
     Option.bind (scan_char (CHR ''.'') r3) (\<lambda>r4.
     Option.bind (scan_digits r4) (\<lambda>(c, r5).
     if r5 = [] then Some (SemVer (parse_nat a) (parse_nat b) (parse_nat c)) else None)))))"

text \<open>\<^verbatim>\<open>v?\<close>.\<close>

definition skip_v :: "string \<Rightarrow> string" where
  "skip_v s = (case s of x # xs \<Rightarrow> (if x = CHR ''v'' then xs else s) | [] \<Rightarrow> s)"

definition parse_semver :: "string \<Rightarrow> semver option" where
  "parse_semver version = scan_triple (skip_v (trim version))"

definition compare_semver :: "string \<Rightarrow> string \<Rightarrow> int option" where
  "compare_semver a b =
     (case (parse_semver a, parse_semver b) of
        (Some pa, Some pb) \<Rightarrow>
          Some (if major pa \<noteq> major pb then int (major pa) - int (major pb)
                else if minor pa \<noteq> minor pb then int (minor pa) - int (minor pb)
                else int (patch pa) - int (patch pb))
      | _ \<Rightarrow> None)"

datatype range_op = OpGe | OpLe | OpGt | OpLt | OpEq | OpCaret | OpTilde

text \<open>\<^verbatim>\<open>(>=|<=|>|<|=|\^|~)?\<close> at the front of a comparator; absent means \<^verbatim>\<open>=\<close>.\<close>

definition scan_op :: "string \<Rightarrow> range_op \<times> string" where
  "scan_op s =
     (if is_prefix_of ''>='' s then (OpGe, drop 2 s)
      else if is_prefix_of ''<='' s then (OpLe, drop 2 s)
      else if is_prefix_of ''>'' s then (OpGt, drop 1 s)
      else if is_prefix_of ''<'' s then (OpLt, drop 1 s)
      else if is_prefix_of ''='' s then (OpEq, drop 1 s)
      else if is_prefix_of ''^'' s then (OpCaret, drop 1 s)
      else if is_prefix_of ''~'' s then (OpTilde, drop 1 s)
      else (OpEq, s))"

text \<open>The comparator's regular expression: its operator and its target \<^verbatim>\<open>m[2]\<close>.\<close>

definition scan_comparator :: "string \<Rightarrow> (range_op \<times> string) option" where
  "scan_comparator r =
     (let (op, rest) = scan_op r; target = skip_v rest
      in case scan_triple target of None \<Rightarrow> None | Some _ \<Rightarrow> Some (op, target))"

text \<open>\<^verbatim>\<open>r.split(/\s+/)\<close>.\<close>

function split_ws :: "string \<Rightarrow> string list" where
  "split_ws s =
     (case dropWhile (\<lambda>c. \<not> is_space c) s of
        [] \<Rightarrow> [s]
      | x # xs \<Rightarrow> takeWhile (\<lambda>c. \<not> is_space c) s # split_ws (dropWhile is_space xs))"
  by pat_completeness auto
termination
proof (relation "measure length")
  fix s :: string and x xs
  assume "dropWhile (\<lambda>c. \<not> is_space c) s = x # xs"
  then have "length (x # xs) \<le> length s" by (metis length_dropWhile_le)
  moreover have "length (dropWhile is_space xs) \<le> length xs" by (rule length_dropWhile_le)
  ultimately show "(dropWhile is_space xs, s) \<in> measure length" by simp
qed simp

declare split_ws.simps [simp del]

lemma split_ws_length: "p \<in> set (split_ws s) \<Longrightarrow> length p \<le> length s"
proof (induction s rule: split_ws.induct)
  case (1 s)
  show ?case
  proof (cases "dropWhile (\<lambda>c. \<not> is_space c) s")
    case Nil
    with 1(2) show ?thesis by (simp add: split_ws.simps [of s])
  next
    case (Cons x xs)
    have "length xs \<le> length s" using Cons length_dropWhile_le [of "\<lambda>c. \<not> is_space c" s] by simp
    with 1 Cons show ?thesis
      using length_dropWhile_le [of is_space xs] length_takeWhile_le [of "\<lambda>c. \<not> is_space c" s]
      by (force simp: split_ws.simps [of s])
  qed
qed

lemma split_ws_shorter:
  assumes "1 < length (split_ws s)" and "p \<in> set (split_ws s)"
  shows "length p < length s"
proof (cases "dropWhile (\<lambda>c. \<not> is_space c) s")
  case Nil
  with assms(1) show ?thesis by (simp add: split_ws.simps [of s])
next
  case (Cons x xs)
  let ?w = "takeWhile (\<lambda>c. \<not> is_space c) s"
  have "length s = length ?w + length (x # xs)"
    by (metis Cons length_append takeWhile_dropWhile_id)
  moreover have "p = ?w \<or> p \<in> set (split_ws (dropWhile is_space xs))"
    using assms(2) Cons by (simp add: split_ws.simps [of s])
  ultimately show ?thesis
    using split_ws_length [of p "dropWhile is_space xs"] length_dropWhile_le [of is_space xs] by auto
qed

lemma length_trim: "length (trim s) \<le> length s"
  unfolding trim_def by (metis length_dropWhile_le length_rev order_trans)

section \<open>Satisfaction\<close>

definition satisfies_op :: "range_op \<Rightarrow> semver \<Rightarrow> semver \<Rightarrow> int \<Rightarrow> bool" where
  "satisfies_op op v t c =
     (case op of
        OpEq \<Rightarrow> c = 0
      | OpGe \<Rightarrow> c \<ge> 0
      | OpLe \<Rightarrow> c \<le> 0
      | OpGt \<Rightarrow> c > 0
      | OpLt \<Rightarrow> c < 0
      | OpCaret \<Rightarrow>
          if major t > 0 then major v = major t \<and> c \<ge> 0
          else if minor t > 0 then major v = 0 \<and> minor v = minor t \<and> patch v \<ge> patch t
          else c = 0
      | OpTilde \<Rightarrow> major v = major t \<and> minor v = minor t \<and> patch v \<ge> patch t)"

definition satisfies_single :: "string \<Rightarrow> string \<Rightarrow> bool" where
  "satisfies_single version r =
     (case scan_comparator r of
        None \<Rightarrow> False
      | Some (op, target) \<Rightarrow>
          (case (parse_semver version, parse_semver target, compare_semver version target) of
             (Some v, Some t, Some c) \<Rightarrow> satisfies_op op v t c
           | _ \<Rightarrow> False))"

function satisfies_range :: "string \<Rightarrow> string \<Rightarrow> bool" where
  "satisfies_range version rng =
     (let r = trim rng in
      if r = ''*'' \<or> r = [] then True
      else let parts = split_ws r
           in if length parts > 1 then (\<forall>p \<in> set parts. satisfies_range version p)
              else satisfies_single version r)"
  by pat_completeness auto
termination
proof (relation "measure (\<lambda>(v, r). length r)")
  fix version rng r parts p
  assume "r = trim rng" "parts = split_ws r" "1 < length parts" "p \<in> set parts"
  then have "length p < length (trim rng)" using split_ws_shorter by simp
  then show "((version, p), version, rng) \<in> measure (\<lambda>(v, r). length r)"
    using length_trim [of rng] by simp
qed simp

declare satisfies_range.simps [simp del]

definition satisfies :: "string \<Rightarrow> string option \<Rightarrow> bool" where
  "satisfies version rng = (case rng of None \<Rightarrow> True | Some r \<Rightarrow> satisfies_range version r)"

section \<open>Behaviour\<close>

lemma compare_semver_order:
  assumes "parse_semver a = Some pa" and "parse_semver b = Some pb"
  shows "\<exists>c. compare_semver a b = Some c \<and> (c < 0 \<longleftrightarrow> pa < pb) \<and> (c = 0 \<longleftrightarrow> pa = pb) \<and> (c > 0 \<longleftrightarrow> pb < pa)"
proof -
  let ?c = "if major pa \<noteq> major pb then int (major pa) - int (major pb)
     else if minor pa \<noteq> minor pb then int (minor pa) - int (minor pb)
     else int (patch pa) - int (patch pb)"
  have c: "compare_semver a b = Some ?c" by (simp add: compare_semver_def assms)
  have "(?c < 0 \<longleftrightarrow> pa < pb) \<and> (?c = 0 \<longleftrightarrow> pa = pb) \<and> (?c > 0 \<longleftrightarrow> pb < pa)"
    by (simp add: semver_order)
  with c show ?thesis by blast
qed

text \<open>The first version a caret, or a tilde, range on \<open>t\<close> excludes.\<close>

definition caret_limit :: "semver \<Rightarrow> semver" where
  "caret_limit t =
     (if major t > 0 then SemVer (major t + 1) 0 0
      else if minor t > 0 then SemVer 0 (minor t + 1) 0
      else SemVer 0 0 (patch t + 1))"

definition tilde_limit :: "semver \<Rightarrow> semver" where
  "tilde_limit t = SemVer (major t) (minor t + 1) 0"

definition range_meaning :: "range_op \<Rightarrow> semver \<Rightarrow> semver set" where
  "range_meaning op t =
     (case op of
        OpEq \<Rightarrow> {t}
      | OpGe \<Rightarrow> {t..}
      | OpLe \<Rightarrow> {..t}
      | OpGt \<Rightarrow> {t<..}
      | OpLt \<Rightarrow> {..<t}
      | OpCaret \<Rightarrow> {t..<caret_limit t}
      | OpTilde \<Rightarrow> {t..<tilde_limit t})"

lemma satisfies_op_meaning:
  assumes "(c < 0 \<longleftrightarrow> v < t)" and "(c = 0 \<longleftrightarrow> v = t)" and "(c > 0 \<longleftrightarrow> t < v)"
  shows "satisfies_op op v t c \<longleftrightarrow> v \<in> range_meaning op t"
proof (cases op)
  case OpCaret
  have "c \<ge> 0 \<longleftrightarrow> t \<le> v" using assms by auto
  with OpCaret assms(2) have "satisfies_op op v t c \<longleftrightarrow>
      (if major t > 0 then major v = major t \<and> t \<le> v
       else if minor t > 0 then major v = 0 \<and> minor v = minor t \<and> patch v \<ge> patch t
       else v = t)"
    by (simp add: satisfies_op_def)
  moreover have "v \<in> range_meaning op t \<longleftrightarrow> t \<le> v \<and> v < caret_limit t"
    by (simp add: range_meaning_def OpCaret)
  moreover have "(t \<le> v \<and> v < caret_limit t) \<longleftrightarrow>
      (if major t > 0 then major v = major t \<and> t \<le> v
       else if minor t > 0 then major v = 0 \<and> minor v = minor t \<and> patch v \<ge> patch t
       else v = t)"
    by (cases v; cases t) (simp add: caret_limit_def semver_order, arith)
  ultimately show ?thesis by simp
next
  case OpTilde
  moreover have "(t \<le> v \<and> v < tilde_limit t) \<longleftrightarrow> major v = major t \<and> minor v = minor t \<and> patch v \<ge> patch t"
    by (cases v; cases t) (simp add: tilde_limit_def semver_order, arith)
  ultimately show ?thesis by (simp add: satisfies_op_def range_meaning_def)
qed (use assms in \<open>auto simp: satisfies_op_def range_meaning_def\<close>)

text \<open>The tokens of a range between white space.\<close>

definition plain_comparator :: "string \<Rightarrow> bool" where
  "plain_comparator r \<longleftrightarrow> trim r = r \<and> r \<noteq> ''*'' \<and> r \<noteq> [] \<and> length (split_ws r) = 1"

text \<open>A single comparator admits exactly the versions of an interval of the version order: the caret range up to
  the next version that may break the interface (next major, or next minor in 0.x, or next patch in 0.0.x), the tilde
  range up to the next minor version. A version that does not parse satisfies no comparator.\<close>

lemma satisfies_comparator_interval:
  assumes "plain_comparator r" and "scan_comparator r = Some (op, target)" and "parse_semver target = Some t"
  shows "satisfies version (Some r) \<longleftrightarrow> (\<exists>v. parse_semver version = Some v \<and> v \<in> range_meaning op t)"
proof -
  have s: "satisfies version (Some r) = satisfies_single version r"
    using assms(1) by (simp add: satisfies_def satisfies_range.simps [of version r] plain_comparator_def Let_def)
  show ?thesis
  proof (cases "parse_semver version")
    case None
    then show ?thesis by (simp add: s satisfies_single_def assms(2))
  next
    case (Some v)
    from compare_semver_order [OF Some assms(3)] obtain c where
      c: "compare_semver version target = Some c" "(c < 0 \<longleftrightarrow> v < t)" "(c = 0 \<longleftrightarrow> v = t)" "(c > 0 \<longleftrightarrow> t < v)"
      by blast
    show ?thesis
      using satisfies_op_meaning [OF c(2-4), of op]
      by (simp add: s satisfies_single_def assms Some c(1))
  qed
qed

text \<open>A compound range is the conjunction of its parts.\<close>

lemma satisfies_compound:
  "1 < length (split_ws (trim r)) \<Longrightarrow>
   satisfies version (Some r) \<longleftrightarrow> (\<forall>p \<in> set (split_ws (trim r)). satisfies version (Some p))"
  by (cases "trim r = ''*'' \<or> trim r = []")
    (auto simp: satisfies_def satisfies_range.simps [of version r] Let_def split_ws.simps is_space_def)

end
