(* ===== verification/JsValue.thy ===== *)
theory JsValue imports Prelude begin

text \<open>
  JavaScript data values, as they occur in event payloads, message bodies, JSON schemas and audit records.
  Numbers are exact rationals (a double is one; rounding, overflow to infinity and NaN values inside data
  are not modelled). Functions and symbols do not occur in decoded data. An object is the list of its own
  enumerable properties in insertion order.

  \<open>json_image\<close> is what \<^verbatim>\<open>JSON.parse(JSON.stringify(v))\<close> gives back: \<^verbatim>\<open>undefined\<close>
  properties are dropped, \<^verbatim>\<open>undefined\<close> array elements become \<^verbatim>\<open>null\<close>, and a top-level
  \<^verbatim>\<open>undefined\<close> has no image.
\<close>

datatype js =
    JUndef
  | JNull
  | JBool bool
  | JNum rat
  | JStr string
  | JArr "js list"
  | JObj "(string \<times> js) list"

text \<open>\<^verbatim>\<open>!!v\<close>.\<close>

fun truthy :: "js \<Rightarrow> bool" where
  "truthy JUndef = False"
| "truthy JNull = False"
| "truthy (JBool b) = b"
| "truthy (JNum n) = (n \<noteq> 0)"
| "truthy (JStr s) = (s \<noteq> [])"
| "truthy (JArr xs) = True"
| "truthy (JObj ps) = True"

text \<open>\<^verbatim>\<open>a === b\<close> on values without identity; two arrays or objects are never strictly equal unless
  they are the same reference, which values read from two different places are not.\<close>

fun strict_eq :: "js \<Rightarrow> js \<Rightarrow> bool" where
  "strict_eq JUndef JUndef = True"
| "strict_eq JNull JNull = True"
| "strict_eq (JBool a) (JBool b) = (a = b)"
| "strict_eq (JNum a) (JNum b) = (a = b)"
| "strict_eq (JStr a) (JStr b) = (a = b)"
| "strict_eq _ _ = False"

fun nullish :: "js \<Rightarrow> bool" where
  "nullish JUndef = True"
| "nullish JNull = True"
| "nullish _ = False"

lemma nullish_iff: "nullish v \<longleftrightarrow> v = JUndef \<or> v = JNull"
  by (cases v) simp_all

lemma nullish_not_truthy: "nullish v \<Longrightarrow> \<not> truthy v"
  by (cases v) simp_all

text \<open>\<^verbatim>\<open>typeof v === "object"\<close> and not null; the own properties of an object that is no array; and a property read.\<close>

fun is_object :: "js \<Rightarrow> bool" where
  "is_object (JObj _) = True"
| "is_object (JArr _) = True"
| "is_object _ = False"

definition fields_of :: "js \<Rightarrow> (string \<times> js) list" where
  "fields_of v = (case v of JObj ps \<Rightarrow> ps | _ \<Rightarrow> [])"

definition prop_of :: "string \<Rightarrow> js \<Rightarrow> js" where
  "prop_of k v = (case jm_get k (fields_of v) of None \<Rightarrow> JUndef | Some x \<Rightarrow> x)"

fun json_image :: "js \<Rightarrow> js option" where
  "json_image JUndef = None"
| "json_image JNull = Some JNull"
| "json_image (JBool b) = Some (JBool b)"
| "json_image (JNum n) = Some (JNum n)"
| "json_image (JStr s) = Some (JStr s)"
| "json_image (JArr xs) =
     Some (JArr (map (\<lambda>x. case json_image x of None \<Rightarrow> JNull | Some y \<Rightarrow> y) xs))"
| "json_image (JObj ps) =
     Some (JObj (concat (map (\<lambda>(k, v). case json_image v of None \<Rightarrow> [] | Some y \<Rightarrow> [(k, y)]) ps)))"

text \<open>Values that JSON can carry unchanged: no \<^verbatim>\<open>undefined\<close> inside.\<close>

fun is_json :: "js \<Rightarrow> bool" where
  "is_json JUndef = False"
| "is_json (JArr xs) = (\<forall>x \<in> set xs. is_json x)"
| "is_json (JObj ps) = (\<forall>(k, v) \<in> set ps. is_json v)"
| "is_json _ = True"

lemma json_image_json: "is_json v \<Longrightarrow> json_image v = Some v"
proof (induction v rule: is_json.induct)
  case (2 xs)
  then have "map (\<lambda>x. case json_image x of None \<Rightarrow> JNull | Some y \<Rightarrow> y) xs = xs"
    by (intro map_idI) simp
  then show ?case by simp
next
  case (3 ps)
  have "(case e of (k, v) \<Rightarrow> case json_image v of None \<Rightarrow> [] | Some y \<Rightarrow> [(k, y)]) = [e]"
    if "e \<in> set ps" for e
  proof -
    obtain k v where e: "e = (k, v)" by (cases e)
    have "is_json v" using 3(2) that by (auto simp: e)
    then have "json_image v = Some v" using 3(1) [OF that e [symmetric]] by simp
    then show ?thesis by (simp add: e)
  qed
  then have "map (\<lambda>(k, v). case json_image v of None \<Rightarrow> [] | Some y \<Rightarrow> [(k, y)]) ps = map (\<lambda>e. [e]) ps"
    by (intro map_cong) auto
  then have "concat (map (\<lambda>(k, v). case json_image v of None \<Rightarrow> [] | Some y \<Rightarrow> [(k, y)]) ps) = ps"
    by (simp only: concat_map_singleton map_ident)
  then show ?case by simp
qed simp_all

lemma json_image_is_json: "json_image v = Some w \<Longrightarrow> is_json w"
proof (induction v arbitrary: w rule: json_image.induct)
  case (6 xs)
  have "is_json (case json_image x of None \<Rightarrow> JNull | Some y \<Rightarrow> y)" if "x \<in> set xs" for x
    using 6(1) [OF that] by (cases "json_image x") simp_all
  moreover have "w = JArr (map (\<lambda>x. case json_image x of None \<Rightarrow> JNull | Some y \<Rightarrow> y) xs)"
    using 6(2) by simp
  ultimately show ?case by simp
next
  case (7 ps)
  have w: "w = JObj (concat (map (\<lambda>(k, v). case json_image v of None \<Rightarrow> [] | Some y \<Rightarrow> [(k, y)]) ps))"
    using 7(2) by simp
  have "is_json v" if mem: "(k, v) \<in> set (concat (map (\<lambda>(k, v). case json_image v of None \<Rightarrow> [] | Some y \<Rightarrow> [(k, y)]) ps))"
    for k v
  proof -
    from mem obtain u where u: "(k, u) \<in> set ps" "json_image u = Some v"
      by (auto split: option.splits)
    show ?thesis using 7(1) u by blast
  qed
  then show ?case by (auto simp only: w is_json.simps)
qed simp_all

text \<open>A second trip through JSON changes nothing.\<close>

lemma json_image_idem: "json_image v = Some w \<Longrightarrow> json_image w = Some w"
  by (simp add: json_image_is_json json_image_json)

end
