(* ===== verification/JsonPath.thy ===== *)
theory JsonPath imports JsValue begin

text \<open>
  The JSONPath subset of \<^verbatim>\<open>core/src/events/jsonpath.ts\<close>: the parser into segments, with every
  \<^verbatim>\<open>JsonPathError\<close> it throws as a constructor of \<open>jp_error\<close> (positions are those of the messages), and the
  resolver. The parser works on the rest of the path and the position \<open>i\<close> reached.

  The resolver reads properties with \<^verbatim>\<open>cur[seg]\<close>, so a key that an object does not own is looked up in its
  prototype chain: what that gives is the parameter \<open>proto\<close>.

  Shown: a printed path parses back to its segments; resolution of a path is the composition of the lookups of its
  segments, and is \<open>undefined\<close> from the first missing step on.
\<close>

datatype segment = Key string | Index nat

datatype jp_error =
    JP_empty
  | JP_no_dollar
  | JP_recursive
  | JP_wildcard
  | JP_predicate
  | JP_bad_char char nat
  | JP_empty_ident nat
  | JP_unterminated_bracket
  | JP_unterminated_key
  | JP_expected_close nat
  | JP_expected_index nat
  | JP_unexpected char nat

section \<open>Rejected features\<close>

fun some_suffix :: "(string \<Rightarrow> bool) \<Rightarrow> string \<Rightarrow> bool" where
  "some_suffix P [] = P []"
| "some_suffix P (c # s) = (P (c # s) \<or> some_suffix P s)"

definition has_dotdot :: "string \<Rightarrow> bool" where
  "has_dotdot = some_suffix (is_prefix_of ''..'')"

text \<open>\<^verbatim>\<open>/\[\s*\*\s*\]/\<close> and \<^verbatim>\<open>/\[\s*\?/\<close> at the front of a string.\<close>

definition wildcard_at :: "string \<Rightarrow> bool" where
  "wildcard_at s =
     (case s of c # r \<Rightarrow> c = CHR ''['' \<and>
        (case dropWhile is_space r of d # r2 \<Rightarrow> d = CHR ''*'' \<and>
           (case dropWhile is_space r2 of e # _ \<Rightarrow> e = CHR '']'' | [] \<Rightarrow> False)
         | [] \<Rightarrow> False)
      | [] \<Rightarrow> False)"

definition predicate_at :: "string \<Rightarrow> bool" where
  "predicate_at s =
     (case s of c # r \<Rightarrow> c = CHR ''['' \<and>
        (case dropWhile is_space r of d # _ \<Rightarrow> d = CHR ''?'' | [] \<Rightarrow> False)
      | [] \<Rightarrow> False)"

section \<open>Scanning one segment\<close>

text \<open>The identifier after a dot: stops before a dot or a bracket.\<close>

fun scan_ident :: "nat \<Rightarrow> string \<Rightarrow> jp_error + (string \<times> nat \<times> string)" where
  "scan_ident i [] = Inr ([], i, [])"
| "scan_ident i (c # s) =
     (if c = CHR ''.'' \<or> c = CHR ''['' then Inr ([], i, c # s)
      else if \<not> (is_word c \<or> c = CHR ''$'') then Inl (JP_bad_char c i)
      else bind_err (scan_ident (i + 1) s) (\<lambda>(w, j, r). Inr (c # w, j, r)))"

text \<open>A quoted key: the rest starts at the closing quote, or is empty when there is none.\<close>

fun scan_quoted :: "char \<Rightarrow> nat \<Rightarrow> string \<Rightarrow> string \<times> nat \<times> string" where
  "scan_quoted q i [] = ([], i, [])"
| "scan_quoted q i [c] = (if c = q then ([], i, [c]) else ([c], i + 1, []))"
| "scan_quoted q i (c # d # s) =
     (if c = q then ([], i, c # d # s)
      else if c = CHR 0x5C then (let (w, j, r) = scan_quoted q (i + 2) s in (d # w, j, r))
      else (let (w, j, r) = scan_quoted q (i + 1) (d # s) in (c # w, j, r)))"

fun expect_close :: "nat \<Rightarrow> string \<Rightarrow> jp_error + string" where
  "expect_close i [] = Inl (JP_expected_close i)"
| "expect_close i (c # s) = (if c = CHR '']'' then Inr s else Inl (JP_expected_close i))"

text \<open>The inside of a bracket, \<open>i\<close> and the rest being after the opening one.\<close>

definition scan_bracket :: "nat \<Rightarrow> string \<Rightarrow> jp_error + (segment \<times> nat \<times> string)" where
  "scan_bracket i s =
     (case s of
        [] \<Rightarrow> Inl JP_unterminated_bracket
      | c # r \<Rightarrow>
          if c = CHR 0x22 \<or> c = CHR 0x27 then
            (let (key, j, r1) = scan_quoted c (i + 1) r
             in case r1 of
                  [] \<Rightarrow> Inl JP_unterminated_key
                | _ # r2 \<Rightarrow> bind_err (expect_close (j + 1) r2) (\<lambda>r3. Inr (Key key, j + 2, r3)))
          else
            (let num = takeWhile is_digit s; j = i + length num; r1 = dropWhile is_digit s
             in if num = [] then Inl (JP_expected_index j)
                else bind_err (expect_close j r1) (\<lambda>r2. Inr (Index (parse_nat num), j + 1, r2))))"

section \<open>Lengths\<close>

lemma scan_ident_length: "scan_ident i s = Inr (w, j, r) \<Longrightarrow> length w + length r = length s"
  by (induction i s arbitrary: w j r rule: scan_ident.induct)
    (auto simp: bind_err_Inr_iff split: if_splits)

lemma scan_quoted_length: "scan_quoted q i s = (w, j, r) \<Longrightarrow> length r \<le> length s"
proof (induction q i s arbitrary: w j r rule: scan_quoted.induct)
  case (3 q i c d s)
  obtain w1 j1 r1 where 1: "scan_quoted q (i + 2) s = (w1, j1, r1)" by (cases "scan_quoted q (i + 2) s")
  obtain w2 j2 r2 where 2: "scan_quoted q (i + 1) (d # s) = (w2, j2, r2)"
    by (cases "scan_quoted q (i + 1) (d # s)")
  from 3 1 2 show ?case
    by (cases "c = q"; cases "c = CHR 0x5C") force+
qed (auto split: if_splits)

lemma expect_close_length: "expect_close i s = Inr r \<Longrightarrow> length s = Suc (length r)"
  by (cases s) (auto split: if_splits)

lemma scan_bracket_length: "scan_bracket i s = Inr (g, j, r) \<Longrightarrow> length r < length s"
proof -
  assume a: "scan_bracket i s = Inr (g, j, r)"
  then obtain c s' where s: "s = c # s'" by (cases s) (simp_all add: scan_bracket_def)
  show ?thesis
  proof (cases "c = CHR 0x22 \<or> c = CHR 0x27")
    case True
    obtain key k r1 where q: "scan_quoted c (i + 1) s' = (key, k, r1)" by (cases "scan_quoted c (i + 1) s'")
    have "(case r1 of [] \<Rightarrow> Inl JP_unterminated_key
        | _ # r2 \<Rightarrow> bind_err (expect_close (k + 1) r2) (\<lambda>r3. Inr (Key key, k + 2, r3))) = Inr (g, j, r)"
      using a by (simp only: scan_bracket_def s list.case True if_True q prod.case Let_def)
    then show ?thesis
      using scan_quoted_length [OF q]
      by (auto simp: s bind_err_Inr_iff dest!: expect_close_length split: list.splits)
  next
    case False
    have "length (dropWhile is_digit s) \<le> length s" by (rule length_dropWhile_le)
    with a False show ?thesis
      by (auto simp: scan_bracket_def s Let_def bind_err_Inr_iff dest!: expect_close_length split: if_splits)
  qed
qed

section \<open>The parser\<close>

function parse_segs :: "nat \<Rightarrow> string \<Rightarrow> jp_error + segment list" where
  "parse_segs i [] = Inr []"
| "parse_segs i (c # s) =
     (if c = CHR ''.'' then
        (if s \<noteq> [] \<and> hd s = CHR ''['' then parse_segs (i + 1) s
         else case scan_ident (i + 1) s of
                Inl e \<Rightarrow> Inl e
              | Inr (w, j, r) \<Rightarrow>
                  if w = [] then Inl (JP_empty_ident j)
                  else bind_err (parse_segs j r) (\<lambda>gs. Inr (Key w # gs)))
      else if c = CHR ''['' then
        (case scan_bracket (i + 1) s of
           Inl e \<Rightarrow> Inl e
         | Inr (g, j, r) \<Rightarrow> bind_err (parse_segs j r) (\<lambda>gs. Inr (g # gs)))
      else Inl (JP_unexpected c i))"
  by pat_completeness auto
termination
  by (relation "measure (\<lambda>(i, s). length s)")
    (auto dest: scan_ident_length scan_bracket_length)

definition parse_json_path :: "string \<Rightarrow> jp_error + segment list" where
  "parse_json_path path =
     (case path of
        [] \<Rightarrow> Inl JP_empty
      | c # rest \<Rightarrow>
          if c \<noteq> CHR ''$'' then Inl JP_no_dollar
          else if has_dotdot path then Inl JP_recursive
          else if some_suffix wildcard_at path then Inl JP_wildcard
          else if some_suffix predicate_at path then Inl JP_predicate
          else parse_segs 1 rest)"

definition is_json_path :: "js \<Rightarrow> bool" where
  "is_json_path v = (case v of JStr s \<Rightarrow> is_prefix_of ''$'' s | _ \<Rightarrow> False)"

section \<open>The resolver\<close>

text \<open>An array's own property for a string key: its length, or the element at a canonical index.\<close>

definition index_string :: "string \<Rightarrow> nat option" where
  "index_string k =
     (if k \<noteq> [] \<and> list_all is_digit k \<and> (hd k \<noteq> CHR ''0'' \<or> k = ''0'') then Some (parse_nat k) else None)"

definition get_index :: "js list \<Rightarrow> nat \<Rightarrow> js" where
  "get_index xs n = (if n < length xs then xs ! n else JUndef)"

definition get_key :: "(js \<Rightarrow> string \<Rightarrow> js) \<Rightarrow> js \<Rightarrow> string \<Rightarrow> js" where
  "get_key proto v k =
     (case v of
        JObj ps \<Rightarrow> (case map_of ps k of Some x \<Rightarrow> x | None \<Rightarrow> proto v k)
      | JArr xs \<Rightarrow>
          if k = ''length'' then JNum (of_nat (length xs))
          else (case index_string k of
                  Some n \<Rightarrow> if n < length xs then xs ! n else proto v k
                | None \<Rightarrow> proto v k)
      | _ \<Rightarrow> JUndef)"

text \<open>One iteration of the loop, on a value that is neither \<^verbatim>\<open>null\<close> nor \<^verbatim>\<open>undefined\<close>.\<close>

definition step_into :: "(js \<Rightarrow> string \<Rightarrow> js) \<Rightarrow> js \<Rightarrow> segment \<Rightarrow> js" where
  "step_into proto v g =
     (case g of
        Index n \<Rightarrow> (case v of JArr xs \<Rightarrow> get_index xs n | _ \<Rightarrow> JUndef)
      | Key k \<Rightarrow> get_key proto v k)"

fun resolve_segs :: "(js \<Rightarrow> string \<Rightarrow> js) \<Rightarrow> js \<Rightarrow> segment list \<Rightarrow> js" where
  "resolve_segs proto v [] = v"
| "resolve_segs proto v (g # gs) =
     (if nullish v then JUndef else resolve_segs proto (step_into proto v g) gs)"

definition resolve_json_path :: "(js \<Rightarrow> string \<Rightarrow> js) \<Rightarrow> js \<Rightarrow> string \<Rightarrow> jp_error + js" where
  "resolve_json_path proto rootv path = bind_err (parse_json_path path) (\<lambda>gs. Inr (resolve_segs proto rootv gs))"

lemma resolve_segs_append:
  "resolve_segs proto v (gs @ hs) =
     (if hs = [] then resolve_segs proto v gs
      else resolve_segs proto (resolve_segs proto v gs) hs)"
proof (induction gs arbitrary: v)
  case Nil
  then show ?case by simp
next
  case (Cons g gs)
  then show ?case by (cases hs) auto
qed

section \<open>Printing\<close>

function show_nat :: "nat \<Rightarrow> string" where
  "show_nat n = (if n < 10 then [char_of (48 + n)] else show_nat (n div 10) @ [char_of (48 + n mod 10)])"
  by pat_completeness auto
termination by (relation "measure id") auto

declare show_nat.simps [simp del]

lemma code_digit [simp]: "n < 10 \<Longrightarrow> code (char_of (48 + n :: nat)) = 48 + n"
  by (simp add: of_char_of)

lemma is_digit_char [simp]: "n < 10 \<Longrightarrow> is_digit (char_of (48 + n :: nat))"
  by (simp add: is_digit_def)

lemma show_nat_digits: "list_all is_digit (show_nat n)"
proof (induction n rule: show_nat.induct)
  case (1 n)
  then show ?case by (subst show_nat.simps) simp
qed

lemma show_nat_nonempty [simp]: "show_nat n \<noteq> []"
  by (subst show_nat.simps) simp

lemma parse_show_nat [simp]: "parse_nat (show_nat n) = n"
proof (induction n rule: show_nat.induct)
  case (1 n)
  show ?case
  proof (cases "n < 10")
    case True
    then show ?thesis by (subst show_nat.simps) (simp add: parse_nat_def digit_val_def)
  next
    case False
    have "parse_nat (show_nat n) = 10 * parse_nat (show_nat (n div 10)) + n mod 10"
      using False by (subst show_nat.simps) (simp add: parse_nat_def digit_val_def)
    with 1 False show ?thesis by simp
  qed
qed

text \<open>A key in the bracket form with double quotes, quotes and backslashes escaped.\<close>

fun escape_key :: "string \<Rightarrow> string" where
  "escape_key [] = []"
| "escape_key (c # s) =
     (if c = CHR 0x22 \<or> c = CHR 0x5C then CHR 0x5C # c # escape_key s else c # escape_key s)"

fun show_segment :: "segment \<Rightarrow> string" where
  "show_segment (Key k) = CHR ''['' # CHR 0x22 # escape_key k @ [CHR 0x22, CHR '']'']"
| "show_segment (Index n) = CHR ''['' # show_nat n @ [CHR '']'']"

definition show_path :: "segment list \<Rightarrow> string" where
  "show_path gs = CHR ''$'' # concat (map show_segment gs)"

text \<open>Keys whose text cannot be taken for one of the rejected features.\<close>

fun plain_segment :: "segment \<Rightarrow> bool" where
  "plain_segment (Key k) = (\<forall>c \<in> set k. c \<noteq> CHR ''.'' \<and> c \<noteq> CHR ''['')"
| "plain_segment (Index n) = True"

lemma scan_quoted_escape:
  "\<exists>j. scan_quoted (CHR 0x22) i (escape_key k @ CHR 0x22 # r) = (k, j, CHR 0x22 # r)"
proof (induction k arbitrary: i)
  case Nil
  then show ?case by (cases r) simp_all
next
  case (Cons c k)
  show ?case
  proof (cases "c = CHR 0x22 \<or> c = CHR 0x5C")
    case True
    then show ?thesis using Cons.IH [of "i + 2"] by (auto split: prod.split)
  next
    case False
    obtain d t where dt: "escape_key k @ CHR 0x22 # r = d # t" by (cases "escape_key k @ CHR 0x22 # r") simp_all
    from Cons.IH [of "i + 1"] False show ?thesis by (auto simp: dt split: prod.split)
  qed
qed

lemma digit_not: "is_digit c \<Longrightarrow> c \<noteq> CHR 0x22 \<and> c \<noteq> CHR 0x27 \<and> c \<noteq> CHR '']'' \<and> c \<noteq> CHR ''.'' \<and> c \<noteq> CHR ''[''"
  by (auto simp: is_digit_def)

lemma scan_bracket_show:
  "\<exists>j. scan_bracket i (tl (show_segment g) @ r) = Inr (g, j, r)"
proof (cases g)
  case (Key k)
  obtain j where "scan_quoted (CHR 0x22) (i + 1) (escape_key k @ CHR 0x22 # CHR '']'' # r) = (k, j, CHR 0x22 # CHR '']'' # r)"
    using scan_quoted_escape by blast
  then show ?thesis by (simp add: Key scan_bracket_def)
next
  case (Index n)
  obtain d t where dt: "show_nat n = d # t" by (cases "show_nat n") simp_all
  have ds: "\<forall>c \<in> set (show_nat n). is_digit c" using show_nat_digits [of n] by (simp add: list_all_iff)
  then have "is_digit d" by (simp add: dt)
  moreover have "\<not> is_digit (CHR '']'')" by (simp add: is_digit_def)
  ultimately have "takeWhile is_digit (show_nat n @ CHR '']'' # r) = show_nat n"
    "dropWhile is_digit (show_nat n @ CHR '']'' # r) = CHR '']'' # r"
    using ds by (simp_all add: takeWhile_append2 dropWhile_append2)
  then show ?thesis
    using digit_not [OF \<open>is_digit d\<close>] parse_show_nat [of n] by (simp add: Index scan_bracket_def dt Let_def)
qed

lemma parse_segs_show: "parse_segs i (concat (map show_segment gs)) = Inr gs"
proof (induction gs arbitrary: i)
  case (Cons g gs)
  obtain j where j: "scan_bracket (i + 1) (tl (show_segment g) @ concat (map show_segment gs)) =
      Inr (g, j, concat (map show_segment gs))"
    using scan_bracket_show by blast
  have "show_segment g = CHR ''['' # tl (show_segment g)" by (cases g) simp_all
  then have e: "concat (map show_segment (g # gs)) = CHR ''['' # (tl (show_segment g) @ concat (map show_segment gs))"
    by (metis append_Cons concat.simps(2) list.simps(9))
  show ?case unfolding e using j Cons.IH [of j] by simp
qed simp

lemma some_suffix_mem: "some_suffix P s \<Longrightarrow> \<exists>a b. s = a @ b \<and> P b"
proof (induction s)
  case (Cons c s)
  then show ?case by (metis append_Cons append_Nil some_suffix.simps(2))
qed simp

lemma show_path_no_dot:
  assumes "\<forall>g \<in> set gs. plain_segment g"
  shows "CHR ''.'' \<notin> set (show_path gs)"
proof -
  have e: "set (escape_key k) \<subseteq> insert (CHR 0x5C) (set k)" for k by (induction k) auto
  have n: "CHR ''.'' \<notin> set (show_nat n)" for n
    using show_nat_digits [of n] by (force simp: list_all_iff is_digit_def)
  have "CHR ''.'' \<notin> set (show_segment g)" if "plain_segment g" for g
    using that e n by (cases g) auto
  with assms show ?thesis by (auto simp: show_path_def)
qed

text \<open>After an opening bracket of a printed path comes a quote or a digit.\<close>

definition bracket_next :: "string \<Rightarrow> bool" where
  "bracket_next s \<longleftrightarrow> (\<forall>a r. s = a @ CHR ''['' # r \<longrightarrow> r \<noteq> [] \<and> (hd r = CHR 0x22 \<or> is_digit (hd r)))"

lemma bracket_next_plain: "CHR ''['' \<notin> set s \<Longrightarrow> bracket_next s"
  by (auto simp: bracket_next_def)

lemma bracket_next_append:
  assumes "bracket_next s" "bracket_next t"
  shows "bracket_next (s @ t)"
  unfolding bracket_next_def
proof (intro allI impI)
  fix a r
  assume st: "s @ t = a @ CHR ''['' # r"
  show "r \<noteq> [] \<and> (hd r = CHR 0x22 \<or> is_digit (hd r))"
  proof (cases "length s \<le> length a")
    case True
    then obtain a' where "a = s @ a'" "t = a' @ CHR ''['' # r"
      using st by (auto simp: append_eq_append_conv2)
    then show ?thesis using assms(2) by (auto simp: bracket_next_def)
  next
    case False
    then obtain r' where "s = a @ CHR ''['' # r'" "r = r' @ t"
      using st by (auto simp: append_eq_append_conv2 append_eq_Cons_conv Cons_eq_append_conv)
    moreover have "r' \<noteq> [] \<and> (hd r' = CHR 0x22 \<or> is_digit (hd r'))"
      using assms(1) \<open>s = a @ CHR ''['' # r'\<close> by (auto simp: bracket_next_def)
    ultimately show ?thesis by simp
  qed
qed

lemma bracket_next_Cons:
  assumes "CHR ''['' \<notin> set s" and "s \<noteq> []" and "hd s = CHR 0x22 \<or> is_digit (hd s)"
  shows "bracket_next (CHR ''['' # s)"
  unfolding bracket_next_def
proof (intro allI impI)
  fix a r
  assume "CHR ''['' # s = a @ CHR ''['' # r"
  then show "r \<noteq> [] \<and> (hd r = CHR 0x22 \<or> is_digit (hd r))"
    using assms by (cases a) auto
qed

lemma bracket_next_segment:
  assumes "plain_segment g"
  shows "bracket_next (show_segment g)"
proof (cases g)
  case (Key k)
  have "set (escape_key k) \<subseteq> insert (CHR 0x5C) (set k)" for k by (induction k) auto
  then have "CHR ''['' \<notin> set (escape_key k)" using assms Key by force
  then have "CHR ''['' \<notin> set (CHR 0x22 # escape_key k @ [CHR 0x22, CHR '']''])" by simp
  from bracket_next_Cons [OF this] show ?thesis by (simp add: Key)
next
  case (Index n)
  have d: "\<forall>c \<in> set (show_nat n). is_digit c" using show_nat_digits [of n] by (simp add: list_all_iff)
  then have "CHR ''['' \<notin> set (show_nat n @ [CHR '']''])" using digit_not by auto
  moreover have "is_digit (hd (show_nat n @ [CHR '']'']))" using d by (simp add: hd_append)
  ultimately have "bracket_next (CHR ''['' # show_nat n @ [CHR '']''])" by (intro bracket_next_Cons) simp_all
  then show ?thesis by (simp add: Index)
qed

lemma bracket_next_path: "\<forall>g \<in> set gs. plain_segment g \<Longrightarrow> bracket_next (show_path gs)"
proof -
  assume "\<forall>g \<in> set gs. plain_segment g"
  then have "bracket_next (concat (map show_segment gs))"
    by (induction gs) (simp_all add: bracket_next_append bracket_next_segment bracket_next_plain)
  from bracket_next_append [OF bracket_next_plain this, of "''$''"] show ?thesis by (simp add: show_path_def)
qed

lemma show_path_accepted:
  assumes "\<forall>g \<in> set gs. plain_segment g"
  shows "\<not> has_dotdot (show_path gs)" "\<not> some_suffix wildcard_at (show_path gs)"
    "\<not> some_suffix predicate_at (show_path gs)"
proof -
  have q: "\<not> is_space c \<and> c \<noteq> CHR ''*'' \<and> c \<noteq> CHR ''?''" if "c = CHR 0x22 \<or> is_digit c" for c
    using that by (auto simp: is_space_def is_digit_def)
  have nxt: "\<not> is_space (hd b) \<and> hd b \<noteq> CHR ''*'' \<and> hd b \<noteq> CHR ''?'' \<and> b \<noteq> []"
    if "show_path gs = a @ CHR ''['' # b" for a b
    using that bracket_next_path [OF assms] q [of "hd b"] unfolding bracket_next_def by blast
  show "\<not> has_dotdot (show_path gs)"
  proof
    assume "has_dotdot (show_path gs)"
    then obtain a b where ab: "show_path gs = a @ b" "is_prefix_of ''..'' b"
      unfolding has_dotdot_def using some_suffix_mem by blast
    then obtain b' where "b = CHR ''.'' # b'" by (cases b) simp_all
    with ab(1) show False using show_path_no_dot [OF assms] by simp
  qed
  show "\<not> some_suffix wildcard_at (show_path gs)"
  proof
    assume "some_suffix wildcard_at (show_path gs)"
    then obtain a b where ab: "show_path gs = a @ b" "wildcard_at b" using some_suffix_mem by blast
    then obtain r where r: "b = CHR ''['' # r" by (auto simp: wildcard_at_def split: list.splits)
    have n: "\<not> is_space (hd r) \<and> hd r \<noteq> CHR ''*'' \<and> hd r \<noteq> CHR ''?'' \<and> r \<noteq> []"
      using ab(1) unfolding r by (rule nxt)
    then obtain d t where "r = d # t" by (cases r) simp_all
    with n ab(2) show False by (simp add: wildcard_at_def r)
  qed
  show "\<not> some_suffix predicate_at (show_path gs)"
  proof
    assume "some_suffix predicate_at (show_path gs)"
    then obtain a b where ab: "show_path gs = a @ b" "predicate_at b" using some_suffix_mem by blast
    then obtain r where r: "b = CHR ''['' # r" by (auto simp: predicate_at_def split: list.splits)
    have n: "\<not> is_space (hd r) \<and> hd r \<noteq> CHR ''*'' \<and> hd r \<noteq> CHR ''?'' \<and> r \<noteq> []"
      using ab(1) unfolding r by (rule nxt)
    then obtain d t where "r = d # t" by (cases r) simp_all
    with n ab(2) show False by (simp add: predicate_at_def r)
  qed
qed

lemma parse_show_path: "\<forall>g \<in> set gs. plain_segment g \<Longrightarrow> parse_json_path (show_path gs) = Inr gs"
  using show_path_accepted [of gs] parse_segs_show [of 1 gs]
  by (simp add: parse_json_path_def show_path_def)

text \<open>Printing segments in bracket form (keys quoted, with quotes and backslashes escaped) and parsing gives the
  segments back, when no key holds a dot or an opening bracket; resolving the printed path is then the lookup of the
  segments one after the other, and it is \<open>undefined\<close> when a proper prefix of them leads to \<open>null\<close> or
  \<open>undefined\<close>.\<close>

lemma json_path_roundtrip:
  assumes "\<forall>g \<in> set (gs @ hs). plain_segment g"
  shows "parse_json_path (show_path (gs @ hs)) = Inr (gs @ hs) \<and>
    resolve_json_path proto rootv (show_path (gs @ hs)) = Inr (resolve_segs proto (resolve_segs proto rootv gs) hs) \<and>
    (nullish (resolve_segs proto rootv gs) \<longrightarrow> hs \<noteq> [] \<longrightarrow>
       resolve_json_path proto rootv (show_path (gs @ hs)) = Inr JUndef)"
proof -
  have "resolve_segs proto rootv (gs @ hs) = resolve_segs proto (resolve_segs proto rootv gs) hs"
    by (cases "hs = []") (simp_all add: resolve_segs_append)
  moreover have "nullish v \<longrightarrow> hs \<noteq> [] \<longrightarrow> resolve_segs proto v hs = JUndef" for v
    by (cases hs) simp_all
  ultimately show ?thesis
    using parse_show_path [OF assms] by (simp add: resolve_json_path_def)
qed

end
