(* ===== verification/FilterExpr.thy ===== *)
theory FilterExpr imports JsonPath begin

text \<open>
  The filter expression language of \<^verbatim>\<open>core/src/events/filter-expr.ts\<close>: tokenizer, recursive-descent parser and
  evaluator. Thrown \<^verbatim>\<open>FilterExpressionError\<close>s are constructors of \<open>fe_error\<close>; the evaluator throws the
  \<^verbatim>\<open>JsonPathError\<close>s of the paths it resolves.

  The parser methods take the rest of the tokens in place of the field \<^verbatim>\<open>pos\<close>. They recurse only through
  \<^verbatim>\<open>parsePrimary\<close>, which calls \<^verbatim>\<open>parseOr\<close> after an opening parenthesis: that call is the argument \<open>por\<close> of the
  methods below it, and \<open>p_or\<close> ties the knot with one unit of fuel per level of parentheses. Each loop has the same
  fuel, one unit per iteration; running out is the error \<open>FE_fuel\<close>. \<open>parse_filter\<close> supplies \<open>n + 1\<close> units for
  \<open>n\<close> tokens, which is shown to be enough for every input. Also shown: printing with the fewest parentheses the
  precedences allow and parsing gives the expression back, and what comparisons with an unresolved path yield.
\<close>

datatype token_kind =
  TNumber | TString | TIdent | TPath | TOp | TLparen | TRparen | TLbracket | TRbracket | TComma

datatype token = Token (kind: token_kind) (val: string) (tpos: nat)

datatype fe_error =
    FE_unterminated nat
  | FE_unexpected_char char nat
  | FE_trailing string
  | FE_end
  | FE_expected_rparen "nat option"
  | FE_unexpected_token string nat
  | FE_expected_lbracket "nat option"
  | FE_expected_rbracket "nat option"
  | FE_empty
  | FE_fuel

section \<open>Tokenizer\<close>

text \<open>The extent of a path: white space, commas, parentheses, a closing bracket or an operator end it outside brackets.\<close>

fun scan_path :: "nat \<Rightarrow> string \<Rightarrow> string \<times> string" where
  "scan_path depth [] = ([], [])"
| "scan_path depth (ch # s) =
     (if depth = 0 \<and> (is_space ch \<or> ch \<in> set '',()]=!<>'') then ([], ch # s)
      else let d = (if ch = CHR ''['' then depth + 1 else if ch = CHR '']'' then depth - 1 else depth);
               (w, r) = scan_path d s
           in (ch # w, r))"

text \<open>A string literal after its opening quote: its value, the number of characters read and the rest, which starts
  at the closing quote or is empty.\<close>

fun scan_string :: "char \<Rightarrow> string \<Rightarrow> string \<times> nat \<times> string" where
  "scan_string q [] = ([], 0, [])"
| "scan_string q [c] = (if c = q then ([], 0, [c]) else ([c], 1, []))"
| "scan_string q (c # d # s) =
     (if c = q then ([], 0, c # d # s)
      else if c = CHR 0x5C then (let (w, n, r) = scan_string q s in (d # w, n + 2, r))
      else (let (w, n, r) = scan_string q (d # s) in (c # w, n + 1, r)))"

definition is_num_char :: "char \<Rightarrow> bool" where
  "is_num_char c \<longleftrightarrow> is_digit c \<or> c = CHR ''.''"

definition starts_number :: "char \<Rightarrow> string \<Rightarrow> bool" where
  "starts_number c s \<longleftrightarrow> is_digit c \<or> (c = CHR ''-'' \<and> s \<noteq> [] \<and> is_digit (hd s))"

definition punct_kind :: "char \<Rightarrow> token_kind option" where
  "punct_kind c =
     (if c = CHR ''('' then Some TLparen else if c = CHR '')'' then Some TRparen
      else if c = CHR ''['' then Some TLbracket else if c = CHR '']'' then Some TRbracket
      else if c = CHR '','' then Some TComma else None)"

lemma scan_path_length: "scan_path d s = (w, r) \<Longrightarrow> length r \<le> length s"
proof (induction s arbitrary: d w r)
  case (Cons ch s)
  let ?d = "if ch = CHR ''['' then d + 1 else if ch = CHR '']'' then d - 1 else d"
  obtain w' r' where r: "scan_path ?d s = (w', r')" by (cases "scan_path ?d s")
  from Cons.IH [OF r] Cons.prems r show ?case by (auto simp: Let_def split: if_splits)
qed simp

lemma scan_string_length: "scan_string q s = (w, n, r) \<Longrightarrow> length r \<le> length s"
proof (induction q s arbitrary: w n r rule: scan_string.induct)
  case (3 q c d s)
  obtain w1 n1 r1 where 1: "scan_string q s = (w1, n1, r1)" by (cases "scan_string q s")
  obtain w2 n2 r2 where 2: "scan_string q (d # s) = (w2, n2, r2)" by (cases "scan_string q (d # s)")
  from 3 1 2 show ?case by (cases "c = q"; cases "c = CHR 0x5C") force+
qed (auto split: if_splits)

function tokenize :: "nat \<Rightarrow> string \<Rightarrow> fe_error + token list" where
  "tokenize i [] = Inr []"
| "tokenize i (c # s) =
     (if is_space c then tokenize (i + 1) s
      else if c = CHR ''$'' then
        (let (w, r) = scan_path 0 s
         in bind_err (tokenize (i + 1 + length w) r) (\<lambda>ts. Inr (Token TPath (c # w) i # ts)))
      else case punct_kind c of
        Some k \<Rightarrow> bind_err (tokenize (i + 1) s) (\<lambda>ts. Inr (Token k [c] i # ts))
      | None \<Rightarrow>
          if c = CHR 0x22 \<or> c = CHR 0x27 then
            (let (w, n, r) = scan_string c s
             in case r of
                  [] \<Rightarrow> Inl (FE_unterminated i)
                | _ # r' \<Rightarrow> bind_err (tokenize (i + 1 + n + 1) r') (\<lambda>ts. Inr (Token TString w i # ts)))
          else if starts_number c s then
            (let w = takeWhile is_num_char s
             in bind_err (tokenize (i + 1 + length w) (dropWhile is_num_char s))
                  (\<lambda>ts. Inr (Token TNumber (c # w) i # ts)))
          else if c \<in> set ''=!<>'' then
            (if s \<noteq> [] \<and> hd s = CHR ''='' then
               bind_err (tokenize (i + 2) (tl s)) (\<lambda>ts. Inr (Token TOp [c, CHR ''=''] i # ts))
             else if c = CHR ''<'' \<or> c = CHR ''>'' then
               bind_err (tokenize (i + 1) s) (\<lambda>ts. Inr (Token TOp [c] i # ts))
             else Inl (FE_unexpected_char c i))
          else if is_alpha c then
            (let w = takeWhile is_word s
             in bind_err (tokenize (i + 1 + length w) (dropWhile is_word s))
                  (\<lambda>ts. Inr (Token TIdent (c # w) i # ts)))
          else Inl (FE_unexpected_char c i))"
  by pat_completeness auto
termination
  by (relation "measure (\<lambda>(i, s). length s)")
    (auto simp: le_imp_less_Suc length_dropWhile_le
       dest!: scan_path_length [OF sym] scan_string_length [OF sym])

section \<open>Expressions\<close>

datatype bin_op = BEq | BNe | BLt | BLe | BGt | BGe | BAnd | BOr

datatype expr =
    Lit js
  | Path string
  | Bin bin_op expr expr
  | Not expr
  | In expr "expr list"

text \<open>The text of a comparison token as an operator.\<close>

definition op_of :: "string \<Rightarrow> bin_op" where
  "op_of s =
     (if s = ''=='' then BEq else if s = ''!='' then BNe else if s = ''<='' then BLe
      else if s = ''>='' then BGe else if s = ''<'' then BLt else BGt)"

text \<open>\<^verbatim>\<open>Number.parseFloat\<close>: the longest decimal literal at the front, after white space. \<open>None\<close> stands for NaN, and
  for the infinite values, which no finite number equals either.\<close>

definition scan_sign :: "string \<Rightarrow> rat \<times> string" where
  "scan_sign s = (case s of c # r \<Rightarrow> (if c = CHR ''-'' then (-1, r) else if c = CHR ''+'' then (1, r) else (1, s))
     | [] \<Rightarrow> (1, []))"

definition scan_exponent :: "string \<Rightarrow> int" where
  "scan_exponent s =
     (case s of
        [] \<Rightarrow> 0
      | c # r \<Rightarrow>
          if c = CHR ''e'' \<or> c = CHR ''E'' then
            (let (sg, r1) = scan_sign r; ds = takeWhile is_digit r1
             in if ds = [] then 0 else (if sg < 0 then - int (parse_nat ds) else int (parse_nat ds)))
          else 0)"

definition parse_float :: "string \<Rightarrow> rat option" where
  "parse_float s =
     (let (sg, t) = scan_sign (dropWhile is_space s);
          ip = takeWhile is_digit t; r1 = dropWhile is_digit t;
          (fp, r2) = (case r1 of c # r \<Rightarrow>
              (if c = CHR ''.'' then (takeWhile is_digit r, dropWhile is_digit r) else ([], r1)) | [] \<Rightarrow> ([], []))
      in if ip = [] \<and> fp = [] then None
         else let m = of_nat (parse_nat (ip @ fp)) / 10 ^ length fp; e = scan_exponent r2
              in Some (sg * m * (if e < 0 then 1 / 10 ^ nat (- e) else 10 ^ nat e)))"

section \<open>Parser\<close>

definition peek :: "token list \<Rightarrow> token option" where
  "peek ts = (case ts of [] \<Rightarrow> None | t # _ \<Rightarrow> Some t)"

definition peek_kind :: "token_kind \<Rightarrow> token list \<Rightarrow> bool" where
  "peek_kind k ts = (case ts of [] \<Rightarrow> False | t # _ \<Rightarrow> kind t = k)"

definition peek_ident :: "string \<Rightarrow> token list \<Rightarrow> bool" where
  "peek_ident v ts = (case ts of [] \<Rightarrow> False | t # _ \<Rightarrow> kind t = TIdent \<and> val t = v)"

abbreviation peek_pos :: "token list \<Rightarrow> nat option" where
  "peek_pos ts \<equiv> map_option tpos (peek ts)"

text \<open>Atoms of \<^verbatim>\<open>parsePrimary\<close> that are a single token.\<close>

definition atom_of :: "token \<Rightarrow> expr option" where
  "atom_of t =
     (case kind t of
        TNumber \<Rightarrow> Some (Lit (JNum (case parse_float (val t) of Some x \<Rightarrow> x | None \<Rightarrow> 0)))
      | TString \<Rightarrow> Some (Lit (JStr (val t)))
      | TIdent \<Rightarrow>
          if val t = ''true'' \<or> val t = ''false'' then Some (Lit (JBool (val t = ''true'')))
          else if val t = ''null'' then Some (Lit JNull) else None
      | TPath \<Rightarrow> Some (Path (val t))
      | _ \<Rightarrow> None)"

type_synonym 'a parsed = "fe_error + ('a \<times> token list)"

definition p_primary :: "(token list \<Rightarrow> expr parsed) \<Rightarrow> token list \<Rightarrow> expr parsed" where
  "p_primary por ts =
     (case ts of
        [] \<Rightarrow> Inl FE_end
      | t # ts' \<Rightarrow>
          if kind t = TLparen then
            bind_err (por ts') (\<lambda>(e, ts1).
              if peek_kind TRparen ts1 then Inr (e, tl ts1) else Inl (FE_expected_rparen (peek_pos ts1)))
          else case atom_of t of
                 Some e \<Rightarrow> Inr (e, ts')
               | None \<Rightarrow> Inl (FE_unexpected_token (val t) (tpos t)))"

text \<open>One item and the loop over the commas after it.\<close>

fun p_items :: "(token list \<Rightarrow> expr parsed) \<Rightarrow> nat \<Rightarrow> token list \<Rightarrow> expr list parsed" where
  "p_items por 0 ts = Inl FE_fuel"
| "p_items por (Suc n) ts =
     bind_err (p_primary por ts) (\<lambda>(e, ts1).
       if peek_kind TComma ts1
       then bind_err (p_items por n (tl ts1)) (\<lambda>(es, ts2). Inr (e # es, ts2))
       else Inr ([e], ts1))"

definition p_array :: "(token list \<Rightarrow> expr parsed) \<Rightarrow> nat \<Rightarrow> token list \<Rightarrow> expr list parsed" where
  "p_array por n ts =
     (if \<not> peek_kind TLbracket ts then Inl (FE_expected_lbracket (peek_pos ts))
      else if peek_kind TRbracket (tl ts) then Inr ([], tl (tl ts))
      else bind_err (p_items por n (tl ts)) (\<lambda>(es, ts1).
             if peek_kind TRbracket ts1 then Inr (es, tl ts1) else Inl (FE_expected_rbracket (peek_pos ts1))))"

definition p_cmp :: "(token list \<Rightarrow> expr parsed) \<Rightarrow> nat \<Rightarrow> token list \<Rightarrow> expr parsed" where
  "p_cmp por n ts =
     bind_err (p_primary por ts) (\<lambda>(l, ts1).
       if peek_kind TOp ts1
       then bind_err (p_primary por (tl ts1)) (\<lambda>(r, ts2). Inr (Bin (op_of (val (hd ts1))) l r, ts2))
       else if peek_ident ''in'' ts1
       then bind_err (p_array por n (tl ts1)) (\<lambda>(arr, ts2). Inr (In l arr, ts2))
       else Inr (l, ts1))"

fun p_not :: "(token list \<Rightarrow> expr parsed) \<Rightarrow> nat \<Rightarrow> token list \<Rightarrow> expr parsed" where
  "p_not por 0 ts = Inl FE_fuel"
| "p_not por (Suc n) ts =
     (if peek_ident ''not'' ts then bind_err (p_not por n (tl ts)) (\<lambda>(e, ts1). Inr (Not e, ts1))
      else p_cmp por (Suc n) ts)"

text \<open>The loops of \<^verbatim>\<open>parseAnd\<close> and \<^verbatim>\<open>parseOr\<close>: operands read by \<open>arg\<close>, joined to the left.\<close>

fun p_loop :: "string \<Rightarrow> bin_op \<Rightarrow> (token list \<Rightarrow> expr parsed) \<Rightarrow> nat \<Rightarrow> expr \<Rightarrow> token list \<Rightarrow> expr parsed" where
  "p_loop w op arg 0 l ts = Inl FE_fuel"
| "p_loop w op arg (Suc n) l ts =
     (if peek_ident w ts then bind_err (arg (tl ts)) (\<lambda>(r, ts1). p_loop w op arg n (Bin op l r) ts1)
      else Inr (l, ts))"

definition p_and :: "(token list \<Rightarrow> expr parsed) \<Rightarrow> nat \<Rightarrow> token list \<Rightarrow> expr parsed" where
  "p_and por n ts = bind_err (p_not por n ts) (\<lambda>(l, ts1). p_loop ''and'' BAnd (p_not por n) n l ts1)"

fun p_or :: "nat \<Rightarrow> token list \<Rightarrow> expr parsed" where
  "p_or 0 ts = Inl FE_fuel"
| "p_or (Suc n) ts =
     bind_err (p_and (p_or n) (Suc n) ts) (\<lambda>(l, ts1). p_loop ''or'' BOr (p_and (p_or n) (Suc n)) (Suc n) l ts1)"

definition parse_tokens :: "token list \<Rightarrow> fe_error + expr" where
  "parse_tokens ts =
     bind_err (p_or (Suc (length ts)) ts) (\<lambda>(e, rest).
       case rest of [] \<Rightarrow> Inr e | t # _ \<Rightarrow> Inl (FE_trailing (val t)))"

definition parse_filter :: "string \<Rightarrow> fe_error + expr" where
  "parse_filter src = bind_err (tokenize 0 src) (\<lambda>ts. if ts = [] then Inl FE_empty else parse_tokens ts)"

section \<open>Evaluator\<close>

definition loose_equals :: "js \<Rightarrow> js \<Rightarrow> bool" where
  "loose_equals a b =
     (if strict_eq a b then True
      else if nullish a \<or> nullish b then False
      else case (a, b) of
             (JNum x, JNum y) \<Rightarrow> x = y
           | (JStr x, JStr y) \<Rightarrow> x = y
           | (JNum x, JStr y) \<Rightarrow> parse_float y = Some x
           | (JStr x, JNum y) \<Rightarrow> parse_float x = Some y
           | _ \<Rightarrow> False)"

text \<open>\<^verbatim>\<open>cmp\<close>: \<open>None\<close> is NaN, for which every comparison is false.\<close>

definition cmp_values :: "js \<Rightarrow> js \<Rightarrow> rat option" where
  "cmp_values a b =
     (if nullish a \<or> nullish b then None
      else case (a, b) of
             (JNum x, JNum y) \<Rightarrow> Some (x - y)
           | (JStr x, JStr y) \<Rightarrow> Some (if str_less x y then -1 else if str_less y x then 1 else 0)
           | _ \<Rightarrow> None)"

definition cmp_test :: "(rat \<Rightarrow> bool) \<Rightarrow> js \<Rightarrow> js \<Rightarrow> js" where
  "cmp_test P a b = JBool (case cmp_values a b of None \<Rightarrow> False | Some d \<Rightarrow> P d)"

definition eval_cmp :: "bin_op \<Rightarrow> js \<Rightarrow> js \<Rightarrow> js" where
  "eval_cmp op a b =
     (case op of
        BEq \<Rightarrow> JBool (loose_equals a b)
      | BNe \<Rightarrow> JBool (\<not> loose_equals a b)
      | BLt \<Rightarrow> cmp_test (\<lambda>d. d < 0) a b
      | BLe \<Rightarrow> cmp_test (\<lambda>d. d \<le> 0) a b
      | BGt \<Rightarrow> cmp_test (\<lambda>d. d > 0) a b
      | BGe \<Rightarrow> cmp_test (\<lambda>d. d \<ge> 0) a b
      | _ \<Rightarrow> JUndef)"

fun evaluate :: "(js \<Rightarrow> string \<Rightarrow> js) \<Rightarrow> expr \<Rightarrow> js \<Rightarrow> jp_error + js"
  and eval_in :: "(js \<Rightarrow> string \<Rightarrow> js) \<Rightarrow> js \<Rightarrow> expr list \<Rightarrow> js \<Rightarrow> jp_error + js" where
  "evaluate proto (Lit v) ctx = Inr v"
| "evaluate proto (Path p) ctx = resolve_json_path proto ctx p"
| "evaluate proto (Not e) ctx = bind_err (evaluate proto e ctx) (\<lambda>v. Inr (JBool (\<not> truthy v)))"
| "evaluate proto (Bin op l r) ctx =
     (if op = BAnd then
        bind_err (evaluate proto l ctx) (\<lambda>a.
          if truthy a then bind_err (evaluate proto r ctx) (\<lambda>b. Inr (JBool (truthy b))) else Inr (JBool False))
      else if op = BOr then
        bind_err (evaluate proto l ctx) (\<lambda>a.
          if truthy a then Inr (JBool True) else bind_err (evaluate proto r ctx) (\<lambda>b. Inr (JBool (truthy b))))
      else
        bind_err (evaluate proto l ctx) (\<lambda>a. bind_err (evaluate proto r ctx) (\<lambda>b. Inr (eval_cmp op a b))))"
| "evaluate proto (In e arr) ctx = bind_err (evaluate proto e ctx) (\<lambda>v. eval_in proto v arr ctx)"
| "eval_in proto v [] ctx = Inr (JBool False)"
| "eval_in proto v (item # arr) ctx =
     bind_err (evaluate proto item ctx) (\<lambda>w. if loose_equals v w then Inr (JBool True) else eval_in proto v arr ctx)"

datatype filter_error = Parse_error fe_error | Path_error jp_error

definition evaluate_filter :: "(js \<Rightarrow> string \<Rightarrow> js) \<Rightarrow> string \<Rightarrow> js \<Rightarrow> filter_error + bool" where
  "evaluate_filter proto src ctx =
     (case parse_filter src of
        Inl e \<Rightarrow> Inl (Parse_error e)
      | Inr ast \<Rightarrow> (case evaluate proto ast ctx of Inl e \<Rightarrow> Inl (Path_error e) | Inr v \<Rightarrow> Inr (truthy v)))"

section \<open>The fuel is enough\<close>

lemma peek_nonempty:
  "peek_kind k ts \<Longrightarrow> Suc (length (tl ts)) = length ts"
  "peek_ident v ts \<Longrightarrow> Suc (length (tl ts)) = length ts"
  by (cases ts; simp add: peek_kind_def peek_ident_def)+

text \<open>A call ends well within its fuel: it does not run out, and on success has consumed a token.\<close>

definition settled :: "nat \<Rightarrow> fe_error + ('a \<times> token list) \<Rightarrow> bool" where
  "settled m r \<longleftrightarrow> r \<noteq> Inl FE_fuel \<and> (\<forall>x ts. r = Inr (x, ts) \<longrightarrow> length ts \<le> m)"

lemma settled_bind:
  assumes "settled k r" and "\<And>x ts. r = Inr (x, ts) \<Longrightarrow> length ts \<le> k \<Longrightarrow> settled m (f (x, ts))"
  shows "settled m (bind_err r f)"
  using assms by (cases r) (auto simp: settled_def)

lemma settled_Inr [simp]: "settled m (Inr (x, ts)) \<longleftrightarrow> length ts \<le> m"
  by (auto simp: settled_def)

lemma settled_Inl [simp]: "settled m (Inl e) \<longleftrightarrow> e \<noteq> FE_fuel"
  by (auto simp: settled_def)

lemma settled_mono: "settled m r \<Longrightarrow> m \<le> k \<Longrightarrow> settled k r"
  by (auto simp: settled_def)

lemma settled_primary:
  assumes "\<And>us. length us < length ts \<Longrightarrow> settled (length us - 1) (por us)"
  shows "settled (length ts - 1) (p_primary por ts)"
proof (cases ts)
  case (Cons t us)
  then have "settled (length us - 1) (por us)" using assms by simp
  then show ?thesis
    by (auto simp: p_primary_def Cons split: option.split intro!: settled_bind [where k = "length us - 1"])
qed (simp add: p_primary_def)

text \<open>A method that settles on every list no longer than \<open>k\<close>.\<close>

definition sub_ok :: "nat \<Rightarrow> (token list \<Rightarrow> 'a parsed) \<Rightarrow> bool" where
  "sub_ok k f \<longleftrightarrow> (\<forall>us. length us \<le> k \<longrightarrow> settled (length us - 1) (f us))"

lemma sub_okM: "sub_ok k f \<Longrightarrow> length us \<le> k \<Longrightarrow> length us - 1 \<le> m \<Longrightarrow> settled m (f us)"
  unfolding sub_ok_def using settled_mono by blast

lemma sub_ok_mono: "sub_ok k f \<Longrightarrow> j \<le> k \<Longrightarrow> sub_ok j f"
  by (simp add: sub_ok_def)

lemma sub_primary: "(0 < k \<Longrightarrow> sub_ok (k - 1) por) \<Longrightarrow> sub_ok k (p_primary por)"
  unfolding sub_ok_def by (intro allI impI settled_primary) (cases k; simp)

lemma sub_items: "sub_ok k (p_primary por) \<Longrightarrow> k < n \<Longrightarrow> sub_ok k (p_items por n)"
proof (induction n arbitrary: k)
  case (Suc n)
  note prim = sub_okM [OF Suc.prems(1)]
  show ?case unfolding sub_ok_def p_items.simps
  proof (intro allI impI settled_bind [OF prim [OF _ order_refl]])
    fix us ts1 :: "token list" and e
    assume us: "length us \<le> k" and len: "length ts1 \<le> length us - 1"
    have "settled (length us - 1) (p_items por n (tl ts1))" if "peek_kind TComma ts1"
    proof -
      note l = peek_nonempty(1) [OF that]
      have "sub_ok (k - 1) (p_items por n)"
        using Suc.prems l len us by (intro Suc.IH sub_ok_mono [OF Suc.prems(1)]) auto
      then show ?thesis using l len us by (elim sub_okM) auto
    qed
    then show "settled (length us - 1)
        (case (e, ts1) of (e, ts1) \<Rightarrow> if peek_kind TComma ts1
           then bind_err (p_items por n (tl ts1)) (\<lambda>(es, ts2). Inr (e # es, ts2)) else Inr ([e], ts1))"
      using len by (auto intro!: settled_bind)
  qed
qed simp

lemma sub_array:
  assumes "sub_ok k (p_primary por)" "k < n"
  shows "sub_ok k (p_array por n)"
  unfolding sub_ok_def
proof (intro allI impI)
  fix us :: "token list" assume "length us \<le> k"
  then have "settled (length us - 1) (p_items por n (tl us))"
    using sub_okM [OF sub_items [OF assms], of "tl us"] by simp
  then show "settled (length us - 1) (p_array por n us)"
    by (auto simp: p_array_def intro!: settled_bind)
qed

lemma sub_cmp:
  assumes "sub_ok k (p_primary por)" "k < n"
  shows "sub_ok k (p_cmp por n)"
  unfolding sub_ok_def p_cmp_def
proof (intro allI impI settled_bind [OF sub_okM [OF assms(1) _ order_refl]])
  fix us ts1 :: "token list" and l
  assume us: "length us \<le> k" and len: "length ts1 \<le> length us - 1"
  have "settled (length us - 1) (p_primary por (tl ts1))"
    using sub_okM [OF assms(1), of "tl ts1"] len us by simp
  moreover have "settled (length us - 1) (p_array por n (tl ts1))"
    using sub_okM [OF sub_array [OF assms], of "tl ts1"] len us by simp
  ultimately show "settled (length us - 1)
      (case (l, ts1) of (l, ts1) \<Rightarrow>
         if peek_kind TOp ts1
         then bind_err (p_primary por (tl ts1)) (\<lambda>(r, ts2). Inr (Bin (op_of (val (hd ts1))) l r, ts2))
         else if peek_ident ''in'' ts1
         then bind_err (p_array por n (tl ts1)) (\<lambda>(arr, ts2). Inr (In l arr, ts2))
         else Inr (l, ts1))"
    using len by (auto intro!: settled_bind)
qed

lemma sub_not: "sub_ok k (p_primary por) \<Longrightarrow> k < n \<Longrightarrow> sub_ok k (p_not por n)"
proof (induction n arbitrary: k)
  case (Suc n)
  show ?case unfolding sub_ok_def
  proof (intro allI impI)
    fix us :: "token list" assume us: "length us \<le> k"
    show "settled (length us - 1) (p_not por (Suc n) us)"
    proof (cases "peek_ident ''not'' us")
      case True
      note len = peek_nonempty(2) [OF True]
      have "sub_ok (k - 1) (p_not por n)"
        using Suc.prems len us by (intro Suc.IH sub_ok_mono [OF Suc.prems(1)]) auto
      then have "settled (length us - 1) (p_not por n (tl us))"
        using us by (elim sub_okM) auto
      with True show ?thesis by (auto intro!: settled_bind)
    qed (use sub_okM [OF sub_cmp [OF Suc.prems], of us] us in simp)
  qed
qed simp

lemma settled_loop:
  assumes "sub_ok k arg" "length ts \<le> k" "length ts < n"
  shows "settled (length ts) (p_loop w op arg n l ts)"
  using assms(2,3)
proof (induction n arbitrary: l ts)
  case (Suc n)
  show ?case
  proof (cases "peek_ident w ts")
    case True
    note len = peek_nonempty(2) [OF True]
    have "settled (length ts - 1) (arg (tl ts))" using sub_okM [OF assms(1), of "tl ts"] Suc.prems by simp
    then have "settled (length ts) (bind_err (arg (tl ts)) (\<lambda>(r, ts1). p_loop w op arg n (Bin op l r) ts1))"
    proof (rule settled_bind)
      fix x and ts1 :: "token list" assume "length ts1 \<le> length ts - 1"
      then show "settled (length ts) (case (x, ts1) of (r, ts1) \<Rightarrow> p_loop w op arg n (Bin op l r) ts1)"
        using Suc len by (auto intro!: settled_mono [OF Suc.IH])
    qed
    with True show ?thesis by simp
  qed simp
qed simp

lemma sub_chain:
  assumes "sub_ok k arg" "k < n"
  shows "sub_ok k (\<lambda>ts. bind_err (arg ts) (\<lambda>(l, ts1). p_loop w op arg n l ts1))"
  unfolding sub_ok_def
proof (intro allI impI settled_bind [OF sub_okM [OF assms(1) _ order_refl]])
  fix us ts1 :: "token list" and l
  assume us: "length us \<le> k" "length ts1 \<le> length us - 1"
  then have "settled (length ts1) (p_loop w op arg n l ts1)" using assms by (intro settled_loop [OF assms(1)]) auto
  then show "settled (length us - 1) (case (l, ts1) of (l, ts1) \<Rightarrow> p_loop w op arg n l ts1)"
    using us by (auto elim: settled_mono)
qed

lemma sub_and: "sub_ok k (p_primary por) \<Longrightarrow> k < n \<Longrightarrow> sub_ok k (p_and por n)"
  using sub_chain [OF sub_not, of k por n n "''and''" BAnd] by (simp add: p_and_def [abs_def])

lemma sub_or: "k < n \<Longrightarrow> sub_ok k (p_or n)"
proof (induction n arbitrary: k)
  case (Suc n)
  have "sub_ok k (p_primary (p_or n))" using Suc by (intro sub_primary) simp
  then have "sub_ok k (p_and (p_or n) (Suc n))" using Suc.prems by (rule sub_and)
  from sub_chain [OF this Suc.prems, of "''or''" BOr] show ?case by (simp only: sub_ok_def p_or.simps)
qed simp

lemma bind_err_no_fuel: "r \<noteq> Inl FE_fuel \<Longrightarrow> bind_err r (\<lambda>ts. Inr (f ts)) \<noteq> Inl FE_fuel"
  by (cases r) simp_all

lemma tokenize_no_fuel: "tokenize i s \<noteq> Inl FE_fuel"
proof (induction i s rule: tokenize.induct)
  case (2 i c s)
  obtain w r where p: "scan_path 0 s = (w, r)" by (cases "scan_path 0 s")
  obtain v n q where q: "scan_string c s = (v, n, q)" by (cases "scan_string c s")
  from 2 p q show ?case
    by (cases q; cases "punct_kind c") (simp_all add: bind_err_no_fuel Let_def del: set_simps list.set)
qed simp

text \<open>Parsing a filter always ends with an expression or with one of the errors the code throws: the fuel given to
  the parser never runs out, for any input string.\<close>

lemma parse_filter_returns: "parse_filter src \<noteq> Inl FE_fuel"
proof -
  have "parse_tokens ts \<noteq> Inl FE_fuel" for ts
  proof -
    have "settled (length ts - 1) (p_or (Suc (length ts)) ts)" using sub_okM [OF sub_or [OF lessI], of ts "length ts"] by simp
    then show ?thesis by (cases "p_or (Suc (length ts)) ts") (auto simp: parse_tokens_def split: list.splits simp del: p_or.simps)
  qed
  then show ?thesis using tokenize_no_fuel by (auto simp: parse_filter_def bind_err_def split: sum.splits)
qed

section \<open>Printing with the fewest parentheses\<close>

type_synonym lexeme = "token_kind \<times> string"

definition lexeme :: "token \<Rightarrow> lexeme" where
  "lexeme t = (kind t, val t)"

definition op_text :: "bin_op \<Rightarrow> string" where
  "op_text op = (case op of BEq \<Rightarrow> ''=='' | BNe \<Rightarrow> ''!='' | BLt \<Rightarrow> ''<'' | BLe \<Rightarrow> ''<='' | BGt \<Rightarrow> ''>'' | BGe \<Rightarrow> ''>=''
     | BAnd \<Rightarrow> ''and'' | BOr \<Rightarrow> ''or'')"

text \<open>The literals with a token: booleans, null, strings and the integers.\<close>

fun printable_literal :: "js \<Rightarrow> bool" where
  "printable_literal (JNum x) \<longleftrightarrow> x = of_int \<lfloor>x\<rfloor>"
| "printable_literal (JArr xs) = False"
| "printable_literal (JObj m) = False"
| "printable_literal JUndef = False"
| "printable_literal _ = True"

fun literal_lexeme :: "js \<Rightarrow> lexeme" where
  "literal_lexeme (JBool b) = (TIdent, if b then ''true'' else ''false'')"
| "literal_lexeme (JStr s) = (TString, s)"
| "literal_lexeme (JNum x) =
     (TNumber, if x < 0 then CHR ''-'' # show_nat (nat (- \<lfloor>x\<rfloor>)) else show_nat (nat \<lfloor>x\<rfloor>))"
| "literal_lexeme _ = (TIdent, ''null'')"

fun printable :: "expr \<Rightarrow> bool" where
  "printable (Lit v) = printable_literal v"
| "printable (Path p) = True"
| "printable (Bin op l r) \<longleftrightarrow> printable l \<and> printable r"
| "printable (Not e) = printable e"
| "printable (In e es) \<longleftrightarrow> printable e \<and> list_all printable es"

definition wrap :: "bool \<Rightarrow> lexeme list \<Rightarrow> lexeme list" where
  "wrap b xs = (if b then (TLparen, ''('') # xs @ [(TRparen, '')'')] else xs)"

text \<open>Level 0 is \<^verbatim>\<open>or\<close>, 1 \<^verbatim>\<open>and\<close>, 2 \<^verbatim>\<open>not\<close>, 3 a comparison or \<^verbatim>\<open>in\<close>, 4 a primary.\<close>

fun pr :: "nat \<Rightarrow> expr \<Rightarrow> lexeme list"
  and pr_items :: "expr list \<Rightarrow> lexeme list" where
  "pr d (Lit v) = [literal_lexeme v]"
| "pr d (Path p) = [(TPath, p)]"
| "pr d (Bin op l r) =
     (if op = BOr then wrap (0 < d) (pr 0 l @ (TIdent, ''or'') # pr 1 r)
      else if op = BAnd then wrap (1 < d) (pr 1 l @ (TIdent, ''and'') # pr 2 r)
      else wrap (3 < d) (pr 4 l @ (TOp, op_text op) # pr 4 r))"
| "pr d (Not e) = wrap (2 < d) ((TIdent, ''not'') # pr 2 e)"
| "pr d (In e es) = wrap (3 < d) (pr 4 e @ (TIdent, ''in'') # (TLbracket, ''['') # pr_items es @ [(TRbracket, '']'')])"
| "pr_items [] = []"
| "pr_items (e # es) = pr 4 e @ (if es = [] then [] else (TComma, '','') # pr_items es)"

lemma pr_nonempty [simp]: "pr d e \<noteq> []" "[] \<noteq> pr d e"
  by (cases e; auto simp: wrap_def)+

definition no_cmp :: "token list \<Rightarrow> bool" where
  "no_cmp ts \<longleftrightarrow> \<not> peek_kind TOp ts \<and> \<not> peek_ident ''in'' ts"

definition reads_prim :: "expr \<Rightarrow> bool" where
  "reads_prim e \<longleftrightarrow> (\<forall>k us rest. length us \<le> Suc k \<longrightarrow> map lexeme us = pr 4 e \<longrightarrow>
     p_primary (p_or k) (us @ rest) = Inr (e, rest))"

definition reads_cmp :: "expr \<Rightarrow> bool" where
  "reads_cmp e \<longleftrightarrow> (\<forall>k n us rest. length us \<le> Suc k \<longrightarrow> length us \<le> n \<longrightarrow> map lexeme us = pr 3 e \<longrightarrow> no_cmp rest \<longrightarrow>
     p_cmp (p_or k) n (us @ rest) = Inr (e, rest))"

definition reads_not :: "expr \<Rightarrow> bool" where
  "reads_not e \<longleftrightarrow> (\<forall>k n us rest. length us \<le> Suc k \<longrightarrow> length us \<le> n \<longrightarrow> map lexeme us = pr 2 e \<longrightarrow> no_cmp rest \<longrightarrow>
     p_not (p_or k) n (us @ rest) = Inr (e, rest))"

text \<open>The loops may go on after the expression; they do so with enough fuel left.\<close>

definition reads_and :: "expr \<Rightarrow> bool" where
  "reads_and e \<longleftrightarrow> (\<forall>k n us rest. length us \<le> Suc k \<longrightarrow> length us \<le> n \<longrightarrow> map lexeme us = pr 1 e \<longrightarrow> no_cmp rest \<longrightarrow>
     (\<exists>m. n < m + length us \<and>
        p_and (p_or k) n (us @ rest) = p_loop ''and'' BAnd (p_not (p_or k) n) m e rest))"

definition reads_or :: "expr \<Rightarrow> bool" where
  "reads_or e \<longleftrightarrow> (\<forall>k us rest. length us \<le> Suc k \<longrightarrow> map lexeme us = pr 0 e \<longrightarrow> no_cmp rest \<longrightarrow> \<not> peek_ident ''and'' rest \<longrightarrow>
     (\<exists>m. Suc k < m + length us \<and>
        p_or (Suc k) (us @ rest) = p_loop ''or'' BOr (p_and (p_or k) (Suc k)) m e rest))"

lemma peek_Cons [simp]:
  "peek_ident v (t # ts) \<longleftrightarrow> lexeme t = (TIdent, v)"
  "peek_kind k (t # ts) \<longleftrightarrow> fst (lexeme t) = k"
  by (auto simp: peek_ident_def peek_kind_def lexeme_def)

lemma op_of_text [simp]: "op \<noteq> BAnd \<Longrightarrow> op \<noteq> BOr \<Longrightarrow> op_of (op_text op) = op"
  by (cases op) (simp_all add: op_of_def op_text_def)

text \<open>From each level to the next lower one, when the expression prints the same there.\<close>

lemma first_not_not: "map lexeme us = pr 3 e \<Longrightarrow> \<not> peek_ident ''not'' (us @ rest)"
proof -
  have lit: "literal_lexeme v \<noteq> (TIdent, ''not'')" for v by (cases v) auto
  have p4: "pr 4 x \<noteq> (TIdent, ''not'') # xs" for x xs
    using lit by (cases x) (auto simp: wrap_def split: if_splits)
  have p3: "pr 3 x \<noteq> (TIdent, ''not'') # xs" for x xs
    using lit p4 by (cases x) (auto simp: wrap_def append_eq_Cons_conv split: if_splits)
  assume "map lexeme us = pr 3 e"
  with p3 show ?thesis by (cases us) (auto dest: sym)
qed

lemma cmp_from_prim: "reads_prim e \<Longrightarrow> pr 3 e = pr 4 e \<Longrightarrow> reads_cmp e"
  by (auto simp: reads_prim_def reads_cmp_def p_cmp_def no_cmp_def)

lemma not_from_cmp:
  assumes "reads_cmp e" "pr 2 e = pr 3 e"
  shows "reads_not e"
  unfolding reads_not_def
proof (intro allI impI)
  fix k n us rest
  assume a: "length us \<le> Suc k" "length us \<le> n" "map lexeme us = pr 2 e" "no_cmp rest"
  obtain n' where n: "n = Suc n'" using a by (cases n) auto
  have "p_cmp (p_or k) n (us @ rest) = Inr (e, rest)"
    using assms a unfolding reads_cmp_def by auto
  then show "p_not (p_or k) n (us @ rest) = Inr (e, rest)"
    using first_not_not [of us e rest] a assms n by simp
qed

lemma and_from_not: "reads_not e \<Longrightarrow> pr 1 e = pr 2 e \<Longrightarrow> reads_and e"
  unfolding reads_and_def
proof (intro allI impI)
  fix k n us rest
  assume "reads_not e" "pr 1 e = pr 2 e"
    and a: "length us \<le> Suc k" "length us \<le> n" "map lexeme us = pr 1 e" "no_cmp rest"
  then have "p_not (p_or k) n (us @ rest) = Inr (e, rest)" unfolding reads_not_def by auto
  then show "\<exists>m. n < m + length us \<and>
      p_and (p_or k) n (us @ rest) = p_loop ''and'' BAnd (p_not (p_or k) n) m e rest"
    using a by (intro exI [of _ n]) (auto simp: p_and_def)
qed

lemma and_stops:
  assumes "reads_and e" "length us \<le> Suc k" "map lexeme us = pr 1 e" "no_cmp rest" "\<not> peek_ident ''and'' rest"
  shows "p_and (p_or k) (Suc k) (us @ rest) = Inr (e, rest)"
proof -
  obtain m where m: "Suc k < m + length us"
    "p_and (p_or k) (Suc k) (us @ rest) = p_loop ''and'' BAnd (p_not (p_or k) (Suc k)) m e rest"
    using assms unfolding reads_and_def by blast
  then obtain m' where "m = Suc m'" using assms(2) by (cases m) auto
  with m assms show ?thesis by simp
qed

lemma or_from_and:
  assumes "reads_and e" "pr 0 e = pr 1 e"
  shows "reads_or e"
  unfolding reads_or_def
proof (intro allI impI)
  fix k us rest
  assume a: "length us \<le> Suc k" "map lexeme us = pr 0 e" "no_cmp rest" "\<not> peek_ident ''and'' rest"
  then have "p_and (p_or k) (Suc k) (us @ rest) = Inr (e, rest)" using assms by (intro and_stops) auto
  then show "\<exists>m. Suc k < m + length us \<and>
      p_or (Suc k) (us @ rest) = p_loop ''or'' BOr (p_and (p_or k) (Suc k)) m e rest"
    using a by (intro exI [of _ "Suc k"]) (auto simp del: p_loop.simps)
qed

lemma or_stops:
  assumes "reads_or e" "length us \<le> Suc k" "map lexeme us = pr 0 e" "no_cmp rest"
    "\<not> peek_ident ''and'' rest" "\<not> peek_ident ''or'' rest"
  shows "p_or (Suc k) (us @ rest) = Inr (e, rest)"
proof -
  obtain m where m: "Suc k < m + length us"
    "p_or (Suc k) (us @ rest) = p_loop ''or'' BOr (p_and (p_or k) (Suc k)) m e rest"
    using assms unfolding reads_or_def by blast
  then obtain m' where "m = Suc m'" using assms(2) by (cases m) auto
  with m assms show ?thesis by (simp del: p_or.simps)
qed

lemma prim_from_or:
  assumes "reads_or e" "pr 4 e = (TLparen, ''('') # pr 0 e @ [(TRparen, '')'')]"
  shows "reads_prim e"
  unfolding reads_prim_def
proof (intro allI impI)
  fix k us rest
  assume len: "length us \<le> Suc k" and us: "map lexeme us = pr 4 e"
  from us obtain a vs b where vs: "us = a # vs @ [b]" "lexeme a = (TLparen, ''('')" "lexeme b = (TRparen, '')'')"
    "map lexeme vs = pr 0 e"
    unfolding assms(2) by (auto simp: map_eq_Cons_conv map_eq_append_conv)
  moreover obtain k' where "k = Suc k'" using len vs by (cases k) auto
  moreover have "p_or (Suc k') (vs @ b # rest) = Inr (e, b # rest)"
    using len vs \<open>k = Suc k'\<close> by (intro or_stops [OF assms(1)]) (auto simp: no_cmp_def)
  ultimately show "p_primary (p_or k) (us @ rest) = Inr (e, rest)"
    by (simp add: p_primary_def lexeme_def del: p_or.simps)
qed

text \<open>Each constructor at its own level.\<close>

lemma reads_atom:
  assumes "\<And>d. pr d e = [x]" "\<And>t. lexeme t = x \<Longrightarrow> kind t \<noteq> TLparen \<and> atom_of t = Some e"
  shows "reads_prim e \<and> reads_not e \<and> reads_and e \<and> reads_or e"
proof -
  have "reads_prim e" unfolding reads_prim_def
    using assms by (auto simp: p_primary_def map_eq_Cons_conv)
  then show ?thesis
    using cmp_from_prim not_from_cmp and_from_not or_from_and by (simp add: assms(1))
qed

lemma reads_compare:
  assumes "reads_prim l" "reads_prim r" "op \<noteq> BAnd" "op \<noteq> BOr"
  shows "reads_cmp (Bin op l r)"
  unfolding reads_cmp_def
proof (intro allI impI)
  fix k n us rest
  assume len: "length us \<le> Suc k" and us: "map lexeme us = pr 3 (Bin op l r)"
  from us obtain ul t ur where u: "us = ul @ t # ur" "map lexeme ul = pr 4 l" "lexeme t = (TOp, op_text op)"
    "map lexeme ur = pr 4 r"
    using assms(3,4) by (auto simp: wrap_def map_eq_append_conv map_eq_Cons_conv)
  then have "p_primary (p_or k) (ul @ (t # ur @ rest)) = Inr (l, t # ur @ rest)"
    "p_primary (p_or k) (ur @ rest) = Inr (r, rest)"
    using assms(1,2) len unfolding reads_prim_def by auto
  moreover have "val t = op_text op" using u(3) by (simp add: lexeme_def)
  ultimately show "p_cmp (p_or k) n (us @ rest) = Inr (Bin op l r, rest)"
    using u(3) assms(3,4) by (simp add: p_cmp_def u(1))
qed

lemma read_items:
  assumes "\<forall>e \<in> set es. reads_prim e" "es \<noteq> []" "length us \<le> Suc k" "length us \<le> n" "map lexeme us = pr_items es"
    "\<not> peek_kind TComma rest"
  shows "p_items (p_or k) n (us @ rest) = Inr (es, rest)"
  using assms
proof (induction es arbitrary: us n)
  case (Cons e es)
  obtain n' where n: "n = Suc n'" using Cons.prems by (cases n) auto
  show ?case
  proof (cases "es = []")
    case True
    then show ?thesis using Cons.prems n unfolding reads_prim_def by simp
  next
    case False
    then obtain ue t ur where u: "us = ue @ t # ur" "map lexeme ue = pr 4 e" "lexeme t = (TComma, '','')"
      "map lexeme ur = pr_items es"
      using Cons.prems by (auto simp: map_eq_append_conv map_eq_Cons_conv)
    then have "p_primary (p_or k) (ue @ (t # ur @ rest)) = Inr (e, t # ur @ rest)"
      using Cons.prems unfolding reads_prim_def by auto
    moreover have "p_items (p_or k) n' (ur @ rest) = Inr (es, rest)"
      using Cons False u n by auto
    ultimately show ?thesis using u n by simp
  qed
qed simp

lemma first_item: "es \<noteq> [] \<Longrightarrow> map lexeme us = pr_items es \<Longrightarrow> \<not> peek_kind TRbracket (us @ rest)"
proof -
  have lit: "literal_lexeme v \<noteq> (TRbracket, w)" for v w by (cases v) auto
  have p4: "pr 4 x \<noteq> (TRbracket, v) # xs" for x v xs
    using lit by (cases x) (auto simp: wrap_def split: if_splits)
  assume "es \<noteq> []" "map lexeme us = pr_items es"
  then show ?thesis using p4
    by (cases es; cases us) (auto simp: append_eq_Cons_conv Cons_eq_append_conv, (metis prod.collapse)+)
qed

lemma reads_in:
  assumes "reads_prim e" "\<forall>x \<in> set es. reads_prim x"
  shows "reads_cmp (In e es)"
  unfolding reads_cmp_def
proof (intro allI impI)
  fix k n us rest
  assume len: "length us \<le> Suc k" "length us \<le> n" and us: "map lexeme us = pr 3 (In e es)"
  from us obtain ue t1 t2 ui t3 where u: "us = ue @ t1 # t2 # ui @ [t3]" "map lexeme ue = pr 4 e"
    "lexeme t1 = (TIdent, ''in'')" "lexeme t2 = (TLbracket, ''['')" "map lexeme ui = pr_items es"
    "lexeme t3 = (TRbracket, '']'')"
    by (auto simp: wrap_def map_eq_append_conv map_eq_Cons_conv append_eq_map_conv Cons_eq_map_conv)
  then have 1: "p_primary (p_or k) (ue @ (t1 # t2 # ui @ t3 # rest)) = Inr (e, t1 # t2 # ui @ t3 # rest)"
    using assms(1) len unfolding reads_prim_def by auto
  have "p_array (p_or k) n (t2 # ui @ t3 # rest) = Inr (es, rest)"
  proof (cases "es = []")
    case True
    then show ?thesis using u by (simp add: p_array_def)
  next
    case False
    have "p_items (p_or k) n (ui @ t3 # rest) = Inr (es, t3 # rest)"
      using len u by (intro read_items [OF assms(2) False]) auto
    then show ?thesis using u first_item [OF False u(5)] by (simp add: p_array_def)
  qed
  with 1 u show "p_cmp (p_or k) n (us @ rest) = Inr (In e es, rest)" by (simp add: p_cmp_def)
qed

lemma reads_negation:
  assumes "reads_not e"
  shows "reads_not (Not e)"
  unfolding reads_not_def
proof (intro allI impI)
  fix k n us rest
  assume len: "length us \<le> Suc k" "length us \<le> n" and us: "map lexeme us = pr 2 (Not e)" and r: "no_cmp rest"
  from us obtain t vs where u: "us = t # vs" "lexeme t = (TIdent, ''not'')" "map lexeme vs = pr 2 e"
    by (auto simp: wrap_def map_eq_Cons_conv)
  moreover obtain n' where "n = Suc n'" using len u by (cases n) auto
  moreover have "p_not (p_or k) n' (vs @ rest) = Inr (e, rest)"
    using assms len u \<open>n = Suc n'\<close> r unfolding reads_not_def by auto
  ultimately show "p_not (p_or k) n (us @ rest) = Inr (Not e, rest)" by simp
qed

lemma reads_conj:
  assumes "reads_and l" "reads_not r"
  shows "reads_and (Bin BAnd l r)"
  unfolding reads_and_def
proof (intro allI impI)
  fix k n us rest
  assume len: "length us \<le> Suc k" "length us \<le> n" and us: "map lexeme us = pr 1 (Bin BAnd l r)" and nc: "no_cmp rest"
  from us obtain ul t ur where u: "us = ul @ t # ur" "map lexeme ul = pr 1 l" "lexeme t = (TIdent, ''and'')"
    "map lexeme ur = pr 2 r"
    by (auto simp: wrap_def map_eq_append_conv map_eq_Cons_conv)
  have "\<exists>m. n < m + length ul \<and> p_and (p_or k) n (ul @ (t # ur @ rest)) =
      p_loop ''and'' BAnd (p_not (p_or k) n) m l (t # ur @ rest)"
    using assms(1) len u unfolding reads_and_def by (auto simp: no_cmp_def)
  then obtain m where m: "n < m + length ul" "p_and (p_or k) n (us @ rest) =
      p_loop ''and'' BAnd (p_not (p_or k) n) m l (t # ur @ rest)"
    using u by auto
  obtain m' where m': "m = Suc m'" using m(1) len u by (cases m) auto
  have "p_not (p_or k) n (ur @ rest) = Inr (r, rest)"
    using assms(2) len u nc unfolding reads_not_def by auto
  then have "p_and (p_or k) n (us @ rest) = p_loop ''and'' BAnd (p_not (p_or k) n) m' (Bin BAnd l r) rest"
    using m m' u by simp
  moreover have "ur \<noteq> []" using u by auto
  ultimately show "\<exists>m. n < m + length us \<and> p_and (p_or k) n (us @ rest) =
      p_loop ''and'' BAnd (p_not (p_or k) n) m (Bin BAnd l r) rest"
    using m(1) m' u by (intro exI [of _ m']) (auto simp: neq_Nil_conv)
qed

lemma reads_disj:
  assumes "reads_or l" "reads_and r"
  shows "reads_or (Bin BOr l r)"
  unfolding reads_or_def
proof (intro allI impI)
  fix k us rest
  assume len: "length us \<le> Suc k" and us: "map lexeme us = pr 0 (Bin BOr l r)" and nc: "no_cmp rest" "\<not> peek_ident ''and'' rest"
  from us obtain ul t ur where u: "us = ul @ t # ur" "map lexeme ul = pr 0 l" "lexeme t = (TIdent, ''or'')"
    "map lexeme ur = pr 1 r"
    by (auto simp: wrap_def map_eq_append_conv map_eq_Cons_conv)
  have "\<exists>m. Suc k < m + length ul \<and> p_or (Suc k) (ul @ (t # ur @ rest)) =
      p_loop ''or'' BOr (p_and (p_or k) (Suc k)) m l (t # ur @ rest)"
    using assms(1) len u unfolding reads_or_def by (auto simp: no_cmp_def simp del: p_or.simps)
  then obtain m where m: "Suc k < m + length ul" "p_or (Suc k) (us @ rest) =
      p_loop ''or'' BOr (p_and (p_or k) (Suc k)) m l (t # ur @ rest)"
    using u by (auto simp del: p_or.simps)
  obtain m' where m': "m = Suc m'" using m(1) len u by (cases m) auto
  have "p_and (p_or k) (Suc k) (ur @ rest) = Inr (r, rest)"
    using len u nc by (intro and_stops [OF assms(2)]) auto
  then have "p_or (Suc k) (us @ rest) = p_loop ''or'' BOr (p_and (p_or k) (Suc k)) m' (Bin BOr l r) rest"
    using m m' u by (simp del: p_or.simps)
  moreover have "ur \<noteq> []" using u by auto
  ultimately show "\<exists>m. Suc k < m + length us \<and> p_or (Suc k) (us @ rest) =
      p_loop ''or'' BOr (p_and (p_or k) (Suc k)) m (Bin BOr l r) rest"
    using m(1) m' u by (intro exI [of _ m']) (auto simp: neq_Nil_conv simp del: p_or.simps)
qed

lemma digit_plain: "is_digit c \<Longrightarrow> \<not> is_space c \<and> c \<noteq> CHR ''-'' \<and> c \<noteq> CHR ''+''"
  by (auto simp: is_digit_def is_space_def)

lemma parse_float_digits:
  assumes "list_all is_digit ds" "ds \<noteq> []"
  shows "parse_float ds = Some (of_nat (parse_nat ds))" "parse_float (CHR ''-'' # ds) = Some (- of_nat (parse_nat ds))"
proof -
  have d: "takeWhile is_digit ds = ds" "dropWhile is_digit ds = []"
    using assms by (auto simp: list_all_iff)
  have "\<not> is_space (hd ds) \<and> hd ds \<noteq> CHR ''-'' \<and> hd ds \<noteq> CHR ''+''"
    using assms digit_plain by (cases ds) auto
  then have "dropWhile is_space ds = ds" "scan_sign ds = (1, ds)"
    using assms by (cases ds; simp add: scan_sign_def)+
  moreover have "scan_sign (CHR ''-'' # ds) = (-1, ds)" "\<not> is_space (CHR ''-'')"
    by (simp_all add: scan_sign_def is_space_def)
  ultimately show "parse_float ds = Some (of_nat (parse_nat ds))"
    "parse_float (CHR ''-'' # ds) = Some (- of_nat (parse_nat ds))"
    using assms(2) by (simp_all add: parse_float_def scan_exponent_def Let_def d)
qed

lemma literal_atom: "printable_literal v \<Longrightarrow> lexeme t = literal_lexeme v \<Longrightarrow> kind t \<noteq> TLparen \<and> atom_of t = Some (Lit v)"
proof (cases v)
  case (JNum x)
  assume v: "printable_literal v" and t: "lexeme t = literal_lexeme v"
  then have x: "of_int \<lfloor>x\<rfloor> = x" by (simp add: JNum)
  show ?thesis
  proof (cases "x < 0")
    case True
    then have "(of_nat (nat (- \<lfloor>x\<rfloor>)) :: rat) = - of_int \<lfloor>x\<rfloor>" by (simp add: of_nat_nat)
    then show ?thesis using t True x parse_float_digits(2) [OF show_nat_digits show_nat_nonempty]
      by (auto simp: JNum lexeme_def atom_of_def)
  next
    case False
    then have "(of_nat (nat \<lfloor>x\<rfloor>) :: rat) = of_int \<lfloor>x\<rfloor>" by (simp add: of_nat_nat)
    then show ?thesis using t False x parse_float_digits(1) [OF show_nat_digits show_nat_nonempty]
      by (auto simp: JNum lexeme_def atom_of_def)
  qed
qed (auto simp: lexeme_def atom_of_def)

lemma reads_all: "printable e \<Longrightarrow> reads_prim e \<and> reads_not e \<and> reads_and e \<and> reads_or e"
proof (induction e)
  case (Lit v)
  then show ?case by (intro reads_atom [of _ "literal_lexeme v"] literal_atom) auto
next
  case (Path p)
  show ?case by (rule reads_atom [of _ "(TPath, p)"]) (auto simp: lexeme_def atom_of_def)
next
  case (Bin op l r)
  consider "op = BOr" | "op = BAnd" | "op \<noteq> BOr" "op \<noteq> BAnd" by blast
  then show ?case
  proof cases
    case 1
    then have "reads_or (Bin op l r)" using Bin reads_disj by simp
    moreover from this have "reads_prim (Bin op l r)" using 1 by (elim prim_from_or) (simp add: wrap_def)
    ultimately show ?thesis
      using 1 cmp_from_prim [of "Bin op l r"] not_from_cmp [of "Bin op l r"] and_from_not [of "Bin op l r"]
      by (simp add: wrap_def)
  next
    case 2
    then have a: "reads_and (Bin op l r)" using Bin reads_conj by simp
    moreover from this have "reads_or (Bin op l r)" using 2 by (elim or_from_and) (simp add: wrap_def)
    moreover from this have "reads_prim (Bin op l r)" using 2 by (elim prim_from_or) (simp add: wrap_def)
    ultimately show ?thesis
      using 2 cmp_from_prim [of "Bin op l r"] not_from_cmp [of "Bin op l r"] by (simp add: wrap_def)
  next
    case 3
    then have "reads_not (Bin op l r)" using Bin by (intro not_from_cmp reads_compare) (auto simp: wrap_def)
    moreover from this have "reads_and (Bin op l r)" using 3 by (elim and_from_not) (simp add: wrap_def)
    moreover from this have "reads_or (Bin op l r)" using 3 by (elim or_from_and) (simp add: wrap_def)
    moreover from this have "reads_prim (Bin op l r)" using 3 by (elim prim_from_or) (simp add: wrap_def)
    ultimately show ?thesis by simp
  qed
next
  case (Not e)
  then have "reads_not (Not e)" by (intro reads_negation) simp
  moreover from this have "reads_and (Not e)" by (elim and_from_not) (simp add: wrap_def)
  moreover from this have "reads_or (Not e)" by (elim or_from_and) (simp add: wrap_def)
  moreover from this have "reads_prim (Not e)" by (elim prim_from_or) (simp add: wrap_def)
  ultimately show ?case by simp
next
  case (In e es)
  then have "reads_not (In e es)" by (intro not_from_cmp reads_in) (auto simp: wrap_def list_all_iff)
  moreover from this have "reads_and (In e es)" by (elim and_from_not) (simp add: wrap_def)
  moreover from this have "reads_or (In e es)" by (elim or_from_and) (simp add: wrap_def)
  moreover from this have "reads_prim (In e es)" by (elim prim_from_or) (simp add: wrap_def)
  ultimately show ?case by simp
qed

text \<open>C4. The parser has the documented precedences and joins \<^verbatim>\<open>and\<close> and \<^verbatim>\<open>or\<close> to the left: tokens that spell an
  expression with only the parentheses these rules need, at any positions, parse to that expression.\<close>

theorem filter_print_parse:
  assumes "printable e" and "map lexeme ts = pr 0 e"
  shows "parse_tokens ts = Inr e"
proof -
  have "p_or (Suc (length ts)) (ts @ []) = Inr (e, [])"
    using assms reads_all by (intro or_stops) (auto simp: no_cmp_def peek_kind_def peek_ident_def)
  then show ?thesis by (simp add: parse_tokens_def del: p_or.simps)
qed

theorem filter_print_parse_witness:
  "parse_tokens (map (\<lambda>(k, v). Token k v 0)
       [(TIdent, ''not''), (TPath, ''$.a''), (TOp, ''<''), (TNumber, ''12''), (TIdent, ''and''), (TLparen, ''(''),
        (TPath, ''$.b''), (TIdent, ''or''), (TIdent, ''true''), (TRparen, '')'')])
     = Inr (Bin BAnd (Not (Bin BLt (Path ''$.a'') (Lit (JNum 12)))) (Bin BOr (Path ''$.b'') (Lit (JBool True))))"
  by (rule filter_print_parse) code_simp+

section \<open>Unresolved paths\<close>

text \<open>A comparison in which a side is unresolved: \<^verbatim>\<open>!=\<close> holds (unless the other side is unresolved too) and every other
  comparison is false. In particular \<^verbatim>\<open>== null\<close> is false on an unresolved path, and only the comparison with a second
  unresolved path makes \<^verbatim>\<open>==\<close> true.\<close>

lemma unresolved_comparison:
  assumes "evaluate proto l ctx = Inr JUndef" "evaluate proto r ctx = Inr v" "op \<noteq> BAnd" "op \<noteq> BOr"
  shows "evaluate proto (Bin op l r) ctx =
    Inr (JBool (if op = BEq then v = JUndef else if op = BNe then v \<noteq> JUndef else False))"
  using assms by (cases op; cases v) (simp_all add: eval_cmp_def loose_equals_def cmp_test_def cmp_values_def)

end
