(* ===== verification/CircuitBreaker.thy ===== *)
theory CircuitBreaker imports Prelude begin

text \<open>
  The three-state circuit breaker of \<^verbatim>\<open>core/src/events/circuit-breaker.ts\<close>. The class instance is the
  record \<open>breaker\<close>; every method is a function of the clock value it reads, the argument and the record.
  All reads of the clock inside one synchronous method give the same value. Listener calls are recorded, in
  order, in \<open>delivered\<close>: a listener cannot change the breaker, since its errors are swallowed and its
  result is ignored (a listener that calls back into the breaker is not modelled).

  Shown: the data invariant \<open>breaker_ok\<close> over any run of operations; an open breaker refuses until the
  cool-down has passed and then probes; exactly \<open>failure_threshold\<close> consecutive failures open a closed
  breaker; and a tripped half-open breaker keeps its count of successes.
\<close>

datatype cb_state = Closed | Open | HalfOpen

datatype cb_event = Transition (tr_from: cb_state) (tr_to: cb_state) (tr_at: int)

record breaker =
  failure_threshold :: int
  success_threshold :: int
  reset_timeout_ms :: int
  br_state :: cb_state
  consecutive_failures :: int
  consecutive_successes :: int
  opened_at :: "int option"
  listeners :: "nat list"
  delivered :: "(nat \<times> cb_event) list"

section \<open>Operations\<close>

definition opt_or :: "'a option \<Rightarrow> 'a \<Rightarrow> 'a" where
  "opt_or x d = (case x of None \<Rightarrow> d | Some v \<Rightarrow> v)"

definition create_breaker :: "int option \<Rightarrow> int option \<Rightarrow> int option \<Rightarrow> breaker" where
  "create_breaker ft st rt =
     \<lparr>failure_threshold = max 1 (opt_or ft 5),
      success_threshold = max 1 (opt_or st 1),
      reset_timeout_ms = max 0 (opt_or rt 30000),
      br_state = Closed, consecutive_failures = 0, consecutive_successes = 0,
      opened_at = None, listeners = [], delivered = []\<rparr>"

definition transition_to :: "int \<Rightarrow> cb_state \<Rightarrow> breaker \<Rightarrow> breaker" where
  "transition_to now to b =
     (if br_state b = to then b
      else let from = br_state b;
               b1 = b\<lparr>br_state := to, opened_at := (if to = Open then Some now else None)\<rparr>;
               b2 = (if to = Closed then b1\<lparr>consecutive_failures := 0, consecutive_successes := 0\<rparr> else b1)
           in b2\<lparr>delivered := delivered b2 @ map (\<lambda>l. (l, Transition from to now)) (listeners b2)\<rparr>)"

text \<open>The getter \<^verbatim>\<open>state\<close>: it may move an open breaker whose cool-down is over to half-open.\<close>

definition cb_state_of :: "int \<Rightarrow> breaker \<Rightarrow> cb_state \<times> breaker" where
  "cb_state_of now b =
     (let b' = (case opened_at b of
                  Some t \<Rightarrow> if br_state b = Open \<and> now - t \<ge> reset_timeout_ms b
                            then transition_to now HalfOpen b else b
                | None \<Rightarrow> b)
      in (br_state b', b'))"

definition cb_allow :: "int \<Rightarrow> breaker \<Rightarrow> bool \<times> breaker" where
  "cb_allow now b = (let (s, b') = cb_state_of now b in (s = Closed \<or> s = HalfOpen, b'))"

definition cb_reset :: "int \<Rightarrow> breaker \<Rightarrow> breaker" where
  "cb_reset now b =
     (let b1 = b\<lparr>consecutive_failures := 0, consecutive_successes := 0, opened_at := None\<rparr>
      in if br_state b1 \<noteq> Closed then transition_to now Closed b1 else b1)"

definition cb_trip :: "int \<Rightarrow> breaker \<Rightarrow> breaker" where
  "cb_trip now b = (if br_state b \<noteq> Open then transition_to now Open b else b)"

definition on_success :: "int \<Rightarrow> breaker \<Rightarrow> breaker" where
  "on_success now b =
     (let (s, b1) = cb_state_of now b
      in if s = HalfOpen
         then let b2 = b1\<lparr>consecutive_successes := consecutive_successes b1 + 1, consecutive_failures := 0\<rparr>
              in if consecutive_successes b2 \<ge> success_threshold b2 then cb_reset now b2 else b2
         else b1\<lparr>consecutive_failures := 0, consecutive_successes := 0\<rparr>)"

definition on_failure :: "int \<Rightarrow> breaker \<Rightarrow> breaker" where
  "on_failure now b =
     (let (s, b1) = cb_state_of now b
      in if s = HalfOpen
         then transition_to now Open
                (b1\<lparr>consecutive_successes := 0, consecutive_failures := consecutive_failures b1 + 1\<rparr>)
         else if s = Open then b1
         else let b2 = b1\<lparr>consecutive_failures := consecutive_failures b1 + 1, consecutive_successes := 0\<rparr>
              in if consecutive_failures b2 \<ge> failure_threshold b2 then transition_to now Open b2 else b2)"

definition cb_record :: "int \<Rightarrow> bool \<Rightarrow> breaker \<Rightarrow> breaker" where
  "cb_record now success b = (if success then on_success now b else on_failure now b)"

datatype 'e run_error = Circuit_rejected cb_state | Fn_error 'e

text \<open>\<^verbatim>\<open>run(fn)\<close>: the gate is read at \<open>t0\<close>; the awaited call settles with \<open>res\<close> at \<open>t1\<close>.\<close>

definition cb_run :: "int \<Rightarrow> int \<Rightarrow> ('e + 'a) \<Rightarrow> breaker \<Rightarrow> ('e run_error + 'a) \<times> breaker" where
  "cb_run t0 t1 res b =
     (let (ok, b1) = cb_allow t0 b
      in if \<not> ok then (Inl (Circuit_rejected (br_state b1)), b1)
         else case res of
                Inr x \<Rightarrow> (Inr x, cb_record t1 True b1)
              | Inl e \<Rightarrow> (Inl (Fn_error e), cb_record t1 False b1))"

text \<open>Listeners form a JavaScript \<^verbatim>\<open>Set\<close>: adding one twice keeps it once.\<close>

definition on_transition :: "nat \<Rightarrow> breaker \<Rightarrow> breaker" where
  "on_transition l b = (if l \<in> set (listeners b) then b else b\<lparr>listeners := listeners b @ [l]\<rparr>)"

definition off_transition :: "nat \<Rightarrow> breaker \<Rightarrow> breaker" where
  "off_transition l b = b\<lparr>listeners := filter (\<lambda>x. x \<noteq> l) (listeners b)\<rparr>"

section \<open>Runs\<close>

datatype cb_op = OAllow int | ORecord int bool | OTrip int | OReset int | OSub nat | OUnsub nat

fun cb_step :: "breaker \<Rightarrow> cb_op \<Rightarrow> breaker" where
  "cb_step b (OAllow t) = snd (cb_allow t b)"
| "cb_step b (ORecord t s) = cb_record t s b"
| "cb_step b (OTrip t) = cb_trip t b"
| "cb_step b (OReset t) = cb_reset t b"
| "cb_step b (OSub l) = on_transition l b"
| "cb_step b (OUnsub l) = off_transition l b"

section \<open>Invariant\<close>

definition breaker_ok :: "breaker \<Rightarrow> bool" where
  "breaker_ok b \<longleftrightarrow>
     1 \<le> failure_threshold b \<and> 1 \<le> success_threshold b \<and> 0 \<le> reset_timeout_ms b \<and>
     0 \<le> consecutive_failures b \<and> 0 \<le> consecutive_successes b \<and>
     (br_state b = Open \<longleftrightarrow> opened_at b \<noteq> None) \<and>
     (br_state b = Closed \<longrightarrow> consecutive_failures b < failure_threshold b \<and> consecutive_successes b = 0) \<and>
     consecutive_successes b < success_threshold b \<and>
     distinct (listeners b)"

lemma breaker_ok_create: "breaker_ok (create_breaker ft st rt)"
  by (auto simp: breaker_ok_def create_breaker_def)

lemma transition_to_fields [simp]:
  "failure_threshold (transition_to now to b) = failure_threshold b"
  "success_threshold (transition_to now to b) = success_threshold b"
  "reset_timeout_ms (transition_to now to b) = reset_timeout_ms b"
  "listeners (transition_to now to b) = listeners b"
  "br_state (transition_to now to b) = to"
  by (simp_all add: transition_to_def Let_def)

lemma transition_to_counts:
  "consecutive_failures (transition_to now to b) =
     (if br_state b \<noteq> to \<and> to = Closed then 0 else consecutive_failures b)"
  "consecutive_successes (transition_to now to b) =
     (if br_state b \<noteq> to \<and> to = Closed then 0 else consecutive_successes b)"
  "opened_at (transition_to now to b) =
     (if br_state b = to then opened_at b else if to = Open then Some now else None)"
  by (simp_all add: transition_to_def Let_def)

lemmas transition_simps = transition_to_fields transition_to_counts

lemma cb_state_of_ok [inv_intros]: "breaker_ok b \<Longrightarrow> breaker_ok (snd (cb_state_of now b))"
  by (cases "opened_at b") (auto simp: cb_state_of_def breaker_ok_def transition_simps)

lemma cb_state_of_state: "fst (cb_state_of now b) = br_state (snd (cb_state_of now b))"
  by (simp add: cb_state_of_def Let_def)

lemma cb_reset_ok [inv_intros]:
  "breaker_ok (b\<lparr>consecutive_failures := 0, consecutive_successes := 0\<rparr>) \<Longrightarrow> breaker_ok (cb_reset now b)"
  by (auto simp: breaker_ok_def cb_reset_def Let_def transition_simps)

lemma breaker_ok_zero:
  "breaker_ok b \<Longrightarrow> breaker_ok (b\<lparr>consecutive_failures := 0, consecutive_successes := 0\<rparr>)"
  by (auto simp: breaker_ok_def)

lemma on_success_ok [inv_intros]:
  assumes "breaker_ok b"
  shows "breaker_ok (on_success now b)"
proof -
  obtain s b1 where sb: "cb_state_of now b = (s, b1)" by (cases "cb_state_of now b")
  with assms have b1: "breaker_ok b1" using cb_state_of_ok [of b now] by simp
  have s: "s = br_state b1" using cb_state_of_state [of now b] by (simp add: sb)
  let ?b2 = "b1\<lparr>consecutive_successes := consecutive_successes b1 + 1, consecutive_failures := 0\<rparr>"
  have "breaker_ok (cb_reset now ?b2)"
    using b1 by (intro cb_reset_ok) (auto simp: breaker_ok_def)
  moreover have "br_state b1 = HalfOpen \<Longrightarrow> \<not> success_threshold ?b2 \<le> consecutive_successes ?b2 \<Longrightarrow> breaker_ok ?b2"
    using b1 by (auto simp: breaker_ok_def)
  ultimately show ?thesis
    using breaker_ok_zero [OF b1] by (simp add: on_success_def sb s Let_def)
qed

lemma on_failure_ok [inv_intros]:
  assumes "breaker_ok b"
  shows "breaker_ok (on_failure now b)"
proof -
  obtain s b1 where sb: "cb_state_of now b = (s, b1)" by (cases "cb_state_of now b")
  with assms have b1: "breaker_ok b1" using cb_state_of_ok [of b now] by simp
  have s: "s = br_state b1" using cb_state_of_state [of now b] by (simp add: sb)
  show ?thesis
    using b1 by (cases "br_state b1")
      (auto simp: on_failure_def sb s Let_def breaker_ok_def transition_simps)
qed

lemma cb_trip_ok [inv_intros]: "breaker_ok b \<Longrightarrow> breaker_ok (cb_trip now b)"
  by (auto simp: cb_trip_def breaker_ok_def transition_simps)

lemma cb_step_ok [inv_intros]: "breaker_ok b \<Longrightarrow> breaker_ok (cb_step b op)"
proof (cases op)
  case (OAllow t)
  assume "breaker_ok b"
  with OAllow show ?thesis
    using cb_state_of_ok [of b t] by (cases "cb_state_of t b") (simp add: cb_allow_def)
qed (auto simp: cb_record_def on_transition_def off_transition_def intro: inv_intros breaker_ok_zero,
     auto simp: breaker_ok_def)

interpretation cb: step_invariant cb_step breaker_ok
  by unfold_locales (rule cb_step_ok)

section \<open>Behaviour\<close>

lemma open_waits:
  assumes "br_state b = Open" and "opened_at b = Some t" and "now - t < reset_timeout_ms b"
  shows "cb_state_of now b = (Open, b)"
  using assms by (simp add: cb_state_of_def)

lemma open_probes:
  assumes "br_state b = Open" and "opened_at b = Some t" and "now - t \<ge> reset_timeout_ms b"
  shows "cb_state_of now b = (HalfOpen, transition_to now HalfOpen b)"
  using assms by (simp add: cb_state_of_def)

lemma closed_stays: "breaker_ok b \<Longrightarrow> br_state b = Closed \<Longrightarrow> cb_state_of now b = (Closed, b)"
  by (cases "opened_at b") (auto simp: cb_state_of_def breaker_ok_def)

lemma breaker_run_ok': "breaker_ok (run cb_step (create_breaker ft st rt) ops)"
  by (rule cb.run_good) (rule breaker_ok_create)


text \<open>While an open breaker's cool-down lasts, a protected call is rejected without running and the breaker does
  not change; once the cool-down has elapsed the gate lets a probe through in the half-open state.\<close>

lemma open_breaker_gate:
  assumes "br_state b = Open" and "opened_at b = Some t"
  shows "(if now - t < reset_timeout_ms b
          then cb_run now t1 res b = (Inl (Circuit_rejected Open), b)
          else fst (cb_allow now b) \<and> br_state (snd (cb_allow now b)) = HalfOpen)"
  using assms open_waits [OF assms] open_probes [OF assms]
  by (simp add: cb_run_def cb_allow_def)

definition opened_breaker :: breaker where
  "opened_breaker = cb_trip 100 (create_breaker (Some 2) (Some 2) (Some 50))"

lemma failure_step_closed:
  assumes "breaker_ok b" and "br_state b = Closed"
  shows "on_failure now b =
    (let b2 = b\<lparr>consecutive_failures := consecutive_failures b + 1, consecutive_successes := 0\<rparr>
     in if consecutive_failures b + 1 < failure_threshold b then b2 else transition_to now Open b2)"
  using closed_stays [OF assms] by (simp add: on_failure_def Let_def)

lemma failure_step_not_closed:
  assumes "breaker_ok b" and "br_state b \<noteq> Closed"
  shows "br_state (on_failure now b) = Open"
proof -
  obtain s b1 where sb: "cb_state_of now b = (s, b1)" by (cases "cb_state_of now b")
  have s: "s = br_state b1" using cb_state_of_state [of now b] by (simp add: sb)
  have "br_state b1 \<noteq> Closed"
    using assms(2) sb by (auto simp: cb_state_of_def Let_def split: option.splits if_splits)
  then show ?thesis by (cases "br_state b1") (simp_all add: on_failure_def sb s Let_def)
qed

abbreviation failures :: "int list \<Rightarrow> cb_op list" where
  "failures ts \<equiv> map (\<lambda>t. ORecord t False) ts"

lemma failures_keep_open:
  "breaker_ok b \<Longrightarrow> br_state b = Open \<Longrightarrow> br_state (run cb_step b (failures ts)) = Open"
proof (induction ts arbitrary: b)
  case (Cons t ts)
  have "breaker_ok (cb_step b (ORecord t False))" using Cons.prems(1) by (rule cb_step_ok)
  moreover have "br_state (cb_step b (ORecord t False)) = Open"
    using failure_step_not_closed [OF Cons.prems(1)] Cons.prems(2) by (simp add: cb_record_def)
  ultimately show ?case using Cons.IH by simp
qed simp

lemma failures_from_closed:
  "breaker_ok b \<Longrightarrow> br_state b = Closed \<Longrightarrow>
   br_state (run cb_step b (failures ts)) =
     (if consecutive_failures b + int (length ts) < failure_threshold b then Closed else Open)"
proof (induction ts arbitrary: b)
  case Nil
  then show ?case by (simp add: breaker_ok_def)
next
  case (Cons t ts)
  let ?b = "cb_step b (ORecord t False)"
  have ok: "breaker_ok ?b" using Cons.prems(1) by (rule cb_step_ok)
  show ?case
  proof (cases "consecutive_failures b + 1 < failure_threshold b")
    case True
    then have "br_state ?b = Closed" "consecutive_failures ?b = consecutive_failures b + 1"
        "failure_threshold ?b = failure_threshold b"
      using failure_step_closed [OF Cons.prems] Cons.prems(2) by (simp_all add: cb_record_def Let_def)
    with Cons.IH [OF ok] show ?thesis by (simp add: algebra_simps)
  next
    case False
    then have "br_state ?b = Open"
      using failure_step_closed [OF Cons.prems] by (simp add: cb_record_def Let_def)
    with failures_keep_open [OF ok] False show ?thesis by simp
  qed
qed

text \<open>A new breaker stays closed through fewer than \<open>failureThreshold\<close> (at least 1) failures in a row, is
  open from that failure on, and further failures keep it open, whatever the times of the calls: a failing probe reopens
  it.\<close>

lemma consecutive_failures_open:
  "br_state (run cb_step (create_breaker ft st rt) (failures ts)) =
     (if int (length ts) < max 1 (opt_or ft 5) then Closed else Open)"
  using failures_from_closed [OF breaker_ok_create, of ft st rt ts]
  by (simp add: create_breaker_def)

text \<open>An operator trip during a half-open trial does not clear the count of successes of that trial. After the
  new cool-down a single success closes the breaker when the aborted trial had reached one less than the threshold,
  although the threshold asks for that many consecutive successes.\<close>

lemma trip_keeps_successes:
  assumes "breaker_ok b" and "br_state b = HalfOpen"
    and "consecutive_successes b + 1 = success_threshold b"
    and "t1 - t0 \<ge> reset_timeout_ms b"
  shows "br_state (cb_record t1 True (cb_trip t0 b)) = Closed"
  using assms
  by (simp add: cb_trip_def cb_record_def on_success_def open_probes [where t = t0] transition_simps
      cb_reset_def Let_def)

definition trial_breaker :: breaker where
  "trial_breaker = run cb_step (create_breaker (Some 2) (Some 2) (Some 50))
     [ORecord 0 False, ORecord 1 False, OAllow 60, ORecord 61 True]"

end
