(* ===== verification/TokenBucket.thy ===== *)
theory TokenBucket imports Prelude begin

text \<open>
  The two token buckets of the program: \<^verbatim>\<open>TokenBucket\<close> of \<^verbatim>\<open>core/src/events/rate-limiter.ts\<close> (also used by the
  outbound limiter of the channels) and \<^verbatim>\<open>ProviderTokenBucket\<close> of \<^verbatim>\<open>core/src/providers/rate-limit.ts\<close>. Token counts
  are exact rationals where the code has doubles; the clock is milliseconds.

  The locale \<open>admission\<close> is the contract of a rate-limited gate (a level that a grant lowers by one and that
  grows with the clock at a fixed rate); its lemma bounds the number of grants over any sequence of calls. Both
  buckets are interpretations.
\<close>

section \<open>The contract of a rate-limited gate\<close>

fun grants :: "('i \<Rightarrow> 'b \<Rightarrow> bool \<times> 'b) \<Rightarrow> 'b \<Rightarrow> 'i list \<Rightarrow> nat" where
  "grants tk b [] = 0"
| "grants tk b (i # is) = (if fst (tk i b) then 1 else 0) + grants tk (snd (tk i b)) is"

locale admission =
  fixes take :: "'i \<Rightarrow> 'b \<Rightarrow> bool \<times> 'b"
    and time :: "'i \<Rightarrow> int"
    and level :: "'b \<Rightarrow> rat"
    and cap :: "'b \<Rightarrow> rat"
    and rate :: "'b \<Rightarrow> rat"
    and stamp :: "'b \<Rightarrow> int"
    and slack :: rat
    and ok :: "'b \<Rightarrow> bool"
  assumes ok_take: "ok b \<Longrightarrow> ok (snd (take i b))"
    and rate_take: "ok b \<Longrightarrow> rate (snd (take i b)) = rate b"
    and cap_take: "ok b \<Longrightarrow> cap (snd (take i b)) = cap b"
    and stamp_take: "ok b \<Longrightarrow> stamp b \<le> stamp (snd (take i b)) \<and> stamp (snd (take i b)) \<le> max (stamp b) (time i)"
    and level_take: "ok b \<Longrightarrow> level (snd (take i b)) + (if fst (take i b) then 1 else 0)
        \<le> level b + rate b * of_int (stamp (snd (take i b)) - stamp b) / 1000"
    and level_ok: "ok b \<Longrightarrow> - slack \<le> level b \<and> level b \<le> cap b"
    and rate_ok: "ok b \<Longrightarrow> 0 < rate b"
begin

lemma grants_potential:
  "ok b \<Longrightarrow> \<forall>i \<in> set is. time i \<le> T \<Longrightarrow> stamp b \<le> T \<Longrightarrow>
   of_nat (grants take b is) \<le> level b + slack + rate b * of_int (T - stamp b) / 1000"
proof (induction "is" arbitrary: b)
  case Nil
  have "0 \<le> rate b * of_int (T - stamp b) / 1000"
    using rate_ok [OF Nil.prems(1)] Nil.prems(3) by simp
  moreover have "0 \<le> level b + slack" using level_ok [OF Nil.prems(1)] by linarith
  ultimately show ?case by simp
next
  case (Cons i "is")
  let ?b = "snd (take i b)"
  have ok': "ok ?b" using Cons.prems(1) by (rule ok_take)
  have st: "stamp b \<le> stamp ?b" "stamp ?b \<le> T"
    using stamp_take [OF Cons.prems(1), of i] Cons.prems(2,3) by auto
  have "of_nat (grants take ?b is) \<le> level ?b + slack + rate b * of_int (T - stamp ?b) / 1000"
    using Cons.IH [OF ok'] Cons.prems(2) st(2) rate_take [OF Cons.prems(1)] by simp
  moreover have "level ?b + (if fst (take i b) then 1 else 0)
      \<le> level b + rate b * of_int (stamp ?b - stamp b) / 1000"
    using Cons.prems(1) by (rule level_take)
  moreover have "rate b * of_int (stamp ?b - stamp b) / 1000 + rate b * of_int (T - stamp ?b) / 1000
      = rate b * of_int (T - stamp b) / 1000"
    by (simp add: field_simps)
  moreover have "(of_nat (grants take b (i # is)) :: rat)
      = (if fst (take i b) then 1 else 0) + of_nat (grants take ?b is)"
    by simp
  ultimately show ?case by linarith
qed

text \<open>Within \<open>D\<close> milliseconds of the bucket's stamp at most \<open>cap + rate * D / 1000\<close> grants, up to the slack.\<close>

lemma grants_bound:
  assumes "ok b" and "\<forall>i \<in> set is. time i \<le> stamp b + D" and "0 \<le> D"
  shows "of_nat (grants take b is) \<le> cap b + slack + rate b * of_int D / 1000"
proof -
  have "of_nat (grants take b is) \<le> level b + slack + rate b * of_int (stamp b + D - stamp b) / 1000"
    using assms by (intro grants_potential) simp_all
  with level_ok [OF assms(1)] show ?thesis by simp
qed

end

section \<open>TokenBucket\<close>

record token_bucket =
  rate_per_sec :: rat
  burst :: rat
  tokens :: rat
  last_refill_at :: int

datatype bucket_error = Rate_not_positive rat | Burst_below_one rat

definition create_bucket :: "int \<Rightarrow> rat \<Rightarrow> rat option \<Rightarrow> bucket_error + token_bucket" where
  "create_bucket now r bu =
     (if \<not> r > 0 then Inl (Rate_not_positive r)
      else let b = (case bu of None \<Rightarrow> r | Some x \<Rightarrow> x)
           in if b < 1 then Inl (Burst_below_one b)
              else Inr \<lparr>rate_per_sec = r, burst = b, tokens = b, last_refill_at = now\<rparr>)"

definition refill :: "int \<Rightarrow> token_bucket \<Rightarrow> token_bucket" where
  "refill now b =
     (let elapsed = now - last_refill_at b
      in if elapsed \<le> 0 then b
         else b\<lparr>tokens := min (burst b) (tokens b + (of_int elapsed / 1000) * rate_per_sec b),
                last_refill_at := now\<rparr>)"

definition available :: "int \<Rightarrow> token_bucket \<Rightarrow> rat \<times> token_bucket" where
  "available now b = (let b' = refill now b in (tokens b', b'))"

definition try_take :: "int \<Rightarrow> rat \<Rightarrow> token_bucket \<Rightarrow> bool \<times> token_bucket" where
  "try_take now cost b =
     (let b' = refill now b
      in if tokens b' + 1 / 1000000000 < cost then (False, b')
         else (True, b'\<lparr>tokens := tokens b' - cost\<rparr>))"

definition bucket_ok :: "token_bucket \<Rightarrow> bool" where
  "bucket_ok b \<longleftrightarrow> 0 < rate_per_sec b \<and> 1 \<le> burst b \<and>
     - (1 / 1000000000) \<le> tokens b \<and> tokens b \<le> burst b"

lemma create_bucket_ok: "create_bucket now r bu = Inr b \<Longrightarrow> bucket_ok b \<and> last_refill_at b = now"
  by (auto simp: create_bucket_def bucket_ok_def Let_def split: if_splits)

lemma refill_fields [simp]:
  "rate_per_sec (refill now b) = rate_per_sec b"
  "burst (refill now b) = burst b"
  "last_refill_at (refill now b) = max (last_refill_at b) now"
  by (auto simp: refill_def Let_def)

lemma refill_ok [inv_intros]: "bucket_ok b \<Longrightarrow> bucket_ok (refill now b)"
  by (auto simp: bucket_ok_def refill_def Let_def min_def add_nonneg_pos intro: order_trans)

lemma refill_idem [simp]: "refill now (refill now b) = refill now b"
  by (simp add: refill_def Let_def)

lemma refill_tokens_le:
  "tokens (refill now b)
     \<le> tokens b + rate_per_sec b * of_int (last_refill_at (refill now b) - last_refill_at b) / 1000"
  by (auto simp: refill_def Let_def min_def max_def field_simps)

lemma refill_tokens_ge: "bucket_ok b \<Longrightarrow> tokens b \<le> tokens (refill now b)"
  by (auto simp: bucket_ok_def refill_def Let_def min_def)

lemma try_take_fields [simp]:
  "rate_per_sec (snd (try_take now c b)) = rate_per_sec b"
  "burst (snd (try_take now c b)) = burst b"
  "last_refill_at (snd (try_take now c b)) = max (last_refill_at b) now"
  by (auto simp: try_take_def Let_def)

lemma try_take_ok [inv_intros]: "bucket_ok b \<Longrightarrow> 0 \<le> c \<Longrightarrow> bucket_ok (snd (try_take now c b))"
  using refill_ok [of b now] by (auto simp: try_take_def bucket_ok_def Let_def)

lemma try_take_tokens:
  "tokens (snd (try_take now c b)) = tokens (refill now b) - (if fst (try_take now c b) then c else 0)"
  by (simp add: try_take_def Let_def)

text \<open>A refused take leaves the bucket as a mere look at it would.\<close>

lemma try_take_refused: "\<not> fst (try_take now c b) \<Longrightarrow> snd (try_take now c b) = snd (available now b)"
  by (auto simp: try_take_def available_def Let_def split: if_splits)

interpretation ev: admission "\<lambda>t. try_take t 1" "\<lambda>t. t" tokens burst rate_per_sec last_refill_at
    "1 / 1000000000" bucket_ok
proof (unfold_locales, goal_cases)
  case (1 b t) then show ?case by (simp add: try_take_ok)
next
  case (5 b t)
  then show ?case using refill_tokens_le [of t b] by (simp add: try_take_tokens)
qed (auto simp: bucket_ok_def)

section \<open>ProviderTokenBucket\<close>

record provider_bucket =
  p_rate :: rat
  p_burst :: rat
  p_tokens :: rat
  p_last_refill :: int

definition create_provider_bucket :: "int \<Rightarrow> rat \<Rightarrow> rat option \<Rightarrow> bucket_error + provider_bucket" where
  "create_provider_bucket now r bu =
     (if \<not> r > 0 then Inl (Rate_not_positive r)
      else let b = max 1 (case bu of None \<Rightarrow> r | Some x \<Rightarrow> x)
           in Inr \<lparr>p_rate = r, p_burst = b, p_tokens = b, p_last_refill = now\<rparr>)"

definition p_refill :: "int \<Rightarrow> provider_bucket \<Rightarrow> provider_bucket" where
  "p_refill now b =
     (let elapsed = max 0 (now - p_last_refill b)
      in if elapsed = 0 then b
         else b\<lparr>p_tokens := min (p_burst b) (p_tokens b + (of_int elapsed / 1000) * p_rate b),
                p_last_refill := now\<rparr>)"

definition p_try_take :: "int \<Rightarrow> provider_bucket \<Rightarrow> bool \<times> provider_bucket" where
  "p_try_take now b =
     (let b' = p_refill now b
      in if p_tokens b' \<ge> 1 then (True, b'\<lparr>p_tokens := p_tokens b' - 1\<rparr>) else (False, b'))"

definition p_available :: "int \<Rightarrow> provider_bucket \<Rightarrow> rat \<times> provider_bucket" where
  "p_available now b = (let b' = p_refill now b in (p_tokens b', b'))"

text \<open>
  \<^verbatim>\<open>take()\<close> awaits a sleep in the middle, so it is two steps: up to the await (either done, with
  \<open>None\<close>, or the time to sleep) and after it. Other calls may run between the two.
\<close>

definition take_begin :: "int \<Rightarrow> provider_bucket \<Rightarrow> int option \<times> provider_bucket" where
  "take_begin now b =
     (let b' = p_refill now b
      in if p_tokens b' \<ge> 1 then (None, b'\<lparr>p_tokens := p_tokens b' - 1\<rparr>)
         else (Some \<lceil>((1 - p_tokens b') / p_rate b') * 1000\<rceil>, b'))"

definition take_end :: "int \<Rightarrow> provider_bucket \<Rightarrow> provider_bucket" where
  "take_end now b = (let b' = p_refill now b in b'\<lparr>p_tokens := max 0 (p_tokens b' - 1)\<rparr>)"

definition provider_ok :: "provider_bucket \<Rightarrow> bool" where
  "provider_ok b \<longleftrightarrow> 0 < p_rate b \<and> 1 \<le> p_burst b \<and> 0 \<le> p_tokens b \<and> p_tokens b \<le> p_burst b"

lemma create_provider_ok:
  "create_provider_bucket now r bu = Inr b \<Longrightarrow> provider_ok b \<and> p_last_refill b = now"
  by (auto simp: create_provider_bucket_def provider_ok_def Let_def split: if_splits)

lemma p_refill_fields [simp]:
  "p_rate (p_refill now b) = p_rate b"
  "p_burst (p_refill now b) = p_burst b"
  "p_last_refill (p_refill now b) = max (p_last_refill b) now"
  by (auto simp: p_refill_def Let_def)

lemma p_refill_ok [inv_intros]: "provider_ok b \<Longrightarrow> provider_ok (p_refill now b)"
  by (auto simp: provider_ok_def p_refill_def Let_def min_def)

lemma p_refill_tokens_le:
  "p_tokens (p_refill now b)
     \<le> p_tokens b + p_rate b * of_int (p_last_refill (p_refill now b) - p_last_refill b) / 1000"
  by (auto simp: p_refill_def Let_def min_def max_def field_simps)

lemma p_try_take_ok [inv_intros]: "provider_ok b \<Longrightarrow> provider_ok (snd (p_try_take now b))"
  using p_refill_ok [of b now] by (auto simp: p_try_take_def provider_ok_def Let_def)

lemma take_end_ok [inv_intros]: "provider_ok b \<Longrightarrow> provider_ok (take_end now b)"
  using p_refill_ok [of b now] by (auto simp: take_end_def provider_ok_def Let_def)

interpretation prov: admission p_try_take "\<lambda>t. t" p_tokens p_burst p_rate p_last_refill 0 provider_ok
proof (unfold_locales, goal_cases)
  case (1 b t) then show ?case by (rule p_try_take_ok)
next
  case (5 b t)
  then show ?case using p_refill_tokens_le [of t b] by (simp add: p_try_take_def Let_def)
qed (simp_all add: p_try_take_def Let_def provider_ok_def)

section \<open>Behaviour\<close>

text \<open>C2. From the creation of a bucket, whatever the order and the clock values of the calls, at most
  \<open>burst + rate * D / 1000\<close> calls of \<open>tryTake()\<close> with clock values up to \<open>D\<close> ms after creation succeed (up
  to the code's tolerance of one billionth of a token).\<close>

theorem token_bucket_admission_bound:
  assumes "create_bucket now r bu = Inr b" and "\<forall>t \<in> set ts. t \<le> now + D" and "0 \<le> D"
  shows "of_nat (grants (\<lambda>t. try_take t 1) b ts)
    \<le> (case bu of None \<Rightarrow> r | Some x \<Rightarrow> x) + 1 / 1000000000 + r * of_int D / 1000"
proof -
  have "bucket_ok b" "last_refill_at b = now" using create_bucket_ok [OF assms(1)] by simp_all
  moreover have "burst b = (case bu of None \<Rightarrow> r | Some x \<Rightarrow> x)" "rate_per_sec b = r"
    using assms(1) by (auto simp: create_bucket_def Let_def split: if_splits)
  ultimately show ?thesis using ev.grants_bound [of b ts D] assms(2,3) by simp
qed

theorem token_bucket_admission_bound_witness:
  "create_bucket 0 2 (Some 3) = Inr \<lparr>rate_per_sec = 2, burst = 3, tokens = 3, last_refill_at = 0\<rparr> \<and>
   of_nat (grants (\<lambda>t. try_take t 1) \<lparr>rate_per_sec = 2, burst = 3, tokens = 3, last_refill_at = 0\<rparr> [0, 1, 2, 3, 4, 500])
     \<le> (3::rat) + 1 / 1000000000 + 2 * of_int 1000 / 1000"
proof -
  have c: "create_bucket 0 2 (Some 3) = Inr \<lparr>rate_per_sec = 2, burst = 3, tokens = 3, last_refill_at = 0\<rparr>"
    by (simp add: create_bucket_def)
  show ?thesis using token_bucket_admission_bound [OF c, of "[0, 1, 2, 3, 4, 500]" 1000] c by simp
qed

lemma wait_is_enough:
  assumes "provider_ok b" and "take_begin t0 b = (Some w, b1)" and "t1 \<ge> max (p_last_refill b) t0 + w"
  shows "1 \<le> p_tokens (p_refill t1 b1)"
proof -
  let ?r = "p_refill t0 b"
  have r: "provider_ok ?r" using assms(1) by (rule p_refill_ok)
  from assms(2) have b1: "b1 = ?r" and less: "p_tokens ?r < 1"
    and w: "w = \<lceil>((1 - p_tokens ?r) / p_rate ?r) * 1000\<rceil>"
    by (auto simp: take_begin_def Let_def split: if_splits)
  have pos: "0 < p_rate ?r" using r by (simp add: provider_ok_def)
  have le: "((1 - p_tokens ?r) / p_rate ?r) * 1000 \<le> of_int w" unfolding w by (rule le_of_int_ceiling)
  have "0 < ((1 - p_tokens ?r) / p_rate ?r) * 1000" using pos less by simp
  then have "0 < (of_int w :: rat)" using le by (rule order.strict_trans2)
  then have wpos: "0 < w" by simp
  let ?e = "t1 - p_last_refill ?r"
  have e: "w \<le> ?e" using assms(3) by simp
  then have "(of_int w :: rat) \<le> of_int ?e" by (rule of_int_le_iff [THEN iffD2])
  with le have "((1 - p_tokens ?r) / p_rate ?r) * 1000 \<le> of_int ?e" by (rule order_trans)
  then have "1 - p_tokens ?r \<le> (of_int ?e / 1000) * p_rate ?r"
    using pos by (simp add: field_simps)
  moreover have "1 \<le> p_burst ?r" using r by (simp add: provider_ok_def)
  moreover have "max 0 ?e = ?e" "?e \<noteq> 0" using e wpos by simp_all
  ultimately show ?thesis
    by (simp only: b1 p_refill_def [of t1] Let_def if_False provider_bucket.simps min_less_iff_conj
        provider_bucket.update_convs min.bounded_iff) simp
qed

text \<open>A call of \<open>take()\<close> that has to wait and is alone on the bucket finds a whole token when it wakes up at
  or after the time it was told: the clamp at zero never hides a missing token.\<close>

lemma lone_take_finds_token:
  assumes "provider_ok b" and "p_last_refill b \<le> t0" and "take_begin t0 b = (Some w, b1)" and "t0 + w \<le> t1"
  shows "p_tokens (take_end t1 b1) = p_tokens (p_refill t1 b1) - 1 \<and> provider_ok (take_end t1 b1)"
proof -
  have "1 \<le> p_tokens (p_refill t1 b1)" using assms by (intro wait_is_enough [of b t0 w b1]) simp_all
  moreover have "provider_ok b1"
    using assms(1,3) p_refill_ok [of b t0] by (auto simp: take_begin_def Let_def split: if_splits)
  ultimately show ?thesis using take_end_ok [of b1 t1] by (simp add: take_end_def Let_def)
qed

definition drained_bucket :: provider_bucket where
  "drained_bucket = \<lparr>p_rate = 10, p_burst = 10, p_tokens = 0, p_last_refill = 0\<rparr>"

text \<open>\<open>k\<close> calls of \<open>take()\<close> that start together at \<open>t0\<close>: their admission times, and the bucket when the
  sleepers have woken up.\<close>

fun begin_all :: "nat \<Rightarrow> int \<Rightarrow> provider_bucket \<Rightarrow> int option list \<times> provider_bucket" where
  "begin_all 0 t b = ([], b)"
| "begin_all (Suc k) t b =
     (let (w, b1) = take_begin t b; (ws, b2) = begin_all k t b1 in (w # ws, b2))"

fun wake_all :: "int \<Rightarrow> int option list \<Rightarrow> provider_bucket \<Rightarrow> int list \<times> provider_bucket" where
  "wake_all t0 [] b = ([], b)"
| "wake_all t0 (None # ws) b = (let (ts, b1) = wake_all t0 ws b in (t0 # ts, b1))"
| "wake_all t0 (Some w # ws) b = (let (ts, b1) = wake_all t0 ws (take_end (t0 + w) b) in ((t0 + w) # ts, b1))"

lemma begin_all_empty:
  assumes "provider_ok b" and "p_tokens b = 0" and "p_last_refill b = t0"
  shows "begin_all k t0 b = (replicate k (Some \<lceil>1000 / p_rate b\<rceil>), b)"
proof -
  have "take_begin t0 b = (Some \<lceil>1000 / p_rate b\<rceil>, b)"
    using assms by (simp add: take_begin_def p_refill_def)
  then show ?thesis by (induction k) simp_all
qed

lemma wake_all_times: "fst (wake_all t0 (replicate k (Some w)) b) = replicate k (t0 + w)"
  by (induction k arbitrary: b) (simp_all add: case_prod_beta Let_def)

lemma wake_all_ok: "provider_ok b \<Longrightarrow> provider_ok (snd (wake_all t0 ws b))"
  by (induction t0 ws b rule: wake_all.induct) (simp_all add: case_prod_beta Let_def take_end_ok)

text \<open>Calls of \<open>take()\<close> that start while the bucket is empty do not queue: any number \<open>k\<close> of them computes
  the same delay, the time for one token, and all are admitted at that same instant; the clamp at zero forgets the debt.
  The rate is not enforced on concurrent callers.\<close>

lemma concurrent_takes_all_admitted:
  assumes "provider_ok b" and "p_tokens b = 0" and "p_last_refill b = t0"
  shows "(let (ws, b1) = begin_all k t0 b; (ts, b2) = wake_all t0 ws b1
          in ts = replicate k (t0 + \<lceil>1000 / p_rate b\<rceil>) \<and> 0 \<le> p_tokens b2)"
proof -
  have "provider_ok (snd (wake_all t0 (replicate k (Some \<lceil>1000 / p_rate b\<rceil>)) b))"
    using assms(1) by (rule wake_all_ok)
  then show ?thesis
    using begin_all_empty [OF assms, of k] wake_all_times [of t0 k "\<lceil>1000 / p_rate b\<rceil>" b]
    by (simp add: case_prod_beta Let_def provider_ok_def)
qed

end
