(* ===== verification/EventTypes.thy ===== *)
theory EventTypes imports JsValue begin

text \<open>
  The event vocabulary of \<^verbatim>\<open>core/src/events/types.ts\<close>: event kinds, the source, target and auth
  unions, event metadata, the event record itself and the dispatch outcome. A partial agent specification is
  opaque data here (\<open>js\<close>).
\<close>

datatype event_kind =
    User_input | Trigger_fire | Webhook_received | File_changed | Mcp_notification
  | Mailbox_message | Self_wakeup | Self_retry
  | Chat_message | Chat_mention | Chat_dm | Chat_voice | Chat_file
  | Channel_interaction | Channel_command | Channel_reaction | Channel_presence
  | Channel_send_request | Channel_send_delivered | Channel_send_failed
  | Assistant_message | Assistant_final | Turn_started

datatype file_change = FAdd | FModify | FDelete

datatype self_reason = Wakeup | Retry | Loop_reason

datatype event_source =
    SUser (session_id: string)
  | SCron (trigger: string) (schedule: string)
  | SWebhook (trigger: string) (remote_addr: "string option")
  | SFileWatch (path: string) (change: file_change)
  | SMcpNotification (server: string) (mcp_method: string)
  | SMailbox (from_agent: string)
  | SSelf (reason: self_reason)
  | SSubAgent (parent_session_id: string) (child_id: string)
  | SEngine (engine_session: string) (turn_id: string)
  | SKafka (trigger: string) (topic: string) (partition: int) (offset: string)
  | SSqs (trigger: string) (queue_url: string) (message_id: string) (message_group: "string option")
  | SMqtt (trigger: string) (topic: string) (qos: nat)
  | SAmqp (trigger: string) (exchange: string) (routing_key: string) (queue: string) (delivery_tag: int)
  | SNats (trigger: string) (stream: string) (subject: string) (stream_seq: int)
  | STelegram (channel_id: string) (chat_id: string) (update_id: int)
  | SDiscord (channel_id: string) (guild_id: "string option") (channel_discord_id: string) (message_id: string)
  | SSlack (channel_id: string) (team_id: string) (channel_slack_id: string) (slack_ts: string)
      (thread_ts: "string option")
  | SWhatsapp (channel_id: string) (phone_number_id: string) (wa_id: string) (message_id: string)

text \<open>The discriminator string \<^verbatim>\<open>source.type\<close>.\<close>

fun source_type :: "event_source \<Rightarrow> string" where
  "source_type (SUser _) = ''user''"
| "source_type (SCron _ _) = ''cron''"
| "source_type (SWebhook _ _) = ''webhook''"
| "source_type (SFileWatch _ _) = ''file-watch''"
| "source_type (SMcpNotification _ _) = ''mcp-notification''"
| "source_type (SMailbox _) = ''mailbox''"
| "source_type (SSelf _) = ''self''"
| "source_type (SSubAgent _ _) = ''sub-agent''"
| "source_type (SEngine _ _) = ''engine''"
| "source_type (SKafka _ _ _ _) = ''kafka''"
| "source_type (SSqs _ _ _ _) = ''sqs''"
| "source_type (SMqtt _ _ _) = ''mqtt''"
| "source_type (SAmqp _ _ _ _ _) = ''amqp''"
| "source_type (SNats _ _ _ _) = ''nats''"
| "source_type (STelegram _ _ _) = ''telegram''"
| "source_type (SDiscord _ _ _ _) = ''discord''"
| "source_type (SSlack _ _ _ _ _) = ''slack''"
| "source_type (SWhatsapp _ _ _ _) = ''whatsapp''"

datatype session_mode = Inject | Replace | Queue_mode

datatype event_target =
    TSession (target_session: string) (mode: session_mode)
  | TNewSession (agent_spec: "js option") (initial_prompt: string)
  | TSkill (skill_name: string) (inputs: "(string \<times> js) list") (session_key: "string option")
  | TSubAgent (target_parent: string) (spec: js)
  | TBroadcast

fun target_type :: "event_target \<Rightarrow> string" where
  "target_type (TSession _ _) = ''session''"
| "target_type (TNewSession _ _) = ''new-session''"
| "target_type (TSkill _ _ _) = ''skill''"
| "target_type (TSubAgent _ _) = ''sub-agent''"
| "target_type TBroadcast = ''broadcast''"

datatype event_auth =
    ALocalUser
  | ATrigger string
  | ABearer string
  | AHmac string
  | AInternal

record event_principal =
  p_channel_id :: "string option"
  platform_user_id :: "string option"
  display_name :: "string option"
  agent_user_id :: "string option"
  scopes :: "string list option"
  verified :: "bool option"
  verified_at :: "int option"

record event_meta =
  correlation_id :: "string option"
  caused_by :: "string option"
  idempotency_key :: "string option"
  priority :: "int option"
  tenant_id :: "string option"
  principal :: "event_principal option"

definition empty_meta :: event_meta where
  "empty_meta = \<lparr>correlation_id = None, caused_by = None, idempotency_key = None, priority = None,
     tenant_id = None, principal = None\<rparr>"

record agent_event =
  ev_id :: string
  ev_source :: event_source
  ev_target :: event_target
  ev_kind :: event_kind
  ev_timestamp :: int
  ev_payload :: js
  ev_auth :: event_auth
  ev_meta :: "event_meta option"

text \<open>\<^verbatim>\<open>event.meta?.x\<close> for an optional field \<open>x\<close>.\<close>

definition meta_get :: "(event_meta \<Rightarrow> 'a option) \<Rightarrow> agent_event \<Rightarrow> 'a option" where
  "meta_get f e = Option.bind (ev_meta e) f"

text \<open>\<^verbatim>\<open>stampTenantId\<close> of \<^verbatim>\<open>tenancy/stamp.ts\<close>.\<close>

definition stamp_tenant_id :: "string option \<Rightarrow> agent_event \<Rightarrow> agent_event" where
  "stamp_tenant_id t e =
     (case t of
        None \<Rightarrow> e
      | Some i \<Rightarrow>
          if meta_get tenant_id e \<noteq> None then e
          else e\<lparr>ev_meta := Some ((case ev_meta e of None \<Rightarrow> empty_meta | Some m \<Rightarrow> m)\<lparr>tenant_id := Some i\<rparr>)\<rparr>)"

abbreviation "ev_correlation \<equiv> meta_get correlation_id"
abbreviation "ev_caused_by \<equiv> meta_get caused_by"
abbreviation "ev_idem_key \<equiv> meta_get idempotency_key"
abbreviation "ev_tenant \<equiv> meta_get tenant_id"

definition ev_subject :: "agent_event \<Rightarrow> string option" where
  "ev_subject e = Option.bind (meta_get principal e) platform_user_id"

text \<open>A string that is present and not empty: the truth test \<^verbatim>\<open>if (s)\<close> on an optional string.\<close>

fun nonempty_opt :: "string option \<Rightarrow> bool" where
  "nonempty_opt None = False"
| "nonempty_opt (Some s) = (s \<noteq> [])"

datatype reject_reason =
  Rate_limit | Unauthorized | No_handler | Loop | Invalid | Circuit_open | Interrupted

datatype queue_reason = Session_busy | Session_not_active

datatype dispatch_outcome =
    Dispatched string "string option"
  | Broadcast
  | Queued queue_reason
  | Duplicate int string
  | Rejected reject_reason "string option"

fun is_rejected :: "dispatch_outcome \<Rightarrow> bool" where
  "is_rejected (Rejected _ _) = True"
| "is_rejected _ = False"

lemma meta_get_simps [simp]:
  "ev_meta e = None \<Longrightarrow> meta_get f e = None"
  "ev_meta e = Some m \<Longrightarrow> meta_get f e = f m"
  by (simp_all add: meta_get_def)

lemma nonempty_opt_iff: "nonempty_opt x \<longleftrightarrow> (\<exists>s. x = Some s \<and> s \<noteq> [])"
  by (cases x) auto

text \<open>
  \<^verbatim>\<open>getTriggerId\<close>: the sources that carry a \<^verbatim>\<open>triggerId\<close> property.
\<close>

fun get_trigger_id :: "event_source \<Rightarrow> string option" where
  "get_trigger_id (SCron t _) = Some t"
| "get_trigger_id (SWebhook t _) = Some t"
| "get_trigger_id (SKafka t _ _ _) = Some t"
| "get_trigger_id (SSqs t _ _ _) = Some t"
| "get_trigger_id (SMqtt t _ _) = Some t"
| "get_trigger_id (SAmqp t _ _ _ _) = Some t"
| "get_trigger_id (SNats t _ _ _) = Some t"
| "get_trigger_id _ = None"

fun origin_session_id :: "event_source \<Rightarrow> string option" where
  "origin_session_id (SUser s) = Some s"
| "origin_session_id (SSubAgent p _) = Some p"
| "origin_session_id _ = None"

end
