(* ===== verification/Caches.thy ===== *)
theory Caches imports Prelude "HOL-Library.Multiset" begin

text \<open>
  The three expiring key-value caches of the engine, each over the insertion-ordered dictionary.

  \<^item> \<open>idem_cache\<close>: the class \<^verbatim>\<open>IdempotencyCache\<close> at the end of \<^verbatim>\<open>core/src/events/dispatcher.ts\<close> (LRU bound and TTL).
  \<^item> \<open>send_cache\<close>: \<^verbatim>\<open>core/src/channels/send-idempotency.ts\<close> (LRU bound and TTL, lazy pruning).
  \<^item> \<open>ttl_cache\<close>: \<^verbatim>\<open>core/src/secrets/ttl-cache.ts\<close> (TTL per entry and an eviction hook, whose calls are logged).

  The locale \<open>expiring_cache\<close> states what a client may rely on, and is interpreted on all three. The clock is read
  once per call and is an argument.
\<close>

section \<open>The contract\<close>

datatype ('t, 'v) cache_op = Read 't string | Write 't string 'v

text \<open>The most recent write to a key, given the operations in order.\<close>

fun last_write :: "string \<Rightarrow> ('t, 'v) cache_op list \<Rightarrow> ('t \<times> 'v) option \<Rightarrow> ('t \<times> 'v) option" where
  "last_write k [] w = w"
| "last_write k (Read t k' # ops) w = last_write k ops w"
| "last_write k (Write t k' v # ops) w = last_write k ops (if k' = k then Some (t, v) else w)"

fun cache_run :: "('t \<Rightarrow> string \<Rightarrow> 'c \<Rightarrow> 'v option \<times> 'c) \<Rightarrow> ('t \<Rightarrow> string \<Rightarrow> 'v \<Rightarrow> 'c \<Rightarrow> 'c) \<Rightarrow>
    ('t, 'v) cache_op list \<Rightarrow> 'c \<Rightarrow> 'c" where
  "cache_run rd wr [] c = c"
| "cache_run rd wr (Read t k # ops) c = cache_run rd wr ops (snd (rd t k c))"
| "cache_run rd wr (Write t k v # ops) c = cache_run rd wr ops (wr t k v c)"

text \<open>
  \<open>rd\<close> and \<open>wr\<close> are the two operations, \<open>fresh s t v\<close> says that a value written at \<open>s\<close> is still valid at \<open>t\<close>. Neither
  operation makes another key answer anything it did not answer before, a read does not lose valid entries, and a
  write is seen while it is fresh.
\<close>

locale expiring_cache =
  fixes rd :: "'t \<Rightarrow> string \<Rightarrow> 'c \<Rightarrow> 'v option \<times> 'c"
    and wr :: "'t \<Rightarrow> string \<Rightarrow> 'v \<Rightarrow> 'c \<Rightarrow> 'c"
    and fresh :: "'t \<Rightarrow> 't \<Rightarrow> 'v \<Rightarrow> bool"
    and good :: "'c \<Rightarrow> bool"
  assumes good_rd: "good c \<Longrightarrow> good (snd (rd t k c))"
    and good_wr: "good c \<Longrightarrow> good (wr t k v c)"
    and rd_rd: "good c \<Longrightarrow> fst (rd t' k' (snd (rd t k c))) = Some v \<Longrightarrow> fst (rd t' k' c) = Some v"
    and rd_twice: "good c \<Longrightarrow> fst (rd t k c) = Some v \<Longrightarrow> fst (rd t k (snd (rd t k c))) = Some v"
    and rd_wr_same: "good c \<Longrightarrow> fst (rd t' k (wr t k v c)) = Some w \<Longrightarrow> w = v \<and> fresh t t' v"
    and rd_wr_other: "good c \<Longrightarrow> k' \<noteq> k \<Longrightarrow> fst (rd t' k' (wr t k v c)) = Some w \<Longrightarrow> fst (rd t' k' c) = Some w"
begin

lemma hit_is_last_write_from:
  assumes "good c"
    and "\<And>t k v. fst (rd t k c) = Some v \<Longrightarrow> \<exists>s. w0 k = Some (s, v) \<and> fresh s t v"
    and "fst (rd t k (cache_run rd wr ops c)) = Some v"
  shows "\<exists>s. last_write k ops (w0 k) = Some (s, v) \<and> fresh s t v"
  using assms
proof (induction ops arbitrary: c w0)
  case (Cons op ops)
  show ?case
  proof (cases op)
    case (Read s k')
    have "\<exists>s. last_write k ops (w0 k) = Some (s, v) \<and> fresh s t v"
      using Cons.prems unfolding Read
      by (intro Cons.IH [of "snd (rd s k' c)"]) (auto intro: good_rd dest: rd_rd)
    with Read show ?thesis by simp
  next
    case (Write s k' u)
    have "\<exists>r. last_write k ops ((w0(k' \<mapsto> (s, u))) k) = Some (r, v) \<and> fresh r t v"
    proof (rule Cons.IH [where c = "wr s k' u c" and ?w0.0 = "w0(k' \<mapsto> (s, u))"])
      fix t2 k2 v2
      assume "fst (rd t2 k2 (wr s k' u c)) = Some v2"
      then show "\<exists>s'. (w0(k' \<mapsto> (s, u))) k2 = Some (s', v2) \<and> fresh s' t2 v2"
        using Cons.prems(1,2) rd_wr_same [of c t2 k' s u v2] rd_wr_other [of c k2 k' t2 s u v2]
        by (cases "k2 = k'") auto
    qed (use Cons.prems Write in \<open>auto intro: good_wr\<close>)
    with Write show ?thesis by (simp add: fun_upd_def split: if_splits)
  qed
qed simp

text \<open>From an empty cache, a hit returns the last value written under the key, and that write is fresh.\<close>

lemma hit_is_last_write:
  "good c \<Longrightarrow> (\<And>t k. fst (rd t k c) = None) \<Longrightarrow> fst (rd t k (cache_run rd wr ops c)) = Some v \<Longrightarrow>
   \<exists>s. last_write k ops None = Some (s, v) \<and> fresh s t v"
  using hit_is_last_write_from [of c "\<lambda>_. None"] by simp

end

section \<open>LRU eviction\<close>

text \<open>\<^verbatim>\<open>while (entries.size > max)\<close> the oldest key goes.\<close>

fun evict_oldest :: "int \<Rightarrow> ('k, 'v) jmap \<Rightarrow> ('k, 'v) jmap" where
  "evict_oldest m [] = []"
| "evict_oldest m (e # es) = (if int (length (e # es)) > m then evict_oldest m es else e # es)"

lemma evict_oldest_suffix: "\<exists>ds. es = ds @ evict_oldest m es"
  by (induction es) (auto intro: exI [of _ "[]"] exI [of _ "_ # _"])

lemma evict_oldest_drop: "0 \<le> m \<Longrightarrow> evict_oldest m es = drop (length es - nat m) es"
proof (induction es)
  case (Cons e es)
  then show ?case
  proof (cases "int (length (e # es)) > m")
    case True
    then have "length (e # es) - nat m = Suc (length es - nat m)" by simp
    with True Cons show ?thesis by simp
  qed simp
qed simp

lemma length_evict_oldest: "0 \<le> m \<Longrightarrow> int (length (evict_oldest m es)) \<le> m"
  by (simp add: evict_oldest_drop)

lemma jm_ok_evict [inv_intros]: "jm_ok es \<Longrightarrow> jm_ok (evict_oldest m es)"
  using evict_oldest_suffix [of es m] by (metis append_eq_conv_conj jm_ok_drop)

lemma get_evict: "jm_ok es \<Longrightarrow> jm_get k (evict_oldest m es) = Some v \<Longrightarrow> jm_get k es = Some v"
  using evict_oldest_suffix [of es m] by (metis Un_iff jm_get_iff jm_ok_evict set_append)

lemma jm_get_append: "jm_get k (xs @ ys) = (case jm_get k xs of Some v \<Rightarrow> Some v | None \<Rightarrow> jm_get k ys)"
  by (induction xs) auto

lemma get_evict_last:
  assumes "jm_ok es" "\<not> jm_has k es" "1 \<le> m"
  shows "jm_get k (evict_oldest m (es @ [(k, v)])) = Some v"
proof -
  have "evict_oldest m (es @ [(k, v)]) = drop (Suc (length es) - nat m) es @ [(k, v)]"
    using assms(3) by (simp add: evict_oldest_drop)
  moreover have "\<not> jm_has k (drop (Suc (length es) - nat m) es)"
    using assms(2) by (auto simp: jm_has_def dest: in_set_dropD)
  ultimately show ?thesis by (simp add: jm_get_append jm_has_get)
qed

section \<open>Event idempotency\<close>

record idem_cache =
  ic_max :: int
  ic_ttl :: int
  ic_entries :: "(string, int) jmap"

definition create_idem_cache :: "int \<Rightarrow> int \<Rightarrow> idem_cache" where
  "create_idem_cache mx ttl = \<lparr>ic_max = mx, ic_ttl = ttl, ic_entries = []\<rparr>"

definition ic_read :: "int \<Rightarrow> string \<Rightarrow> idem_cache \<Rightarrow> int option \<times> idem_cache" where
  "ic_read now k c =
     (case jm_get k (ic_entries c) of
        None \<Rightarrow> (None, c)
      | Some ts \<Rightarrow>
          if now - ts > ic_ttl c then (None, c\<lparr>ic_entries := jm_del k (ic_entries c)\<rparr>)
          else (Some ts, c\<lparr>ic_entries := jm_set k ts (jm_del k (ic_entries c))\<rparr>))"

definition ic_write :: "string \<Rightarrow> int \<Rightarrow> idem_cache \<Rightarrow> idem_cache" where
  "ic_write k ts c =
     (let es = (if jm_has k (ic_entries c) then jm_del k (ic_entries c) else ic_entries c)
      in c\<lparr>ic_entries := evict_oldest (ic_max c) (jm_set k ts es)\<rparr>)"

definition idempotency_cache_key :: "string \<Rightarrow> string \<Rightarrow> string" where
  "idempotency_cache_key st key = ''key:'' @ st @ '':'' @ key"

definition ic_lookup :: "int \<Rightarrow> string \<Rightarrow> string option \<Rightarrow> string \<Rightarrow> idem_cache \<Rightarrow> int option \<times> idem_cache" where
  "ic_lookup now eid key st c =
     (case ic_read now eid c of
        (Some ts, c1) \<Rightarrow> (Some ts, c1)
      | (None, c1) \<Rightarrow>
          (case key of
             Some k \<Rightarrow> if k \<noteq> [] \<and> st \<noteq> [] then ic_read now (idempotency_cache_key st k) c1 else (None, c1)
           | None \<Rightarrow> (None, c1)))"

definition ic_remember :: "string \<Rightarrow> string option \<Rightarrow> string \<Rightarrow> int \<Rightarrow> idem_cache \<Rightarrow> idem_cache" where
  "ic_remember eid key st ts c =
     (let c1 = ic_write eid ts c
      in case key of
           Some k \<Rightarrow> if k \<noteq> [] then ic_write (idempotency_cache_key st k) ts c1 else c1
         | None \<Rightarrow> c1)"

definition ic_ok :: "idem_cache \<Rightarrow> bool" where
  "ic_ok c \<longleftrightarrow> jm_ok (ic_entries c) \<and> 1 \<le> ic_max c \<and> int (length (ic_entries c)) \<le> ic_max c"

lemma ic_entries_write:
  "ic_entries (ic_write k ts c) = evict_oldest (ic_max c) (jm_del k (ic_entries c) @ [(k, ts)])"
  using jm_set_del [of k ts "ic_entries c"] by (cases "jm_has k (ic_entries c)") (simp_all add: ic_write_def jm_del_absent)

lemma ic_ok_read [inv_intros]: "ic_ok c \<Longrightarrow> ic_ok (snd (ic_read now k c))"
  using length_jm_del_le [of k "ic_entries c"] length_jm_del_has [of "ic_entries c" k]
  by (cases "jm_get k (ic_entries c)") (auto simp: ic_read_def ic_ok_def length_jm_set jm_has_get intro!: inv_intros)

lemma ic_ok_write [inv_intros]: "ic_ok c \<Longrightarrow> ic_ok (ic_write k ts c)"
  by (auto simp: ic_write_def Let_def ic_ok_def length_evict_oldest intro!: inv_intros)

lemma fst_ic_read: "fst (ic_read t k c) = (case jm_get k (ic_entries c) of Some ts \<Rightarrow> if t - ts > ic_ttl c then None else Some ts | None \<Rightarrow> None)"
  by (auto simp: ic_read_def split: option.split)

lemma get_ic_read: "jm_get k' (ic_entries (snd (ic_read t k c))) =
    (if k' = k \<and> fst (ic_read t k c) = None then None else jm_get k' (ic_entries c))"
  by (auto simp: ic_read_def split: option.split)

lemma ic_const [simp]: "ic_ttl (snd (ic_read t k c)) = ic_ttl c" "ic_ttl (ic_write k ts c) = ic_ttl c"
  "ic_max (snd (ic_read t k c)) = ic_max c" "ic_max (ic_write k ts c) = ic_max c"
  by (auto simp: ic_read_def ic_write_def Let_def split: option.split)

lemma get_ic_write:
  assumes "ic_ok c"
  shows "jm_get k (ic_entries (ic_write k ts c)) = Some ts"
    and "k' \<noteq> k \<Longrightarrow> jm_get k' (ic_entries (ic_write k ts c)) = Some u \<Longrightarrow> jm_get k' (ic_entries c) = Some u"
proof -
  have ok: "jm_ok (ic_entries c)" "1 \<le> ic_max c" using assms by (simp_all add: ic_ok_def)
  show "jm_get k (ic_entries (ic_write k ts c)) = Some ts"
    using ok by (simp add: ic_entries_write get_evict_last inv_intros)
  assume k: "k' \<noteq> k" "jm_get k' (ic_entries (ic_write k ts c)) = Some u"
  have "jm_get k' (jm_del k (ic_entries c) @ [(k, ts)]) = Some u"
    using k(2) jm_ok_set [OF jm_ok_del [OF ok(1)], of k ts k] get_evict
    unfolding ic_entries_write jm_set_del by metis
  then show "jm_get k' (ic_entries c) = Some u" using k(1) by (simp add: jm_get_append split: option.splits)
qed

text \<open>The stored timestamp is both the value and the time of the write.\<close>

interpretation ic: expiring_cache ic_read "\<lambda>t k v c. ic_write k v c" "\<lambda>s t v. t - v \<le> ttl"
    "\<lambda>c. ic_ok c \<and> ic_ttl c = ttl" for ttl
proof unfold_locales
  fix c :: idem_cache and t t' :: int and k k' :: string and v w :: int
  assume c: "ic_ok c \<and> ic_ttl c = ttl"
  then show "ic_ok (snd (ic_read t k c)) \<and> ic_ttl (snd (ic_read t k c)) = ttl" by (simp add: inv_intros)
  from c show "ic_ok (ic_write k v c) \<and> ic_ttl (ic_write k v c) = ttl" by (simp add: inv_intros)
  show "fst (ic_read t' k' (snd (ic_read t k c))) = Some v \<Longrightarrow> fst (ic_read t' k' c) = Some v"
    by (auto simp: fst_ic_read get_ic_read split: if_split_asm option.splits)
  show "fst (ic_read t k c) = Some v \<Longrightarrow> fst (ic_read t k (snd (ic_read t k c))) = Some v"
    by (simp add: fst_ic_read [of t k "snd (ic_read t k c)"] get_ic_read) (simp add: fst_ic_read split: option.splits if_splits)
  show "fst (ic_read t' k (ic_write k v c)) = Some w \<Longrightarrow> w = v \<and> t' - v \<le> ttl"
    using c get_ic_write(1) [of c k v] by (simp add: fst_ic_read split: if_splits)
  assume k: "k' \<noteq> k" and r: "fst (ic_read t' k' (ic_write k v c)) = Some w"
  then obtain u where u: "jm_get k' (ic_entries (ic_write k v c)) = Some u" "u = w" "\<not> t' - u > ttl"
    using c by (auto simp: fst_ic_read split: option.splits if_splits)
  then show "fst (ic_read t' k' c) = Some w" using c get_ic_write(2) [of c k' k v u] k by (simp add: fst_ic_read)
qed

section \<open>Outbound send idempotency\<close>

record 'v send_cache =
  sc_ttl :: int
  sc_max :: int
  sc_entries :: "(string, 'v \<times> int) jmap"

definition create_send_cache :: "int option \<Rightarrow> int option \<Rightarrow> 'v send_cache" where
  "create_send_cache ttl mx =
     \<lparr>sc_ttl = (case ttl of None \<Rightarrow> 10 * 60 * 1000 | Some t \<Rightarrow> t),
      sc_max = (case mx of None \<Rightarrow> 4096 | Some m \<Rightarrow> m), sc_entries = []\<rparr>"

text \<open>\<^verbatim>\<open>evictExpired\<close>: in iteration order, up to the first entry that is still valid.\<close>

definition evict_expired :: "int \<Rightarrow> (string, 'v \<times> int) jmap \<Rightarrow> (string, 'v \<times> int) jmap" where
  "evict_expired t es = dropWhile (\<lambda>(k, v, ex). ex \<le> t) es"

definition sc_get :: "int \<Rightarrow> string \<Rightarrow> 'v send_cache \<Rightarrow> 'v option \<times> 'v send_cache" where
  "sc_get now k c =
     (case jm_get k (sc_entries c) of
        None \<Rightarrow> (None, c)
      | Some (v, ex) \<Rightarrow>
          if ex \<le> now then (None, c\<lparr>sc_entries := jm_del k (sc_entries c)\<rparr>)
          else (Some v, c\<lparr>sc_entries := jm_set k (v, ex) (jm_del k (sc_entries c))\<rparr>))"

definition sc_put :: "int \<Rightarrow> string \<Rightarrow> 'v \<Rightarrow> 'v send_cache \<Rightarrow> 'v send_cache" where
  "sc_put now k v c =
     c\<lparr>sc_entries := evict_oldest (sc_max c)
         (jm_set k (v, now + sc_ttl c) (jm_del k (evict_expired now (sc_entries c))))\<rparr>"

definition sc_clear :: "'v send_cache \<Rightarrow> 'v send_cache" where
  "sc_clear c = c\<lparr>sc_entries := []\<rparr>"

definition sc_size :: "int \<Rightarrow> 'v send_cache \<Rightarrow> nat \<times> 'v send_cache" where
  "sc_size now c = (let es = evict_expired now (sc_entries c) in (length es, c\<lparr>sc_entries := es\<rparr>))"

lemma evict_expired_suffix: "\<exists>ds. es = ds @ evict_expired t es"
  unfolding evict_expired_def by (metis takeWhile_dropWhile_id)

lemma jm_ok_evict_expired [inv_intros]: "jm_ok es \<Longrightarrow> jm_ok (evict_expired t es)"
  using evict_expired_suffix [of es t] by (metis append_eq_conv_conj jm_ok_drop)

lemma get_evict_expired: "jm_ok es \<Longrightarrow> jm_get k (evict_expired t es) = Some v \<Longrightarrow> jm_get k es = Some v"
  using evict_expired_suffix [of es t] by (metis Un_iff jm_get_iff jm_ok_evict_expired set_append)

lemma fst_sc_get: "fst (sc_get t k c) =
    (case jm_get k (sc_entries c) of Some (v, ex) \<Rightarrow> if ex \<le> t then None else Some v | None \<Rightarrow> None)"
  by (auto simp: sc_get_def split: option.split)

lemma get_sc_get: "jm_get k' (sc_entries (snd (sc_get t k c))) =
    (if k' = k \<and> fst (sc_get t k c) = None then None else jm_get k' (sc_entries c))"
  by (auto simp: sc_get_def split: option.split)

lemma sc_const [simp]: "sc_ttl (snd (sc_get t k c)) = sc_ttl c" "sc_ttl (sc_put t k v c) = sc_ttl c"
  by (auto simp: sc_get_def sc_put_def split: option.split)

lemma sc_ok_get [inv_intros]: "jm_ok (sc_entries c) \<Longrightarrow> jm_ok (sc_entries (snd (sc_get t k c)))"
  by (cases "jm_get k (sc_entries c)") (auto simp: sc_get_def intro!: inv_intros)

lemma sc_ok_put [inv_intros]: "jm_ok (sc_entries c) \<Longrightarrow> jm_ok (sc_entries (sc_put t k v c))"
  by (simp add: sc_put_def inv_intros)

lemma get_sc_put:
  assumes "jm_ok (sc_entries c)" "jm_get k' (sc_entries (sc_put t k v c)) = Some e"
  shows "if k' = k then e = (v, t + sc_ttl c) else jm_get k' (sc_entries c) = Some e"
proof -
  let ?es = "jm_del k (evict_expired t (sc_entries c))"
  have ok: "jm_ok (jm_set k (v, t + sc_ttl c) ?es)" using assms(1) by (intro inv_intros)
  have "jm_get k' (evict_oldest (sc_max c) (jm_set k (v, t + sc_ttl c) ?es)) = Some e"
    using assms(2) by (simp add: sc_put_def)
  then have "jm_get k' (jm_set k (v, t + sc_ttl c) ?es) = Some e" by (rule get_evict [OF ok])
  then show ?thesis using get_evict_expired [OF assms(1)] by (auto split: if_splits)
qed

interpretation sc: expiring_cache sc_get sc_put "\<lambda>s t v. t < s + ttl"
    "\<lambda>c. jm_ok (sc_entries c) \<and> sc_ttl c = ttl" for ttl
proof unfold_locales
  fix c :: "'v send_cache" and t t' :: int and k k' :: string and v w :: 'v
  assume c: "jm_ok (sc_entries c) \<and> sc_ttl c = ttl"
  then show "jm_ok (sc_entries (snd (sc_get t k c))) \<and> sc_ttl (snd (sc_get t k c)) = ttl" by (simp add: inv_intros)
  from c show "jm_ok (sc_entries (sc_put t k v c)) \<and> sc_ttl (sc_put t k v c) = ttl" by (simp add: inv_intros)
  show "fst (sc_get t' k' (snd (sc_get t k c))) = Some v \<Longrightarrow> fst (sc_get t' k' c) = Some v"
    by (auto simp: fst_sc_get get_sc_get split: if_split_asm option.splits)
  show "fst (sc_get t k c) = Some v \<Longrightarrow> fst (sc_get t k (snd (sc_get t k c))) = Some v"
    by (simp add: fst_sc_get [of t k "snd (sc_get t k c)"] get_sc_get) (auto simp: fst_sc_get split: option.splits if_splits)
  show "fst (sc_get t' k (sc_put t k v c)) = Some w \<Longrightarrow> w = v \<and> t' < t + ttl"
    using c get_sc_put [of c k t k v] by (auto simp: fst_sc_get split: option.splits if_splits)
  show "k' \<noteq> k \<Longrightarrow> fst (sc_get t' k' (sc_put t k v c)) = Some w \<Longrightarrow> fst (sc_get t' k' c) = Some w"
    using c get_sc_put [of c k' t k v] by (auto simp: fst_sc_get split: option.splits if_splits)
qed

section \<open>Secrets\<close>

record 'v ttl_cache =
  tc_default_ttl :: int
  tc_entries :: "(string, 'v \<times> int) jmap"
  tc_evicted :: "(string \<times> 'v) list"

definition create_ttl_cache :: "int \<Rightarrow> 'v ttl_cache" where
  "create_ttl_cache d = \<lparr>tc_default_ttl = d, tc_entries = [], tc_evicted = []\<rparr>"

definition tc_get :: "int \<Rightarrow> string \<Rightarrow> 'v ttl_cache \<Rightarrow> 'v option \<times> 'v ttl_cache" where
  "tc_get now k c =
     (case jm_get k (tc_entries c) of
        None \<Rightarrow> (None, c)
      | Some (v, ex) \<Rightarrow>
          if ex \<le> now
          then (None, c\<lparr>tc_entries := jm_del k (tc_entries c), tc_evicted := tc_evicted c @ [(k, v)]\<rparr>)
          else (Some v, c))"

definition tc_set :: "int \<Rightarrow> string \<Rightarrow> 'v \<Rightarrow> int option \<Rightarrow> 'v ttl_cache \<Rightarrow> 'v ttl_cache" where
  "tc_set now k v ttl_ms c =
     (let ttl = (case ttl_ms of None \<Rightarrow> tc_default_ttl c | Some t \<Rightarrow> t)
      in if ttl \<le> 0 then c
         else let c1 = (case jm_get k (tc_entries c) of
                          Some (old, ex) \<Rightarrow> c\<lparr>tc_evicted := tc_evicted c @ [(k, old)]\<rparr>
                        | None \<Rightarrow> c)
              in c1\<lparr>tc_entries := jm_set k (v, now + ttl) (tc_entries c1)\<rparr>)"

definition tc_delete :: "string \<Rightarrow> 'v ttl_cache \<Rightarrow> bool \<times> 'v ttl_cache" where
  "tc_delete k c =
     (case jm_get k (tc_entries c) of
        None \<Rightarrow> (False, c)
      | Some (v, ex) \<Rightarrow>
          (True, c\<lparr>tc_entries := jm_del k (tc_entries c), tc_evicted := tc_evicted c @ [(k, v)]\<rparr>))"

definition tc_clear :: "'v ttl_cache \<Rightarrow> 'v ttl_cache" where
  "tc_clear c = c\<lparr>tc_entries := [], tc_evicted := tc_evicted c @ map (\<lambda>(k, v, ex). (k, v)) (tc_entries c)\<rparr>"

definition tc_size :: "'v ttl_cache \<Rightarrow> nat" where
  "tc_size c = length (tc_entries c)"

text \<open>A write with the default time to live.\<close>

abbreviation tc_put :: "int \<Rightarrow> string \<Rightarrow> 'v \<Rightarrow> 'v ttl_cache \<Rightarrow> 'v ttl_cache" where
  "tc_put now k v c \<equiv> tc_set now k v None c"

lemma fst_tc_get: "fst (tc_get t k c) =
    (case jm_get k (tc_entries c) of Some (v, ex) \<Rightarrow> if ex \<le> t then None else Some v | None \<Rightarrow> None)"
  by (auto simp: tc_get_def split: option.split)

lemma get_tc_get: "jm_get k' (tc_entries (snd (tc_get t k c))) =
    (if k' = k \<and> fst (tc_get t k c) = None then None else jm_get k' (tc_entries c))"
  by (auto simp: tc_get_def split: option.split)

lemma get_tc_set: "0 < ttl \<Longrightarrow> jm_get k' (tc_entries (tc_set t k v (Some ttl) c)) =
    (if k' = k then Some (v, t + ttl) else jm_get k' (tc_entries c))"
  by (auto simp: tc_set_def Let_def split: option.split)

lemma get_tc_put: "0 < tc_default_ttl c \<Longrightarrow> jm_get k' (tc_entries (tc_put t k v c)) =
    (if k' = k then Some (v, t + tc_default_ttl c) else jm_get k' (tc_entries c))"
  by (auto simp: tc_set_def Let_def split: option.split)

lemma tc_const [simp]: "tc_default_ttl (snd (tc_get t k c)) = tc_default_ttl c"
  "tc_default_ttl (tc_set t k v x c) = tc_default_ttl c"
  by (auto simp: tc_get_def tc_set_def Let_def split: option.split)

interpretation tc: expiring_cache tc_get tc_put "\<lambda>s t v. t < s + ttl" "\<lambda>c. 0 < ttl \<and> tc_default_ttl c = ttl" for ttl
proof unfold_locales
  fix c :: "'v ttl_cache" and t t' :: int and k k' :: string and v w :: 'v
  assume c: "0 < ttl \<and> tc_default_ttl c = ttl"
  then show "0 < ttl \<and> tc_default_ttl (snd (tc_get t k c)) = ttl" by simp
  from c show "0 < ttl \<and> tc_default_ttl (tc_put t k v c) = ttl" by simp
  show "fst (tc_get t' k' (snd (tc_get t k c))) = Some v \<Longrightarrow> fst (tc_get t' k' c) = Some v"
    by (auto simp: fst_tc_get get_tc_get split: if_split_asm option.splits)
  show "fst (tc_get t k c) = Some v \<Longrightarrow> fst (tc_get t k (snd (tc_get t k c))) = Some v"
    by (simp add: fst_tc_get [of t k "snd (tc_get t k c)"] get_tc_get) (auto simp: fst_tc_get split: option.splits if_splits)
  show "fst (tc_get t' k (tc_put t k v c)) = Some w \<Longrightarrow> w = v \<and> t' < t + ttl"
    using c by (auto simp: fst_tc_get get_tc_put split: if_splits)
  show "k' \<noteq> k \<Longrightarrow> fst (tc_get t' k' (tc_put t k v c)) = Some w \<Longrightarrow> fst (tc_get t' k' c) = Some w"
    using c by (simp add: fst_tc_get get_tc_put)
qed

section \<open>Retention\<close>

text \<open>The keys of the cache operations other than those on \<open>k\<close>.\<close>

datatype ic_call = Lookup int string "string option" string | Remember string "string option" string int

fun ic_step :: "idem_cache \<Rightarrow> ic_call \<Rightarrow> idem_cache" where
  "ic_step c (Lookup now eid key st) = snd (ic_lookup now eid key st c)"
| "ic_step c (Remember eid key st ts) = ic_remember eid key st ts c"

text \<open>The cache keys a call may move to the young end.\<close>

fun touched :: "ic_call \<Rightarrow> string list" where
  "touched (Lookup now eid key st) =
     eid # (case key of Some k \<Rightarrow> [idempotency_cache_key st k] | None \<Rightarrow> [])"
| "touched (Remember eid key st ts) =
     eid # (case key of Some k \<Rightarrow> if k \<noteq> [] then [idempotency_cache_key st k] else [] | None \<Rightarrow> [])"

text \<open>\<open>k\<close> is held with timestamp \<open>ts\<close>, and only keys of \<open>K\<close> are younger.\<close>

definition held :: "string \<Rightarrow> int \<Rightarrow> string set \<Rightarrow> idem_cache \<Rightarrow> bool" where
  "held k ts K c \<longleftrightarrow> ic_ok c \<and> (\<exists>xs ys. ic_entries c = xs @ (k, ts) # ys \<and> fst ` set ys \<subseteq> K)"

lemma held_read:
  assumes "held k ts K c" "k' \<noteq> k" "k' \<in> K"
  shows "held k ts K (snd (ic_read now k' c))"
proof -
  obtain xs ys where c: "ic_ok c" "ic_entries c = xs @ (k, ts) # ys" "fst ` set ys \<subseteq> K"
    using assms(1) by (auto simp: held_def)
  have d: "jm_del k' (ic_entries c) = jm_del k' xs @ (k, ts) # jm_del k' ys"
    using assms(2) by (simp add: c(2) jm_del_def)
  have s: "fst ` set (jm_del k' ys) \<subseteq> K" using c(3) by (auto simp: jm_del_def)
  have "ic_ok (snd (ic_read now k' c))" using c(1) by (rule inv_intros)
  moreover have "\<exists>xs ys. ic_entries (snd (ic_read now k' c)) = xs @ (k, ts) # ys \<and> fst ` set ys \<subseteq> K"
  proof (cases "jm_get k' (ic_entries c)")
    case None
    then show ?thesis using c by (auto simp: ic_read_def)
  next
    case (Some t)
    have "jm_set k' t (jm_del k' (ic_entries c)) = jm_del k' xs @ (k, ts) # (jm_del k' ys @ [(k', t)])"
      using jm_set_del [of k' t "ic_entries c"] d by simp
    moreover have "fst ` set (jm_del k' ys @ [(k', t)]) \<subseteq> K" using s assms(3) by simp
    ultimately have "\<exists>xs ys. jm_set k' t (jm_del k' (ic_entries c)) = xs @ (k, ts) # ys \<and> fst ` set ys \<subseteq> K"
      by blast
    moreover have "\<exists>xs ys. jm_del k' (ic_entries c) = xs @ (k, ts) # ys \<and> fst ` set ys \<subseteq> K"
      using d s by blast
    ultimately show ?thesis using Some by (simp add: ic_read_def)
  qed
  ultimately show ?thesis by (simp add: held_def)
qed

lemma held_write:
  assumes "held k ts K c" "k' \<noteq> k" "k' \<in> K" "finite K" "int (card K) < ic_max c"
  shows "held k ts K (ic_write k' u c)"
proof -
  obtain xs ys where c: "ic_ok c" "ic_entries c = xs @ (k, ts) # ys" "fst ` set ys \<subseteq> K"
    using assms(1) by (auto simp: held_def)
  have ok: "ic_ok (ic_write k' u c)" using c(1) by (rule inv_intros)
  have ok1: "jm_ok (jm_del k' (ic_entries c) @ [(k', u)])"
    using c(1) jm_ok_set [OF jm_ok_del, of "ic_entries c" k' u k'] by (simp add: ic_ok_def jm_set_del)
  let ?zs = "jm_del k' ys @ [(k', u)]"
  have d: "jm_del k' (ic_entries c) @ [(k', u)] = jm_del k' xs @ (k, ts) # ?zs"
    using assms(2) by (simp add: c(2) jm_del_def)
  have s: "fst ` set ?zs \<subseteq> K" using c(3) assms(3) by (auto simp: jm_del_def)
  have "distinct (map fst ?zs)" using ok1 unfolding d by (simp add: jm_ok_def)
  then have "length ?zs = card (fst ` set ?zs)" by (metis distinct_card length_map list.set_map)
  also have "\<dots> \<le> card K" using s assms(4) by (rule card_mono [rotated])
  finally have len: "int (length ?zs) < ic_max c" using assms(5) by simp
  let ?n = "length (jm_del k' xs @ (k, ts) # ?zs) - nat (ic_max c)"
  have "?n \<le> length (jm_del k' xs)" using len by simp
  then have "evict_oldest (ic_max c) (jm_del k' xs @ (k, ts) # ?zs) = drop ?n (jm_del k' xs) @ (k, ts) # ?zs"
    using len by (simp add: evict_oldest_drop del: length_append)
  then have "ic_entries (ic_write k' u c) = drop ?n (jm_del k' xs) @ (k, ts) # ?zs"
    by (simp only: ic_entries_write d)
  then show ?thesis using ok s unfolding held_def by blast
qed

lemma held_step:
  assumes "held k ts K c" "k \<notin> set (touched op)" "set (touched op) \<subseteq> K" "finite K" "int (card K) < ic_max c"
  shows "held k ts K (ic_step c op) \<and> ic_max (ic_step c op) = ic_max c"
proof (cases op)
  case (Lookup now eid key st)
  have 1: "held k ts K (snd (ic_read now eid c))" using assms Lookup by (intro held_read) auto
  obtain r c1 where r: "ic_read now eid c = (r, c1)" by (cases "ic_read now eid c")
  have 2: "held k ts K (snd (ic_read now (idempotency_cache_key st x) c1))" if "key = Some x" for x
    using assms Lookup 1 r that by (intro held_read) auto
  have "ic_max c1 = ic_max c" using r by (metis ic_const(3) snd_conv)
  then show ?thesis using 1 2 r by (auto simp: Lookup ic_lookup_def split: option.split)
next
  case (Remember eid key st u)
  have 1: "held k ts K (ic_write eid u c)" using assms Remember by (intro held_write) auto
  have 2: "held k ts K (ic_write (idempotency_cache_key st x) u (ic_write eid u c))" if "key = Some x" "x \<noteq> []" for x
    using assms Remember 1 that by (intro held_write) auto
  show ?thesis using 1 2 by (auto simp: Remember ic_remember_def Let_def split: option.split)
qed

lemma held_run:
  "held k ts K c \<Longrightarrow> \<forall>op \<in> set ops. k \<notin> set (touched op) \<and> set (touched op) \<subseteq> K \<Longrightarrow> finite K \<Longrightarrow>
   int (card K) < ic_max c \<Longrightarrow> held k ts K (run ic_step c ops) \<and> ic_max (run ic_step c ops) = ic_max c"
proof (induction ops arbitrary: c)
  case (Cons op ops)
  have "held k ts K (ic_step c op) \<and> ic_max (ic_step c op) = ic_max c"
    using Cons.prems by (intro held_step) auto
  with Cons show ?case by auto
qed simp

lemma ic_ttl_step: "ic_ttl (ic_step c op) = ic_ttl c"
  by (cases op) (auto simp: ic_lookup_def ic_remember_def Let_def split: prod.split option.split,
    (metis ic_const(1) snd_conv)+)

lemma ic_ttl_run: "ic_ttl (run ic_step c ops) = ic_ttl c"
  by (induction ops arbitrary: c) (simp_all add: ic_ttl_step)

lemma held_written: "ic_ok c \<Longrightarrow> held k ts {} (ic_write k ts c)"
proof -
  assume c: "ic_ok c"
  let ?es = "jm_del k (ic_entries c)"
  have "evict_oldest (ic_max c) (?es @ [(k, ts)]) = drop (Suc (length ?es) - nat (ic_max c)) ?es @ [(k, ts)]"
    using c by (simp add: evict_oldest_drop ic_ok_def drop_Cons' le_nat_iff)
  then show ?thesis using ic_ok_write [OF c, of k ts] unfolding held_def ic_entries_write by auto
qed

text \<open>An event that was remembered under its id is recognised as a duplicate, with the time it was remembered with,
  for as long as it is within the time to live and the calls in between touched fewer other keys than the cache
  holds.\<close>

lemma remembered_event_recognised:
  assumes "ic_ok c" and "\<forall>op \<in> set ops. eid \<notin> set (touched op)"
    and "int (card (\<Union>op \<in> set ops. set (touched op))) < ic_max c" and "now - ts \<le> ic_ttl c"
  shows "fst (ic_lookup now eid key st (run ic_step (ic_remember eid None st0 ts c) ops)) = Some ts"
proof -
  let ?K = "\<Union>op \<in> set ops. set (touched op)"
  let ?c = "run ic_step (ic_write eid ts c) ops"
  have "held eid ts ?K (ic_write eid ts c)" using held_written [OF assms(1)] by (fastforce simp: held_def)
  then have "held eid ts ?K ?c" using assms(2,3) held_run [of eid ts ?K "ic_write eid ts c" ops] by auto
  then have "jm_get eid (ic_entries ?c) = Some ts"
    by (auto simp: held_def ic_ok_def jm_get_iff)
  moreover have "ic_ttl ?c = ic_ttl c" by (simp add: ic_ttl_run)
  ultimately have "fst (ic_read now eid ?c) = Some ts" using assms(4) by (simp add: fst_ic_read)
  then show ?thesis by (cases "ic_read now eid ?c") (simp add: ic_remember_def ic_lookup_def)
qed

text \<open>A hit of the send cache returns the value last put under its key, put less than the time to live ago: no
  expired and no overwritten message is ever returned.\<close>

lemma send_hit_is_last_put:
  assumes "fst (sc_get t k (cache_run sc_get sc_put ops (create_send_cache ttl mx))) = Some v"
  shows "\<exists>s. last_write k ops None = Some (s, v) \<and> t < s + (case ttl of None \<Rightarrow> 600000 | Some x \<Rightarrow> x)"
  by (rule sc.hit_is_last_write [OF _ _ assms]) (simp_all add: create_send_cache_def fst_sc_get split: option.split)

text \<open>A read moves its entry behind later ones without renewing it, so the pruning before \<^verbatim>\<open>size()\<close>, which stops at the
  first valid entry, may keep expired entries and count them: here one of the two entries counted at 11 has expired at
  10.\<close>

lemma send_size_counts_expired:
  assumes "k1 \<noteq> k2" and "0 < s" and "s < ttl" and "2 \<le> mx"
    and "c = snd (sc_get s k1 (sc_put s k2 v2 (sc_put 0 k1 v1 (create_send_cache (Some ttl) (Some mx)))))"
  shows "fst (sc_size ttl c) = 2 \<and> fst (sc_get ttl k1 c) = None"
  using assms by (simp add: create_send_cache_def sc_put_def sc_get_def sc_size_def evict_expired_def jm_del_def)

section \<open>The eviction hook\<close>

datatype 'v tc_call = TGet int string | TSet int string 'v "int option" | TDelete string | TClear

fun tc_step :: "'v ttl_cache \<Rightarrow> 'v tc_call \<Rightarrow> 'v ttl_cache" where
  "tc_step c (TGet t k) = snd (tc_get t k c)"
| "tc_step c (TSet t k v x) = tc_set t k v x c"
| "tc_step c (TDelete k) = snd (tc_delete k c)"
| "tc_step c TClear = tc_clear c"

text \<open>The values a list of calls puts into the cache, given the default time to live.\<close>

fun tc_written :: "int \<Rightarrow> 'v tc_call list \<Rightarrow> (string \<times> 'v) multiset" where
  "tc_written d [] = {#}"
| "tc_written d (TSet t k v x # ops) =
     (if (case x of None \<Rightarrow> d | Some ttl \<Rightarrow> ttl) \<le> 0 then {#} else {#(k, v)#}) + tc_written d ops"
| "tc_written d (_ # ops) = tc_written d ops"

definition stored :: "(string, 'v \<times> int) jmap \<Rightarrow> (string \<times> 'v) multiset" where
  "stored m = mset (map (\<lambda>(k, v, ex). (k, v)) m)"

lemma stored_del: "jm_ok m \<Longrightarrow> jm_get k m = Some (v, ex) \<Longrightarrow> stored m = add_mset (k, v) (stored (jm_del k m))"
proof (induction m)
  case (Cons e m)
  obtain k' p where e: "e = (k', p)" by (cases e)
  show ?case
  proof (cases "k' = k")
    case True
    then have "jm_del k m = m" using Cons.prems by (intro jm_del_absent) (simp add: e jm_ok_def jm_has_def)
    with True Cons.prems show ?thesis by (simp add: e stored_def jm_del_def)
  next
    case False
    with Cons show ?thesis by (auto simp: e stored_def jm_del_def jm_ok_def)
  qed
qed simp

lemma stored_set:
  "jm_ok m \<Longrightarrow> stored (jm_set k (v, ex) m) =
     (case jm_get k m of None \<Rightarrow> add_mset (k, v) (stored m)
      | Some _ \<Rightarrow> add_mset (k, v) (stored (jm_del k m)))"
proof (induction m)
  case (Cons e m)
  obtain k' p where e: "e = (k', p)" by (cases e)
  show ?case
  proof (cases "k' = k")
    case True
    then have "jm_del k m = m" using Cons.prems by (intro jm_del_absent) (simp add: e jm_ok_def jm_has_def)
    with True show ?thesis by (simp add: e stored_def jm_del_def)
  next
    case False
    with Cons show ?thesis by (auto simp: e stored_def jm_del_def jm_ok_def split: option.splits)
  qed
qed (simp add: stored_def)

lemma tc_accounting_step:
  assumes "jm_ok (tc_entries c)"
  shows "jm_ok (tc_entries (tc_step c op)) \<and> tc_default_ttl (tc_step c op) = tc_default_ttl c \<and>
    mset (tc_evicted (tc_step c op)) + stored (tc_entries (tc_step c op)) =
    mset (tc_evicted c) + stored (tc_entries c) + tc_written (tc_default_ttl c) [op]"
proof (cases op)
  case (TGet t k)
  then show ?thesis using assms stored_del [OF assms]
    by (cases "jm_get k (tc_entries c)") (auto simp: tc_get_def intro!: inv_intros)
next
  case (TSet t k v x)
  then show ?thesis using assms stored_del [OF assms, of k] stored_set [OF assms, of k v]
    by (cases "jm_get k (tc_entries c)") (auto simp: tc_set_def Let_def intro!: inv_intros)
next
  case (TDelete k)
  then show ?thesis using assms stored_del [OF assms]
    by (cases "jm_get k (tc_entries c)") (auto simp: tc_delete_def intro!: inv_intros)
next
  case TClear
  then show ?thesis by (auto simp: tc_clear_def stored_def)
qed

lemma tc_written_Cons: "tc_written d (op # ops) = tc_written d [op] + tc_written d ops"
  by (cases op) simp_all

lemma tc_accounting:
  "jm_ok (tc_entries c) \<Longrightarrow>
   mset (tc_evicted (run tc_step c ops)) + stored (tc_entries (run tc_step c ops)) =
   mset (tc_evicted c) + stored (tc_entries c) + tc_written (tc_default_ttl c) ops"
proof (induction ops arbitrary: c)
  case (Cons op ops)
  show ?case
    using Cons.IH [of "tc_step c op"] tc_accounting_step [OF Cons.prems, of op]
      tc_written_Cons [of "tc_default_ttl c" op ops] by (simp add: add.assoc)
qed simp

text \<open>Whatever the calls, every value that entered the secret cache is either still in it or was handed to the eviction
  hook, exactly once: no lease is lost and none is released twice.\<close>

lemma secret_eviction_accounting:
  "mset (tc_evicted (run tc_step (create_ttl_cache d) ops)) + stored (tc_entries (run tc_step (create_ttl_cache d) ops)) =
   tc_written d ops"
  using tc_accounting [of "create_ttl_cache d" ops] by (simp add: create_ttl_cache_def stored_def)

end
