(* ===== verification/EventStore.thy ===== *)
theory EventStore imports EventTypes begin

text \<open>
  The persistent event store of \<^verbatim>\<open>core/src/events/store.ts\<close>: the tables \<^verbatim>\<open>events\<close> and \<^verbatim>\<open>rejected_events\<close> with the SQL
  statements of each method written as operations on rows in insertion order. Writing a row passes the event through
  JSON (\<open>store_image\<close>). Rows with equal sort keys keep insertion order here; SQL leaves their order open and nothing
  below depends on it. Failures of the database other than a violated primary key are not modelled.

  The locale \<open>rejection_ledger\<close> is what the dispatcher and the requeue helper rely on; it is interpreted on the store.
\<close>

section \<open>Rows\<close>

record event_record =
  er_event :: agent_event
  recorded_at :: int
  er_outcome :: "dispatch_outcome option"
  er_outcome_at :: "int option"

record rejection =
  rj_reason :: string
  rj_details :: "string option"
  attempt_count :: nat
  first_seen :: int
  last_seen :: int

record event_store =
  retention_ms :: int
  events :: "(string, event_record) jmap"
  rejected_events :: "(string, rejection) jmap"

definition create_event_store :: "int option \<Rightarrow> event_store" where
  "create_event_store r =
     \<lparr>retention_ms = (case r of None \<Rightarrow> 30 * 24 * 60 * 60 * 1000 | Some x \<Rightarrow> x), events = [], rejected_events = []\<rparr>"

text \<open>What \<^verbatim>\<open>JSON.parse(JSON.stringify(v))\<close> makes of the parts of an event that are arbitrary data.\<close>

definition json_or_null :: "js \<Rightarrow> js" where
  "json_or_null v = (case json_image v of None \<Rightarrow> JNull | Some w \<Rightarrow> w)"

fun target_image :: "event_target \<Rightarrow> event_target" where
  "target_image (TNewSession s p) = TNewSession (Option.bind s json_image) p"
| "target_image (TSkill n ins k) =
     TSkill n (concat (map (\<lambda>(x, v). case json_image v of None \<Rightarrow> [] | Some w \<Rightarrow> [(x, w)]) ins)) k"
| "target_image (TSubAgent p s) = TSubAgent p (case json_image s of None \<Rightarrow> JUndef | Some w \<Rightarrow> w)"
| "target_image t = t"

definition store_image :: "agent_event \<Rightarrow> agent_event" where
  "store_image e = e\<lparr>ev_target := target_image (ev_target e), ev_payload := json_or_null (ev_payload e)\<rparr>"

section \<open>Events\<close>

datatype store_error = Unique_violation string

definition record_event :: "int \<Rightarrow> agent_event \<Rightarrow> event_store \<Rightarrow> store_error + event_store" where
  "record_event now e s =
     (if jm_has (ev_id e) (events s) then Inl (Unique_violation (ev_id e))
      else Inr (s\<lparr>events := events s @
             [(ev_id e, \<lparr>er_event = store_image e, recorded_at = now, er_outcome = None, er_outcome_at = None\<rparr>)]\<rparr>))"

definition mark_outcome :: "int \<Rightarrow> string \<Rightarrow> dispatch_outcome \<Rightarrow> event_store \<Rightarrow> event_store" where
  "mark_outcome now i out s =
     (case jm_get i (events s) of
        None \<Rightarrow> s
      | Some r \<Rightarrow> s\<lparr>events := jm_set i (r\<lparr>er_outcome := Some out, er_outcome_at := Some now\<rparr>) (events s)\<rparr>)"

definition store_get :: "string \<Rightarrow> event_store \<Rightarrow> event_record option" where
  "store_get i s = jm_get i (events s)"

definition row_ts :: "event_record \<Rightarrow> int" where
  "row_ts r = ev_timestamp (er_event r)"

definition key_matches :: "string \<Rightarrow> string \<Rightarrow> int \<Rightarrow> event_record \<Rightarrow> bool" where
  "key_matches key st since r \<longleftrightarrow>
     ev_idem_key (er_event r) = Some key \<and> source_type (ev_source (er_event r)) = st \<and> row_ts r \<ge> since"

definition find_duplicate :: "int \<Rightarrow> agent_event \<Rightarrow> int \<Rightarrow> event_store \<Rightarrow> event_record option" where
  "find_duplicate now e window s =
     (case jm_get (ev_id e) (events s) of
        Some r \<Rightarrow> Some r
      | None \<Rightarrow>
          (case ev_idem_key e of
             None \<Rightarrow> None
           | Some key \<Rightarrow>
               if key = [] then None
               else (case sort_key row_ts (filter (key_matches key (source_type (ev_source e)) (now - window))
                                 (map snd (events s))) of
                       [] \<Rightarrow> None | r # _ \<Rightarrow> Some r)))"

datatype outcome_kind = KDispatched | KBroadcast | KQueued | KDuplicate | KRejected | KPending

fun kind_of :: "dispatch_outcome option \<Rightarrow> outcome_kind" where
  "kind_of None = KPending"
| "kind_of (Some (Dispatched _ _)) = KDispatched"
| "kind_of (Some Broadcast) = KBroadcast"
| "kind_of (Some (Queued _)) = KQueued"
| "kind_of (Some (Duplicate _ _)) = KDuplicate"
| "kind_of (Some (Rejected _ _)) = KRejected"

record list_filter =
  lf_kind :: "event_kind option"
  lf_correlation :: "string option"
  lf_since :: "int option"
  lf_outcome :: "outcome_kind option"
  lf_limit :: "int option"

text \<open>An absent filter field accepts every row.\<close>

definition opt_test :: "('a \<Rightarrow> bool) \<Rightarrow> 'a option \<Rightarrow> bool" where
  "opt_test p x = (case x of None \<Rightarrow> True | Some v \<Rightarrow> p v)"

definition row_passes :: "list_filter \<Rightarrow> event_record \<Rightarrow> bool" where
  "row_passes f r \<longleftrightarrow>
     opt_test (\<lambda>k. ev_kind (er_event r) = k) (lf_kind f) \<and>
     opt_test (\<lambda>c. ev_correlation (er_event r) = Some c) (lf_correlation f) \<and>
     opt_test (\<lambda>t. row_ts r \<ge> t) (lf_since f) \<and>
     opt_test (\<lambda>k. kind_of (er_outcome r) = k) (lf_outcome f)"

text \<open>\<^verbatim>\<open>LIMIT n\<close>; a negative limit is none.\<close>

definition sql_limit :: "int option \<Rightarrow> 'a list \<Rightarrow> 'a list" where
  "sql_limit n xs = (let k = (case n of None \<Rightarrow> 200 | Some k \<Rightarrow> k) in if k < 0 then xs else take (nat k) xs)"

definition store_list :: "list_filter \<Rightarrow> event_store \<Rightarrow> event_record list" where
  "store_list f s = sql_limit (lf_limit f) (sort_key (\<lambda>r. - row_ts r) (filter (row_passes f) (map snd (events s))))"

definition vacuum :: "int \<Rightarrow> int option \<Rightarrow> event_store \<Rightarrow> nat \<times> event_store" where
  "vacuum now older s =
     (let cutoff = now - (case older of None \<Rightarrow> retention_ms s | Some o' \<Rightarrow> o');
          keep = filter (\<lambda>(i, r). \<not> row_ts r < cutoff) (events s)
      in (length (events s) - length keep, s\<lparr>events := keep\<rparr>))"

section \<open>Rejections\<close>

definition upsert_rejection :: "string \<Rightarrow> string \<Rightarrow> string option \<Rightarrow> int \<Rightarrow> event_store \<Rightarrow> event_store" where
  "upsert_rejection i why details now s =
     (let row = (case jm_get i (rejected_events s) of
                   None \<Rightarrow> \<lparr>rj_reason = why, rj_details = details, attempt_count = 1, first_seen = now, last_seen = now\<rparr>
                 | Some r \<Rightarrow> r\<lparr>rj_reason := why, rj_details := details, attempt_count := attempt_count r + 1,
                              last_seen := now\<rparr>)
      in s\<lparr>rejected_events := jm_set i row (rejected_events s)\<rparr>)"

definition get_rejection :: "string \<Rightarrow> event_store \<Rightarrow> rejection option" where
  "get_rejection i s = jm_get i (rejected_events s)"

record rejection_filter =
  rf_reason :: "string option"
  rf_since :: "int option"
  rf_min_attempts :: "nat option"
  rf_limit :: "int option"

definition list_rejections :: "rejection_filter \<Rightarrow> event_store \<Rightarrow> (string \<times> rejection) list" where
  "list_rejections f s =
     sql_limit (rf_limit f) (sort_key (\<lambda>(i, r). - last_seen r)
       (filter (\<lambda>(i, r). opt_test (\<lambda>x. rj_reason r = x) (rf_reason f) \<and> opt_test (\<lambda>t. last_seen r \<ge> t) (rf_since f) \<and>
                         opt_test (\<lambda>n. attempt_count r \<ge> n) (rf_min_attempts f)) (rejected_events s)))"

definition delete_rejection :: "string \<Rightarrow> event_store \<Rightarrow> bool \<times> event_store" where
  "delete_rejection i s = (jm_has i (rejected_events s), s\<lparr>rejected_events := jm_del i (rejected_events s)\<rparr>)"

definition erase_by_platform_user :: "string \<Rightarrow> event_store \<Rightarrow> nat \<times> event_store" where
  "erase_by_platform_user u s =
     (let ids = map fst (filter (\<lambda>(i, r). ev_subject (er_event r) = Some u) (events s))
      in if ids = [] then (0, s)
         else (length (filter (\<lambda>(i, r). i \<in> set ids) (events s)),
               s\<lparr>rejected_events := filter (\<lambda>(i, r). i \<notin> set ids) (rejected_events s),
                 events := filter (\<lambda>(i, r). i \<notin> set ids) (events s)\<rparr>))"

definition store_ok :: "event_store \<Rightarrow> bool" where
  "store_ok s \<longleftrightarrow> jm_ok (events s) \<and> jm_ok (rejected_events s) \<and>
     (\<forall>(i, r) \<in> set (events s). ev_id (er_event r) = i) \<and>
     (\<forall>(i, r) \<in> set (rejected_events s). 1 \<le> attempt_count r)"

section \<open>The ledger contract\<close>

datatype ledger_op = Reject string string "string option" int | Clear string

locale rejection_ledger =
  fixes upsert :: "string \<Rightarrow> string \<Rightarrow> string option \<Rightarrow> int \<Rightarrow> 's \<Rightarrow> 's"
    and get :: "string \<Rightarrow> 's \<Rightarrow> rejection option"
    and clear :: "string \<Rightarrow> 's \<Rightarrow> 's"
  assumes upsert_new: "get i s = None \<Longrightarrow> get i (upsert i why d t s) =
        Some \<lparr>rj_reason = why, rj_details = d, attempt_count = 1, first_seen = t, last_seen = t\<rparr>"
    and upsert_old: "get i s = Some r \<Longrightarrow> get i (upsert i why d t s) =
        Some (r\<lparr>rj_reason := why, rj_details := d, attempt_count := attempt_count r + 1, last_seen := t\<rparr>)"
    and upsert_other: "j \<noteq> i \<Longrightarrow> get j (upsert i why d t s) = get j s"
    and clear_same: "get i (clear i s) = None"
    and clear_other: "j \<noteq> i \<Longrightarrow> get j (clear i s) = get j s"
begin

fun ledger_run :: "ledger_op list \<Rightarrow> 's \<Rightarrow> 's" where
  "ledger_run [] s = s"
| "ledger_run (Reject i why d t # ops) s = ledger_run ops (upsert i why d t s)"
| "ledger_run (Clear i # ops) s = ledger_run ops (clear i s)"

text \<open>The rejections of an event since it was last cleared.\<close>

fun since_clear :: "string \<Rightarrow> ledger_op list \<Rightarrow> (string \<times> string option \<times> int) list \<Rightarrow>
    (string \<times> string option \<times> int) list" where
  "since_clear i [] acc = acc"
| "since_clear i (Reject j why d t # ops) acc = since_clear i ops (if j = i then acc @ [(why, d, t)] else acc)"
| "since_clear i (Clear j # ops) acc = since_clear i ops (if j = i then [] else acc)"

definition summary :: "(string \<times> string option \<times> int) list \<Rightarrow> rejection option" where
  "summary xs = (if xs = [] then None
     else Some \<lparr>rj_reason = fst (last xs), rj_details = fst (snd (last xs)), attempt_count = length xs,
                first_seen = snd (snd (hd xs)), last_seen = snd (snd (last xs))\<rparr>)"

lemma ledger_from: "get i s = summary acc \<Longrightarrow> get i (ledger_run ops s) = summary (since_clear i ops acc)"
proof (induction ops s arbitrary: acc rule: ledger_run.induct)
  case (2 j why d t ops s)
  have "get i (upsert j why d t s) = summary (if j = i then acc @ [(why, d, t)] else acc)"
  proof (cases "j = i")
    case True
    then show ?thesis using 2(2) upsert_new [of i s] upsert_old [of i s]
      by (cases "acc = []") (auto simp: summary_def hd_append)
  qed (use 2(2) upsert_other in auto)
  then show ?case using 2(1) by simp
next
  case (3 j ops s)
  have "get i (clear j s) = summary (if j = i then [] else acc)"
    using 3(2) clear_same clear_other by (auto simp: summary_def)
  then show ?case using 3(1) by simp
qed simp

end

lemma upsert_rejection_get:
  "get_rejection j (upsert_rejection i why d t s) =
     (if j = i then Some (case get_rejection i s of
         None \<Rightarrow> \<lparr>rj_reason = why, rj_details = d, attempt_count = 1, first_seen = t, last_seen = t\<rparr>
       | Some r \<Rightarrow> r\<lparr>rj_reason := why, rj_details := d, attempt_count := attempt_count r + 1, last_seen := t\<rparr>)
      else get_rejection j s)"
  by (simp add: get_rejection_def upsert_rejection_def Let_def)

interpretation ledger: rejection_ledger upsert_rejection get_rejection "\<lambda>i s. snd (delete_rejection i s)"
  by unfold_locales (simp_all add: upsert_rejection_get, simp_all add: get_rejection_def delete_rejection_def)

section \<open>Invariant\<close>

lemma store_ok_record [inv_intros]: "store_ok s \<Longrightarrow> record_event t e s = Inr s' \<Longrightarrow> store_ok s'"
  by (auto simp: record_event_def store_ok_def jm_ok_def jm_has_def store_image_def split: if_splits)

lemma jm_set_mem: "(a, b) \<in> set (jm_set k v m) \<Longrightarrow> (a, b) = (k, v) \<or> (a, b) \<in> set m"
  using set_jm_set_subset [of k v m] by blast

lemma store_ok_mark [inv_intros]:
  assumes "store_ok s"
  shows "store_ok (mark_outcome t i out s)"
proof (cases "jm_get i (events s)")
  case (Some r)
  then have "ev_id (er_event r) = i" using assms by (auto simp: store_ok_def dest!: jm_get_SomeD)
  then show ?thesis using assms Some
    by (auto simp: mark_outcome_def store_ok_def intro!: jm_ok_set dest!: jm_set_mem)
qed (use assms in \<open>simp add: mark_outcome_def\<close>)

lemma store_ok_upsert [inv_intros]:
  assumes "store_ok s"
  shows "store_ok (upsert_rejection i why d t s)"
  using assms
  by (cases "jm_get i (rejected_events s)")
    (auto simp: upsert_rejection_def Let_def store_ok_def intro!: jm_ok_set dest!: jm_set_mem)

lemma store_ok_delete [inv_intros]: "store_ok s \<Longrightarrow> store_ok (snd (delete_rejection i s))"
  by (auto simp: delete_rejection_def store_ok_def set_jm_del intro: jm_ok_del)

lemma jm_ok_filter: "jm_ok m \<Longrightarrow> jm_ok (filter p m)"
  by (simp add: jm_ok_def distinct_map_filter)

lemma store_ok_vacuum [inv_intros]: "store_ok s \<Longrightarrow> store_ok (snd (vacuum t x s))"
  by (auto simp: vacuum_def Let_def store_ok_def jm_ok_filter)

lemma store_ok_erase [inv_intros]: "store_ok s \<Longrightarrow> store_ok (snd (erase_by_platform_user u s))"
  by (auto simp: erase_by_platform_user_def Let_def store_ok_def jm_ok_filter)

section \<open>Properties\<close>

text \<open>An event's row in the rejection table is the summary of its rejections since it was last cleared: their number,
  the time of the first and of the last, and the reason and details of the last, however rejections of other events
  are interleaved.\<close>

lemma rejection_row_summarises:
  "get_rejection i (ledger.ledger_run ops (create_event_store r)) = ledger.summary (ledger.since_clear i ops [])"
  by (rule ledger.ledger_from) (simp add: create_event_store_def get_rejection_def ledger.summary_def)

lemma hd_sort_key_min: "sort_key f xs = y # ys \<Longrightarrow> y \<in> set xs \<and> (\<forall>x \<in> set xs. f y \<le> f x)"
proof -
  assume a: "sort_key f xs = y # ys"
  have "sorted (map f (sort_key f xs))" by simp
  then show ?thesis using a by (metis list.set_intros(1) list.simps(9) set_ConsD set_sort sorted_simps(2) dual_order.refl
    image_eqI list.set_map)
qed

text \<open>A row that makes an event a duplicate by its idempotency key.\<close>

definition key_dup :: "int \<Rightarrow> agent_event \<Rightarrow> int \<Rightarrow> event_record \<Rightarrow> bool" where
  "key_dup now e window r \<longleftrightarrow> (case ev_idem_key e of None \<Rightarrow> False
     | Some key \<Rightarrow> key \<noteq> [] \<and> key_matches key (source_type (ev_source e)) (now - window) r)"

abbreviation rows :: "event_store \<Rightarrow> event_record set" where
  "rows s \<equiv> snd ` set (events s)"

lemma row_by_id:
  assumes "store_ok s"
  shows "jm_get i (events s) = Some r \<longleftrightarrow> r \<in> rows s \<and> ev_id (er_event r) = i"
proof -
  have id: "(j, q) \<in> set (events s) \<Longrightarrow> ev_id (er_event q) = j" for j q using assms by (auto simp: store_ok_def)
  have "jm_get i (events s) = Some r \<longleftrightarrow> (i, r) \<in> set (events s)"
    using assms by (simp add: store_ok_def jm_get_iff)
  then show ?thesis using id by force
qed

lemma no_row_by_id: "store_ok s \<Longrightarrow> jm_get i (events s) = None \<longleftrightarrow> (\<forall>r \<in> rows s. ev_id (er_event r) \<noteq> i)"
  using row_by_id [of s i] by (cases "jm_get i (events s)") auto

text \<open>Duplicate detection: nothing is reported exactly when no row has the event's id and no row in the window has its
  (non-empty) idempotency key and source type; otherwise the row with its id is reported, and without one the earliest
  of the rows with its key.\<close>

lemma find_duplicate_correct:
  assumes "store_ok s"
  shows "case find_duplicate now e window s of
      None \<Rightarrow> \<forall>r \<in> rows s. ev_id (er_event r) \<noteq> ev_id e \<and> \<not> key_dup now e window r
    | Some r \<Rightarrow> r \<in> rows s \<and>
        (ev_id (er_event r) = ev_id e \<or>
         key_dup now e window r \<and>
         (\<forall>q \<in> rows s. ev_id (er_event q) \<noteq> ev_id e \<and> (key_dup now e window q \<longrightarrow> row_ts r \<le> row_ts q)))"
proof (cases "jm_get (ev_id e) (events s)")
  case (Some r)
  then show ?thesis using row_by_id [OF assms, of "ev_id e" r] by (simp add: find_duplicate_def)
next
  case None
  note none = None [unfolded no_row_by_id [OF assms]]
  show ?thesis
  proof (cases "nonempty_opt (ev_idem_key e)")
    case False
    then have "find_duplicate now e window s = None" using None by (auto simp: find_duplicate_def split: option.split)
    moreover have "\<not> key_dup now e window r" for r using False by (auto simp: key_dup_def split: option.split)
    ultimately show ?thesis using none by simp
  next
    case True
    then obtain key where key: "ev_idem_key e = Some key" "key \<noteq> []" by (auto simp: nonempty_opt_iff)
    let ?rs = "filter (key_matches key (source_type (ev_source e)) (now - window)) (map snd (events s))"
    have rs: "set ?rs = {r \<in> rows s. key_dup now e window r}" using key by (auto simp: key_dup_def)
    have fd: "find_duplicate now e window s = (case sort_key row_ts ?rs of [] \<Rightarrow> None | r # _ \<Rightarrow> Some r)"
      using None key by (simp add: find_duplicate_def)
    show ?thesis
    proof (cases "sort_key row_ts ?rs")
      case Nil
      then have "set ?rs = {}" by (metis set_sort list.set(1))
      then have "{r \<in> rows s. key_dup now e window r} = {}" by (simp only: rs)
      then show ?thesis using none Nil fd by auto
    next
      case (Cons y ys)
      then show ?thesis using none fd hd_sort_key_min [OF Cons] unfolding rs by simp
    qed
  qed
qed

definition stored_event :: "string \<Rightarrow> string option \<Rightarrow> int \<Rightarrow> agent_event" where
  "stored_event i key t = \<lparr>ev_id = i, ev_source = SWebhook ''hook'' None, ev_target = TBroadcast, ev_kind = Webhook_received,
     ev_timestamp = t, ev_payload = JNull, ev_auth = AInternal,
     ev_meta = Some (empty_meta\<lparr>idempotency_key := key\<rparr>)\<rparr>"

definition sample_store :: event_store where
  "sample_store = (create_event_store None)\<lparr>events :=
     [(''a'', \<lparr>er_event = stored_event ''a'' (Some ''k'') 5, recorded_at = 5, er_outcome = None, er_outcome_at = None\<rparr>)]\<rparr>"

text \<open>Erasing a platform user removes exactly the events whose principal it is, and exactly the rejection rows of those
  events, and returns how many events it removed.\<close>

lemma erase_exact:
  assumes "store_ok s" and "erase_by_platform_user u s = (n, s')"
  shows "events s' = filter (\<lambda>(i, r). ev_subject (er_event r) \<noteq> Some u) (events s) \<and>
    rejected_events s' = filter (\<lambda>(i, q). \<not> (\<exists>r \<in> rows s. ev_id (er_event r) = i \<and> ev_subject (er_event r) = Some u))
                           (rejected_events s) \<and>
    n = length (events s) - length (events s') \<and> (\<forall>r \<in> rows s'. ev_subject (er_event r) \<noteq> Some u)"
proof -
  let ?ids = "map fst (filter (\<lambda>(i, r). ev_subject (er_event r) = Some u) (events s))"
  have key: "(j, q) \<in> set (events s) \<Longrightarrow> ev_id (er_event q) = j" for j q using assms(1) by (auto simp: store_ok_def)
  have mem: "i \<in> set ?ids \<longleftrightarrow> (\<exists>r. (i, r) \<in> set (events s) \<and> ev_subject (er_event r) = Some u)" for i by force
  have ids: "i \<in> set ?ids \<longleftrightarrow> (\<exists>r \<in> rows s. ev_id (er_event r) = i \<and> ev_subject (er_event r) = Some u)" for i
    unfolding mem using key by force
  have own: "i \<in> set ?ids \<longleftrightarrow> ev_subject (er_event r) = Some u" if "(i, r) \<in> set (events s)" for i r
    unfolding mem using that assms(1) jm_get_iff [of "events s" i] unfolding store_ok_def by (metis option.inject)
  have ev: "filter (\<lambda>(i, r). i \<notin> set ?ids) (events s) = filter (\<lambda>(i, r). ev_subject (er_event r) \<noteq> Some u) (events s)"
    by (intro filter_cong refl) (use own in blast)
  have len: "length (filter (\<lambda>(i, r). i \<in> set ?ids) (events s)) =
      length (events s) - length (filter (\<lambda>(i, r). i \<notin> set ?ids) (events s))"
    using sum_length_filter_compl [of "\<lambda>(i, r). i \<in> set ?ids" "events s"]
    by (simp only: case_prod_beta')
  have rej: "filter (\<lambda>(i, q). i \<notin> set ?ids) (rejected_events s) = filter (\<lambda>(i, q). \<not> (\<exists>r \<in> rows s.
      ev_id (er_event r) = i \<and> ev_subject (er_event r) = Some u)) (rejected_events s)"
    by (simp only: ids)
  have gone: "\<forall>r \<in> snd ` set (filter (\<lambda>(i, r). ev_subject (er_event r) \<noteq> Some u) (events s)).
      ev_subject (er_event r) \<noteq> Some u"
    by auto
  have "events s' = filter (\<lambda>(i, r). i \<notin> set ?ids) (events s) \<and>
      rejected_events s' = filter (\<lambda>(i, q). i \<notin> set ?ids) (rejected_events s) \<and>
      n = length (filter (\<lambda>(i, r). i \<in> set ?ids) (events s))"
  proof (cases "?ids = []")
    case True
    then show ?thesis using assms(2) unfolding erase_by_platform_user_def Let_def True by simp
  next
    case False
    define es where "es = filter (\<lambda>(i, r). i \<notin> set ?ids) (events s)"
    define rs where "rs = filter (\<lambda>(i, q). i \<notin> set ?ids) (rejected_events s)"
    define k where "k = length (filter (\<lambda>(i, r). i \<in> set ?ids) (events s))"
    have "erase_by_platform_user u s = (k, s\<lparr>rejected_events := rs, events := es\<rparr>)"
      using False unfolding erase_by_platform_user_def Let_def es_def rs_def k_def by (simp only: if_False)
    then have "n = k" "s' = s\<lparr>rejected_events := rs, events := es\<rparr>" using assms(2) by simp_all
    then have "events s' = es \<and> rejected_events s' = rs \<and> n = k" by simp
    then show ?thesis unfolding es_def rs_def k_def .
  qed
  then have a: "events s' = filter (\<lambda>(i, r). i \<notin> set ?ids) (events s)"
    "rejected_events s' = filter (\<lambda>(i, q). i \<notin> set ?ids) (rejected_events s)"
    "n = length (filter (\<lambda>(i, r). i \<in> set ?ids) (events s))" by blast+
  show ?thesis unfolding a(2) rej unfolding a(1,3) len unfolding ev using gone by blast
qed

end
