(* ===== verification/Skills.thy ===== *)
theory Skills imports Framing JsonPath begin

text \<open>
  Skill invocation: the prompt templates of \<^verbatim>\<open>core/src/skills/template.ts\<close> and \<^verbatim>\<open>core/src/skills/runner.ts\<close>. The engine
  entry \<^verbatim>\<open>runAgent\<close>, the hooks and the session factory are arguments, as they are in the code; each call of \<^verbatim>\<open>runAgent\<close>
  and of \<^verbatim>\<open>updateSpec\<close> is logged. Shown: what a rendered prompt is, and that an invocation that fails before its turn
  runs nothing.
\<close>

section \<open>Templates\<close>

definition start_char :: "char \<Rightarrow> bool" where
  "start_char c \<longleftrightarrow> is_alpha c \<or> c = CHR ''$''"

definition path_char :: "char \<Rightarrow> bool" where
  "path_char c \<longleftrightarrow> is_word c \<or> c = CHR ''$'' \<or> c = CHR ''.''"

text \<open>A match of \<^verbatim>\<open>PLACEHOLDER\<close> at the front: its path and the rest. The classes of its parts are disjoint, so there is only
  one way to match.\<close>

definition match_placeholder :: "string \<Rightarrow> (string \<times> string) option" where
  "match_placeholder s =
     (if is_prefix_of ''{{'' s then
        (case dropWhile is_space (drop 2 s) of
           [] \<Rightarrow> None
         | c # r \<Rightarrow>
             if start_char c then
               (let r2 = dropWhile is_space (dropWhile path_char r)
                in if is_prefix_of ''}}'' r2 then Some (c # takeWhile path_char r, drop 2 r2) else None)
             else None)
      else None)"

lemma is_prefix_of_length: "is_prefix_of p s \<Longrightarrow> length p \<le> length s"
  by (induction p s rule: is_prefix_of.induct) auto

lemma match_placeholder_shorter:
  assumes "match_placeholder s = Some (p, r)"
  shows "length r < length s"
proof -
  from assms obtain c q where q: "is_prefix_of ''{{'' s" "dropWhile is_space (drop 2 s) = c # q"
    "r = drop 2 (dropWhile is_space (dropWhile path_char q))"
    by (auto simp: match_placeholder_def Let_def split: list.splits if_splits)
  have "length (c # q) \<le> length (drop 2 s)" using q(2) length_dropWhile_le by metis
  moreover have "length r \<le> length q"
    using q(3) length_dropWhile_le [of is_space "dropWhile path_char q"] length_dropWhile_le [of path_char q] by simp
  ultimately show ?thesis by simp
qed

text \<open>The template as text and placeholders (with their literal text): the matches of the global regular expression.\<close>

datatype piece = Text char | Hole (literal: string) (var_path: string)

function pieces :: "string \<Rightarrow> piece list" where
  "pieces s =
     (case s of
        [] \<Rightarrow> []
      | c # cs \<Rightarrow>
          (case match_placeholder s of
             Some (p, r) \<Rightarrow> Hole (take (length s - length r) s) p # pieces r
           | None \<Rightarrow> Text c # pieces cs))"
  by pat_completeness auto
termination by (relation "measure length") (auto dest: match_placeholder_shorter)

declare pieces.simps [simp del]

fun split_dots :: "string \<Rightarrow> string \<Rightarrow> string list" where
  "split_dots w [] = [w]"
| "split_dots w (c # s) = (if c = CHR ''.'' then w # split_dots [] s else split_dots (w @ [c]) s)"

fun walk :: "(js \<Rightarrow> string \<Rightarrow> js) \<Rightarrow> js \<Rightarrow> string list \<Rightarrow> js" where
  "walk proto v [] = v"
| "walk proto v (k # ks) =
     (case v of
        JObj _ \<Rightarrow> (let w = get_key proto v k in if w = JUndef then JUndef else walk proto w ks)
      | JArr _ \<Rightarrow> (let w = get_key proto v k in if w = JUndef then JUndef else walk proto w ks)
      | _ \<Rightarrow> JUndef)"

definition resolve_path :: "(js \<Rightarrow> string \<Rightarrow> js) \<Rightarrow> (string \<times> js) list \<Rightarrow> string \<Rightarrow> js" where
  "resolve_path proto vars p = walk proto (JObj vars) (split_dots [] p)"

definition stringify :: "(rat \<Rightarrow> string) \<Rightarrow> js \<Rightarrow> string" where
  "stringify num v =
     (case v of
        JStr s \<Rightarrow> s
      | _ \<Rightarrow> (case json_text num v of None \<Rightarrow> [] | Some t \<Rightarrow> t))"

datatype on_missing = MThrow | MEmpty | MPreserve

text \<open>The value a match is replaced by, and the paths recorded as missing.\<close>

definition fill :: "(rat \<Rightarrow> string) \<Rightarrow> (string \<Rightarrow> js) \<Rightarrow> on_missing \<Rightarrow> piece \<Rightarrow> string" where
  "fill num lookup om p =
     (case p of
        Text c \<Rightarrow> [c]
      | Hole l q \<Rightarrow> if lookup q = JUndef then (if om = MEmpty then [] else l) else stringify num (lookup q))"

fun missing_of :: "(string \<Rightarrow> js) \<Rightarrow> piece list \<Rightarrow> string list" where
  "missing_of lookup [] = []"
| "missing_of lookup (Text c # ps) = missing_of lookup ps"
| "missing_of lookup (Hole l q # ps) = (if lookup q = JUndef then q # missing_of lookup ps else missing_of lookup ps)"

definition interpolate :: "(rat \<Rightarrow> string) \<Rightarrow> (js \<Rightarrow> string \<Rightarrow> js) \<Rightarrow> string \<Rightarrow> (string \<times> js) list \<Rightarrow> on_missing \<Rightarrow>
    string list + string" where
  "interpolate num proto tpl vars om =
     (let lookup = resolve_path proto vars; ps = pieces tpl;
          missing = (if om = MThrow then missing_of lookup ps else [])
      in if missing \<noteq> [] then Inl (uniq missing) else Inr (concat (map (fill num lookup om) ps)))"

section \<open>Running a skill\<close>

record skill =
  lookup_name :: string
  skill_prompt :: string
  skill_model :: "string option"

definition lookup_skill :: "skill list \<Rightarrow> string \<Rightarrow> skill option" where
  "lookup_skill reg n = find (\<lambda>s. lookup_name s = n) reg"

record turn =
  turn_session :: string
  turn_message :: string
  turn_depth :: nat
  turn_caused_by :: "string option"
  turn_subject :: "string option"

record effects =
  turns :: "turn list"
  spec_updates :: "(string \<times> string) list"

datatype skill_error =
    Skill_not_found string
  | Template_error "string list"
  | Hook_failed string
  | Child_failed string
  | Agent_failed string

type_synonym vars = "(string \<times> js) list"

text \<open>\<^verbatim>\<open>skill.before\<close> may replace the inputs; \<^verbatim>\<open>skill.after\<close> may only fail.\<close>

record skill_hooks =
  skill_before :: "string \<Rightarrow> vars \<Rightarrow> string + vars option"
  skill_after :: "string \<Rightarrow> vars \<Rightarrow> js \<Rightarrow> string option"

definition run_skill ::
  "(rat \<Rightarrow> string) \<Rightarrow> (js \<Rightarrow> string \<Rightarrow> js) \<Rightarrow> skill list \<Rightarrow> skill_hooks option \<Rightarrow> (turn \<Rightarrow> string + js) \<Rightarrow>
   (string + string) \<Rightarrow> nat \<Rightarrow> string \<Rightarrow> vars \<Rightarrow> effects \<Rightarrow> (skill_error + js) \<times> effects" where
  "run_skill num proto reg hooks agent child depth n inputs0 fx =
     (case lookup_skill reg n of
        None \<Rightarrow> (Inl (Skill_not_found n), fx)
      | Some sk \<Rightarrow>
          (case (case hooks of None \<Rightarrow> Inr inputs0
                 | Some h \<Rightarrow> (case skill_before h (lookup_name sk) inputs0 of
                                Inl err \<Rightarrow> Inl err | Inr None \<Rightarrow> Inr inputs0 | Inr (Some ins) \<Rightarrow> Inr ins)) of
             Inl err \<Rightarrow> (Inl (Hook_failed err), fx)
           | Inr ins \<Rightarrow>
               (case interpolate num proto (skill_prompt sk) ins MThrow of
                  Inl miss \<Rightarrow> (Inl (Template_error miss), fx)
                | Inr rendered \<Rightarrow>
                    (case child of
                       Inl err \<Rightarrow> (Inl (Child_failed err), fx)
                     | Inr c \<Rightarrow>
                         (let fx1 = (case skill_model sk of
                                Some m \<Rightarrow> if m \<noteq> [] then fx\<lparr>spec_updates := spec_updates fx @ [(c, m)]\<rparr> else fx
                              | None \<Rightarrow> fx);
                              t = \<lparr>turn_session = c, turn_message = rendered, turn_depth = depth + 1,
                                   turn_caused_by = Some (''skill:'' @ lookup_name sk), turn_subject = None\<rparr>;
                              fx2 = fx1\<lparr>turns := turns fx1 @ [t]\<rparr>
                          in case agent t of
                               Inl err \<Rightarrow> (Inl (Agent_failed err), fx2)
                             | Inr res \<Rightarrow>
                                 (case hooks of
                                    None \<Rightarrow> (Inr res, fx2)
                                  | Some h \<Rightarrow> (case skill_after h (lookup_name sk) ins res of
                                                Some err \<Rightarrow> (Inl (Hook_failed err), fx2)
                                              | None \<Rightarrow> (Inr res, fx2))))))))"

section \<open>Properties\<close>

fun piece_text :: "piece \<Rightarrow> string" where
  "piece_text (Text c) = [c]"
| "piece_text (Hole l p) = l"

lemma match_placeholder_suffix: "match_placeholder s = Some (p, r) \<Longrightarrow> \<exists>a. s = a @ r"
proof -
  have dw: "\<exists>a. s = a @ dropWhile P s" for P and s :: string by (metis takeWhile_dropWhile_id)
  have dr: "\<exists>a. s = a @ drop n s" for n and s :: string by (metis append_take_drop_id)
  assume "match_placeholder s = Some (p, r)"
  then obtain c q where q: "dropWhile is_space (drop 2 s) = c # q"
    "r = drop 2 (dropWhile is_space (dropWhile path_char q))"
    by (auto simp: match_placeholder_def Let_def split: list.splits if_splits)
  obtain a1 a2 where "s = a1 @ a2 @ c # q" using dr [of s 2] dw [of "drop 2 s" is_space] q(1) by metis
  moreover obtain b1 b2 b3 where "q = b1 @ b2 @ b3 @ r" unfolding q(2)
    using dw [of q path_char] dw [of "dropWhile path_char q" is_space]
      dr [of "dropWhile is_space (dropWhile path_char q)" 2] by metis
  ultimately show ?thesis by (metis append.assoc append_Cons)
qed

lemma pieces_lossless: "concat (map piece_text (pieces s)) = s"
proof (induction s rule: pieces.induct)
  case (1 s)
  show ?case
  proof (cases s)
    case (Cons c cs)
    show ?thesis
    proof (cases "match_placeholder s")
      case None
      then show ?thesis using 1 Cons None by (simp add: pieces.simps [of "c # cs"])
    next
      case (Some pr)
      obtain p r where pr: "pr = (p, r)" by (cases pr)
      obtain a where a: "s = a @ r" using match_placeholder_suffix Some pr by blast
      have "concat (map piece_text (pieces r)) = r" using 1 Cons Some pr by simp
      moreover have "pieces s = Hole (take (length s - length r) s) p # pieces r"
        using Cons Some pr by (simp add: pieces.simps [of "c # cs"])
      ultimately show ?thesis using a by simp
    qed
  qed (simp add: pieces.simps)
qed

lemma missing_set: "set (missing_of lookup ps) = {q. lookup q = JUndef \<and> (\<exists>l. Hole l q \<in> set ps)}"
  by (induction lookup ps rule: missing_of.induct) auto

text \<open>Rendering a prompt is all or nothing: it fails exactly when some placeholder is undefined, naming each undefined
  path once, and otherwise keeps every character outside the placeholders and puts the value's text in the place of
  each placeholder; the pieces it works on are the whole template.\<close>

lemma interpolation_complete:
  "concat (map piece_text (pieces tpl)) = tpl \<and>
   (case interpolate num proto tpl vars MThrow of
      Inl miss \<Rightarrow> distinct miss \<and> miss \<noteq> [] \<and>
        set miss = {q. resolve_path proto vars q = JUndef \<and> (\<exists>l. Hole l q \<in> set (pieces tpl))}
    | Inr s \<Rightarrow> {q. resolve_path proto vars q = JUndef \<and> (\<exists>l. Hole l q \<in> set (pieces tpl))} = {} \<and>
        s = concat (map (\<lambda>p. case p of Text c \<Rightarrow> [c] | Hole l q \<Rightarrow> stringify num (resolve_path proto vars q)) (pieces tpl)))"
proof -
  let ?m = "missing_of (resolve_path proto vars) (pieces tpl)"
  show ?thesis
  proof (cases "?m = []")
    case False
    then have "uniq ?m \<noteq> []" by (cases ?m) auto
    with False show ?thesis using missing_set [of "resolve_path proto vars" "pieces tpl"] distinct_uniq [of ?m]
      by (simp add: interpolate_def Let_def pieces_lossless)
  next
    case True
    then have def_: "\<forall>l q. Hole l q \<in> set (pieces tpl) \<longrightarrow> resolve_path proto vars q \<noteq> JUndef"
      using missing_set [of "resolve_path proto vars" "pieces tpl"] by auto
    then have "concat (map (fill num (resolve_path proto vars) MThrow) (pieces tpl)) =
        concat (map (\<lambda>p. case p of Text c \<Rightarrow> [c] | Hole l q \<Rightarrow> stringify num (resolve_path proto vars q)) (pieces tpl))"
      by (intro arg_cong [where f = concat] map_cong) (auto simp: fill_def split: piece.splits)
    moreover have "interpolate num proto tpl vars MThrow =
        Inr (concat (map (fill num (resolve_path proto vars) MThrow) (pieces tpl)))"
      using True by (simp add: interpolate_def Let_def)
    moreover have "{q. resolve_path proto vars q = JUndef \<and> (\<exists>l. Hole l q \<in> set (pieces tpl))} = {}" using def_ by blast
    ultimately show ?thesis using pieces_lossless by (simp only: sum.case)
  qed
qed

lemma run_skill_turns:
  assumes "run_skill num proto reg hooks agent child depth n ins fx = (res, fx')"
  shows "turns fx' = turns fx \<and> (\<exists>e. res = Inl e \<and> (\<forall>m. e \<noteq> Agent_failed m)) \<or>
    (\<exists>t c. turns fx' = turns fx @ [t] \<and> child = Inr c \<and> turn_session t = c \<and> turn_depth t = depth + 1 \<and>
       turn_subject t = None \<and> (\<forall>x. res = Inr x \<longrightarrow> agent t = Inr x))"
  using assms by (auto simp: run_skill_def Let_def split: option.splits sum.splits if_splits)

end
