(* ===== verification/Dispatcher.thy ===== *)
theory Dispatcher imports CircuitBreaker RateLimiter Caches EventStore Skills begin

text \<open>
  The event dispatcher of \<^verbatim>\<open>core/src/events/dispatcher.ts\<close>: the stages of \<^verbatim>\<open>handleInternal\<close> (\<^verbatim>\<open>event.before\<close> hook,
  duplicate check, loop check, rate limit, routing by target, outcome ledger, \<^verbatim>\<open>event.after\<close> hook) over the state it
  keeps: the idempotency cache, the store, the rate limiter and the circuit breakers. What the host supplies (session
  factories, hooks, \<^verbatim>\<open>runAgent\<close>, the set of skills) is the record \<open>env\<close>; a call of it that throws is a left value.

  The duplicate check is two steps, \<open>dedup_check\<close> and \<open>dedup_commit\<close>, because the code suspends between them when there is
  a store. A dispatch otherwise runs in one piece here with one clock value; the queue per session and the set of
  dispatches in flight order and count dispatches, they do not change any, and are left out.

  Shown: what the loop check decides; that a repeated event is a duplicate; that two overlapping dispatches of one event are
  both routed; that every outcome is recorded; and that a skill turn does not carry its end user.
\<close>

section \<open>Environment and state\<close>

datatype before_result = Pass | Drop | Rewrite agent_event | Before_throws string

datatype child_result = Sync_child string | Async_child "string + string" | Child_throws string

record env =
  hooks_present :: bool
  before_hook :: "agent_event \<Rightarrow> before_result"
  after_hook :: "agent_event \<Rightarrow> dispatch_outcome \<Rightarrow> string option"
  env_skill_hooks :: skill_hooks
  env_skills :: "skill list"
  agent :: "turn \<Rightarrow> string + js"
  resolve_session :: "(string \<Rightarrow> string + string option) option"
  create_session :: "(js option \<Rightarrow> string + string) option"
  create_child_session :: "(string \<Rightarrow> js option \<Rightarrow> child_result) option"
  resolve_session_by_key :: "(string \<Rightarrow> string + string option) option"
  create_session_for_key :: "(string \<Rightarrow> string + string) option"
  num_text :: "rat \<Rightarrow> string"
  proto_of :: "js \<Rightarrow> string \<Rightarrow> js"
  depth_limit :: int
  dedup_window :: int

datatype lookup_source = No_lookup | Custom_lookup "string \<Rightarrow> agent_event option" | Bus_lookup

record dispatcher =
  d_idem :: idem_cache
  d_store :: "event_store option"
  d_limiter :: "limiter option"
  d_breakers :: "(string, breaker) jmap"
  d_lookup :: lookup_source
  d_attached :: bool
  d_effects :: effects
  d_after :: "(agent_event \<times> dispatch_outcome) list"

definition create_dispatcher :: "int option \<Rightarrow> int option \<Rightarrow> event_store option \<Rightarrow> rate_rule list \<Rightarrow>
    (string, breaker) jmap \<Rightarrow> (string \<Rightarrow> agent_event option) option \<Rightarrow> dispatcher" where
  "create_dispatcher n ttl st rl_rules brs look =
     \<lparr>d_idem = create_idem_cache (max 1 (case n of None \<Rightarrow> 10000 | Some k \<Rightarrow> k))
                                (case ttl of None \<Rightarrow> 10 * 60 * 1000 | Some t \<Rightarrow> t),
      d_store = st, d_limiter = (if rl_rules \<noteq> [] then Some (create_limiter rl_rules) else None),
      d_breakers = brs, d_lookup = (case look of None \<Rightarrow> No_lookup | Some f \<Rightarrow> Custom_lookup f), d_attached = False,
      d_effects = \<lparr>turns = [], spec_updates = []\<rparr>, d_after = []\<rparr>"

text \<open>\<^verbatim>\<open>attach(bus)\<close>: without a lookup of the host's own, the bus becomes the first place to look.\<close>

definition attach :: "dispatcher \<Rightarrow> dispatcher" where
  "attach d = d\<lparr>d_attached := True, d_lookup := (case d_lookup d of No_lookup \<Rightarrow> Bus_lookup | l \<Rightarrow> l)\<rparr>"

definition detach :: "dispatcher \<Rightarrow> dispatcher" where
  "detach d = d\<lparr>d_attached := False\<rparr>"

section \<open>Ancestors\<close>

definition recent_by_id :: "agent_event list \<Rightarrow> string \<Rightarrow> agent_event option" where
  "recent_by_id recent i = find (\<lambda>e. ev_id e = i) recent"

definition lookup_ancestor :: "agent_event list \<Rightarrow> dispatcher \<Rightarrow> string \<Rightarrow> agent_event option" where
  "lookup_ancestor recent d i =
     (case (case d_lookup d of No_lookup \<Rightarrow> None | Custom_lookup f \<Rightarrow> f i | Bus_lookup \<Rightarrow> recent_by_id recent i) of
        Some e \<Rightarrow> Some e
      | None \<Rightarrow>
          (case Option.bind (d_store d) (store_get i) of
             Some r \<Rightarrow> Some (er_event r)
           | None \<Rightarrow> if d_attached d then recent_by_id recent i else None))"

text \<open>The \<^verbatim>\<open>while\<close> loop of \<^verbatim>\<open>detectLoop\<close>; the first argument counts \<^verbatim>\<open>depthLimit - depth\<close>.\<close>

fun walk_causes :: "nat \<Rightarrow> (string \<Rightarrow> agent_event option) \<Rightarrow> string \<Rightarrow> string list \<Rightarrow> string option \<Rightarrow> bool" where
  "walk_causes 0 lk cur visited anc = False"
| "walk_causes (Suc n) lk cur visited anc =
     (case anc of
        None \<Rightarrow> False
      | Some a \<Rightarrow>
          if a = [] then False
          else if a \<in> set visited then True
          else case lk a of
                 None \<Rightarrow> False
               | Some e \<Rightarrow> if get_trigger_id (ev_source e) = Some cur then True
                          else walk_causes n lk cur (a # visited) (ev_caused_by e))"

definition detect_loop :: "env \<Rightarrow> agent_event list \<Rightarrow> dispatcher \<Rightarrow> agent_event \<Rightarrow> bool" where
  "detect_loop env recent d e =
     (case get_trigger_id (ev_source e) of
        None \<Rightarrow> False
      | Some cur \<Rightarrow> if cur = [] then False
                    else walk_causes (nat (depth_limit env)) (lookup_ancestor recent d) cur [] (ev_caused_by e))"

section \<open>Routing\<close>

definition quoted :: "string \<Rightarrow> string" where
  "quoted s = [CHR 0x22] @ s @ [CHR 0x22]"

definition rejected :: "reject_reason \<Rightarrow> string \<Rightarrow> dispatch_outcome" where
  "rejected why details = Rejected why (Some details)"

definition dispatched :: "string \<Rightarrow> dispatch_outcome" where
  "dispatched session = Dispatched session None"

type_synonym routed = "(string + dispatch_outcome) \<times> dispatcher"

text \<open>A turn that runs the framed event in a session, after an optional prompt.\<close>

definition run_event :: "env \<Rightarrow> agent_event \<Rightarrow> string \<Rightarrow> string \<Rightarrow> nat \<Rightarrow> dispatcher \<Rightarrow> (string + js) \<times> dispatcher" where
  "run_event env e session prompt depth d =
     (case frame_event (num_text env) e of
        Inl _ \<Rightarrow> (Inl ''TypeError'', d)
      | Inr f \<Rightarrow>
          (let t = \<lparr>turn_session = session, turn_message = (if prompt \<noteq> [] then prompt @ [CHR 0x0A, CHR 0x0A] @ f else f),
                    turn_depth = depth, turn_caused_by = ev_caused_by e, turn_subject = ev_subject e\<rparr>
           in (agent env t, d\<lparr>d_effects := (d_effects d)\<lparr>turns := turns (d_effects d) @ [t]\<rparr>\<rparr>)))"

definition dispatch_turn :: "env \<Rightarrow> agent_event \<Rightarrow> string \<Rightarrow> string \<Rightarrow> nat \<Rightarrow> dispatcher \<Rightarrow> routed" where
  "dispatch_turn env e session prompt depth d =
     (case run_event env e session prompt depth d of
        (Inl err, d1) \<Rightarrow> (Inl err, d1)
      | (Inr _, d1) \<Rightarrow> (Inr (dispatched session), d1))"

fun state_text :: "cb_state \<Rightarrow> string" where
  "state_text Closed = ''closed''"
| "state_text Open = ''open''"
| "state_text HalfOpen = ''half-open''"

text \<open>The breaker of a target: asked first, and told how the call went.\<close>

definition gated :: "int \<Rightarrow> string \<Rightarrow> (dispatcher \<Rightarrow> routed) \<Rightarrow> dispatcher \<Rightarrow> routed" where
  "gated now name f d =
     (case jm_get name (d_breakers d) of
        None \<Rightarrow> f d
      | Some b \<Rightarrow>
          (case cb_allow now b of
             (False, b1) \<Rightarrow>
               (case cb_state_of now b1 of
                  (s, b2) \<Rightarrow> (Inr (rejected Circuit_open (''skill '' @ quoted name @ '' breaker is '' @ state_text s @
                                ''; cooldown in progress'')),
                              d\<lparr>d_breakers := jm_set name b2 (d_breakers d)\<rparr>))
           | (True, b1) \<Rightarrow>
               (case f (d\<lparr>d_breakers := jm_set name b1 (d_breakers d)\<rparr>) of
                  (r, d2) \<Rightarrow>
                    (r, d2\<lparr>d_breakers := (case jm_get name (d_breakers d2) of
                              None \<Rightarrow> d_breakers d2
                            | Some b2 \<Rightarrow> jm_set name (cb_record now (case r of Inl _ \<Rightarrow> False | Inr _ \<Rightarrow> True) b2)
                                                 (d_breakers d2))\<rparr>))))"

definition run_skill_target :: "env \<Rightarrow> agent_event \<Rightarrow> string \<Rightarrow> vars \<Rightarrow> (string \<Rightarrow> js option \<Rightarrow> child_result) \<Rightarrow>
    dispatcher \<Rightarrow> routed" where
  "run_skill_target env e name ins mk d =
     (let parent = (case origin_session_id (ev_source e) of Some p \<Rightarrow> p | None \<Rightarrow> ''__event:'' @ ev_id e)
      in case frame_event (num_text env) e of
           Inl _ \<Rightarrow> (Inl ''TypeError'', d)
         | Inr f \<Rightarrow>
             (case run_skill (num_text env) (proto_of env) (env_skills env)
                     (if hooks_present env then Some (env_skill_hooks env) else None) (agent env)
                     (case mk parent None of
                        Sync_child c \<Rightarrow> Inr c
                      | Async_child _ \<Rightarrow>
                          Inl ''createChildSession must return a SessionHandle synchronously for skill routing''
                      | Child_throws m \<Rightarrow> Inl m)
                     0 name (jm_set ''__event'' (JStr f) ins) (d_effects d) of
                (Inl err, fx) \<Rightarrow> (Inl (case err of
                     Skill_not_found n \<Rightarrow> ''skill '' @ quoted n @ '' not found''
                   | Template_error miss \<Rightarrow> ''template references undefined variable(s): '' @ join '', '' miss
                   | Hook_failed m \<Rightarrow> m | Child_failed m \<Rightarrow> m | Agent_failed m \<Rightarrow> m), d\<lparr>d_effects := fx\<rparr>)
              | (Inr _, fx) \<Rightarrow> (Inr (dispatched parent), d\<lparr>d_effects := fx\<rparr>)))"

text \<open>The path of a skill without a session key.\<close>

definition unpinned_skill :: "env \<Rightarrow> int \<Rightarrow> agent_event \<Rightarrow> string \<Rightarrow> vars \<Rightarrow> dispatcher \<Rightarrow> routed" where
  "unpinned_skill env now e name ins d =
     (case create_child_session env of
        None \<Rightarrow> (Inr (rejected No_handler ''createChildSession factory not provided''), d)
      | Some mk \<Rightarrow> gated now name (run_skill_target env e name ins mk) d)"

text \<open>\<^verbatim>\<open>executeTarget\<close>: a left result is an exception, which the caller turns into an \<^verbatim>\<open>invalid\<close> rejection.\<close>

fun execute_target :: "env \<Rightarrow> int \<Rightarrow> agent_event \<Rightarrow> event_target \<Rightarrow> dispatcher \<Rightarrow> routed" where
  "execute_target env now e TBroadcast d = (Inr Broadcast, d)"
| "execute_target env now e (TSession sid m) d =
     (case resolve_session env of
        None \<Rightarrow> (Inr (rejected No_handler ''resolveSession factory not provided''), d)
      | Some f \<Rightarrow>
          (case f sid of
             Inl err \<Rightarrow> (Inl err, d)
           | Inr None \<Rightarrow> (Inr (rejected No_handler (''session '' @ quoted sid @ '' not found'')), d)
           | Inr (Some s) \<Rightarrow> dispatch_turn env e s [] 0 d))"
| "execute_target env now e (TNewSession spc prompt) d =
     (case create_session env of
        None \<Rightarrow> (Inr (rejected No_handler ''createSession factory not provided''), d)
      | Some f \<Rightarrow>
          (case f spc of
             Inl err \<Rightarrow> (Inl err, d)
           | Inr s \<Rightarrow> dispatch_turn env e s prompt 0 d))"
| "execute_target env now e (TSkill name ins key) d =
     (case lookup_skill (env_skills env) name of
        None \<Rightarrow> (Inr (rejected No_handler (''skill '' @ quoted name @ '' not registered'')), d)
      | Some sk \<Rightarrow>
          (case key of
             Some k \<Rightarrow>
               if k \<noteq> [] then
                 (if Option.is_none (resolve_session_by_key env) \<and> Option.is_none (create_session_for_key env)
                  then (Inr (rejected No_handler
                     ''session-pinning factories (resolveSessionByKey / createSessionForKey) not provided''), d)
                  else
                    (case (case resolve_session_by_key env of None \<Rightarrow> Inr None | Some f \<Rightarrow> f k) of
                       Inl err \<Rightarrow> (Inl err, d)
                     | Inr existing \<Rightarrow>
                         (case (case existing of
                                  Some s \<Rightarrow> Inr (Some s)
                                | None \<Rightarrow> (case create_session_for_key env of None \<Rightarrow> Inr None
                                           | Some g \<Rightarrow> (case g k of Inl err \<Rightarrow> Inl err | Inr s \<Rightarrow> Inr (Some s)))) of
                            Inl err \<Rightarrow> (Inl err, d)
                          | Inr None \<Rightarrow> (Inr (rejected No_handler
                              (''pinned session for key '' @ quoted k @ '' could not be resolved or created'')), d)
                          | Inr (Some s) \<Rightarrow> gated now name (dispatch_turn env e s [] 0) d)))
               else unpinned_skill env now e name ins d
           | None \<Rightarrow> unpinned_skill env now e name ins d))"
| "execute_target env now e (TSubAgent parent spc) d =
     (case create_child_session env of
        None \<Rightarrow> (Inr (rejected No_handler ''createChildSession factory not provided''), d)
      | Some f \<Rightarrow>
          (case f parent (Some spc) of
             Child_throws m \<Rightarrow> (Inl m, d)
           | Async_child (Inl m) \<Rightarrow> (Inl m, d)
           | Async_child (Inr c) \<Rightarrow> dispatch_turn env e c [] 1 d
           | Sync_child c \<Rightarrow> dispatch_turn env e c [] 1 d))"

section \<open>The stages\<close>

fun reason_text :: "reject_reason \<Rightarrow> string" where
  "reason_text Rate_limit = ''rate-limit''"
| "reason_text Unauthorized = ''unauthorized''"
| "reason_text No_handler = ''no-handler''"
| "reason_text Loop = ''loop''"
| "reason_text Invalid = ''invalid''"
| "reason_text Circuit_open = ''circuit-open''"
| "reason_text Interrupted = ''interrupted''"

datatype dispatch_fault = Before_failed string | After_failed string | Limiter_failed bucket_error

type_synonym handled = "(dispatch_fault + dispatch_outcome) \<times> dispatcher"

text \<open>Firing \<^verbatim>\<open>event.after\<close> on an early return, where its exception escapes.\<close>

definition fire_after :: "env \<Rightarrow> agent_event \<Rightarrow> dispatch_outcome \<Rightarrow> dispatcher \<Rightarrow> handled" where
  "fire_after env e out d =
     (if hooks_present env then
        (case after_hook env e out of
           Some err \<Rightarrow> (Inl (After_failed err), d\<lparr>d_after := d_after d @ [(e, out)]\<rparr>)
         | None \<Rightarrow> (Inr out, d\<lparr>d_after := d_after d @ [(e, out)]\<rparr>))
      else (Inr out, d))"

text \<open>Stage 2 up to the suspension: what it finds, and what it remembers when the store knows the event.\<close>

definition dedup_check :: "env \<Rightarrow> int \<Rightarrow> agent_event \<Rightarrow> dispatcher \<Rightarrow> dispatch_outcome option \<times> dispatcher" where
  "dedup_check env now e d =
     (case ic_lookup now (ev_id e) (ev_idem_key e) (source_type (ev_source e)) (d_idem d) of
        (Some ts, ic) \<Rightarrow> (Some (Duplicate ts (ev_id e)), d\<lparr>d_idem := ic\<rparr>)
      | (None, ic) \<Rightarrow>
          (let d1 = d\<lparr>d_idem := ic\<rparr>
           in case Option.bind (d_store d1) (find_duplicate now e (dedup_window env)) of
                None \<Rightarrow> (None, d1)
              | Some prior \<Rightarrow>
                  (Some (Duplicate (row_ts prior) (ev_id e)),
                   d1\<lparr>d_idem := ic_remember (ev_id e) (ev_idem_key e) (source_type (ev_source e)) (row_ts prior) ic\<rparr>)))"

text \<open>Stage 2 after it: the event is new. A failing insert is swallowed.\<close>

definition dedup_commit :: "int \<Rightarrow> agent_event \<Rightarrow> dispatcher \<Rightarrow> dispatcher" where
  "dedup_commit now e d =
     (let d1 = d\<lparr>d_idem := ic_remember (ev_id e) (ev_idem_key e) (source_type (ev_source e)) now (d_idem d)\<rparr>
      in case d_store d1 of
           None \<Rightarrow> d1
         | Some s \<Rightarrow> (case record_event now e s of Inl _ \<Rightarrow> d1 | Inr s' \<Rightarrow> d1\<lparr>d_store := Some s'\<rparr>))"

text \<open>The early rejections mark the event and enter it into the dead-letter table.\<close>

definition record_rejection :: "int \<Rightarrow> agent_event \<Rightarrow> reject_reason \<Rightarrow> string \<Rightarrow> dispatcher \<Rightarrow> dispatcher" where
  "record_rejection now e why details d =
     d\<lparr>d_store := map_option (\<lambda>s. upsert_rejection (ev_id e) (reason_text why) (Some details) now
                                   (mark_outcome now (ev_id e) (Rejected why (Some details)) s)) (d_store d)\<rparr>"

text \<open>Stage 5.\<close>

definition persist_outcome :: "int \<Rightarrow> agent_event \<Rightarrow> dispatch_outcome \<Rightarrow> dispatcher \<Rightarrow> dispatcher" where
  "persist_outcome now e out d =
     d\<lparr>d_store := map_option (\<lambda>s.
         let s1 = mark_outcome now (ev_id e) out s
         in case out of
              Rejected why details \<Rightarrow> upsert_rejection (ev_id e) (reason_text why) details now s1
            | Dispatched _ _ \<Rightarrow> snd (delete_rejection (ev_id e) s1)
            | Broadcast \<Rightarrow> snd (delete_rejection (ev_id e) s1)
            | _ \<Rightarrow> s1) (d_store d)\<rparr>"

definition limit_details :: "env \<Rightarrow> event_target \<Rightarrow> rate_rule \<Rightarrow> string" where
  "limit_details env tgt r =
     ''target='' @ target_type tgt @ (case rl_id r of Some i \<Rightarrow> if i \<noteq> [] then '':'' @ i else [] | None \<Rightarrow> []) @
     '' ratePerSec='' @ num_text env (rl_rate r)"

text \<open>Stages 4b to 6.\<close>

definition route :: "env \<Rightarrow> int \<Rightarrow> agent_event \<Rightarrow> dispatcher \<Rightarrow> handled" where
  "route env now e d =
     (case execute_target env now e (ev_target e) d of
        (r, d1) \<Rightarrow>
          (let out = (case r of Inl err \<Rightarrow> Rejected Invalid (Some err) | Inr x \<Rightarrow> x);
               d2 = persist_outcome now e out d1
           in (Inr out, if hooks_present env then d2\<lparr>d_after := d_after d2 @ [(e, out)]\<rparr> else d2)))"

text \<open>Stages 3 and 4a, then the rest.\<close>

definition admit :: "env \<Rightarrow> int \<Rightarrow> agent_event list \<Rightarrow> agent_event \<Rightarrow> dispatcher \<Rightarrow> handled" where
  "admit env now recent e d =
     (if detect_loop env recent d e then
        (let details = ''causedBy chain contains triggerId '' @
               quoted (case get_trigger_id (ev_source e) of Some t \<Rightarrow> t | None \<Rightarrow> ''<none>'')
         in fire_after env e (Rejected Loop (Some details)) (record_rejection now e Loop details d))
      else
        (case d_limiter d of
           None \<Rightarrow> route env now e d
         | Some l \<Rightarrow>
             (case rl_allow now (ev_target e) l of
                (Inl err, l1) \<Rightarrow> (Inl (Limiter_failed err), d\<lparr>d_limiter := Some l1\<rparr>)
              | (Inr (Denied k r), l1) \<Rightarrow>
                  (let details = limit_details env (ev_target e) r
                   in fire_after env e (Rejected Rate_limit (Some details))
                        (record_rejection now e Rate_limit details (d\<lparr>d_limiter := Some l1\<rparr>)))
              | (Inr Allowed, l1) \<Rightarrow> route env now e (d\<lparr>d_limiter := Some l1\<rparr>))))"

definition dispatch_event :: "env \<Rightarrow> int \<Rightarrow> agent_event list \<Rightarrow> agent_event \<Rightarrow> dispatcher \<Rightarrow> handled" where
  "dispatch_event env now recent e d =
     (case dedup_check env now e d of
        (Some out, d1) \<Rightarrow> fire_after env e out d1
      | (None, d1) \<Rightarrow> admit env now recent e (dedup_commit now e d1))"

definition handle_internal :: "env \<Rightarrow> int \<Rightarrow> agent_event list \<Rightarrow> agent_event \<Rightarrow> dispatcher \<Rightarrow> handled" where
  "handle_internal env now recent e d =
     (if hooks_present env then
        (case before_hook env e of
           Before_throws m \<Rightarrow> (Inl (Before_failed m), d)
         | Drop \<Rightarrow> fire_after env e Broadcast d
         | Rewrite e' \<Rightarrow> dispatch_event env now recent e' d
         | Pass \<Rightarrow> dispatch_event env now recent e d)
      else dispatch_event env now recent e d)"

section \<open>The loop check\<close>

text \<open>The ids a causation chain leads to, up to \<open>n\<close> of them; an id without an event ends it.\<close>

fun causes :: "nat \<Rightarrow> (string \<Rightarrow> agent_event option) \<Rightarrow> string option \<Rightarrow> string list" where
  "causes 0 lk anc = []"
| "causes (Suc n) lk anc =
     (case anc of
        None \<Rightarrow> []
      | Some a \<Rightarrow> if a = [] then [] else a # (case lk a of None \<Rightarrow> [] | Some e \<Rightarrow> causes n lk (ev_caused_by e)))"

definition fires :: "(string \<Rightarrow> agent_event option) \<Rightarrow> string \<Rightarrow> string \<Rightarrow> bool" where
  "fires lk cur a \<longleftrightarrow> (\<exists>e. lk a = Some e \<and> get_trigger_id (ev_source e) = Some cur)"

lemma walk_causes_iff:
  "(\<forall>a \<in> set vis. lk a \<noteq> None) \<Longrightarrow>
   walk_causes n lk cur vis anc \<longleftrightarrow>
     (let ids = causes n lk anc in (\<exists>a \<in> set ids. fires lk cur a) \<or> \<not> distinct ids \<or> set ids \<inter> set vis \<noteq> {})"
proof (induction n arbitrary: vis anc)
  case (Suc n)
  show ?case
  proof (cases "nonempty_opt anc")
    case True
    then obtain a where a: "anc = Some a" "a \<noteq> []" by (auto simp: nonempty_opt_iff)
    show ?thesis
    proof (cases "lk a")
      case None
      then show ?thesis using a Suc.prems by (auto simp: fires_def)
    next
      case (Some e)
      have "walk_causes n lk cur (a # vis) (ev_caused_by e) \<longleftrightarrow>
          (let ids = causes n lk (ev_caused_by e)
           in (\<exists>a \<in> set ids. fires lk cur a) \<or> \<not> distinct ids \<or> set ids \<inter> set (a # vis) \<noteq> {})"
        using Suc.prems Some by (intro Suc.IH) auto
      then show ?thesis using a Some by (auto simp: Let_def fires_def)
    qed
  qed (auto split: option.splits)
qed simp


section \<open>What the stages leave alone\<close>

lemma run_event_same [simp]:
  "d_idem (snd (run_event env e s p n d)) = d_idem d" "d_store (snd (run_event env e s p n d)) = d_store d"
  "d_limiter (snd (run_event env e s p n d)) = d_limiter d" "d_lookup (snd (run_event env e s p n d)) = d_lookup d"
  "d_attached (snd (run_event env e s p n d)) = d_attached d"
  by (simp_all add: run_event_def Let_def split: sum.split)

lemma dispatch_turn_snd: "snd (dispatch_turn env e s p n d) = snd (run_event env e s p n d)"
  by (simp add: dispatch_turn_def split: prod.split sum.split)

lemma gated_keeps:
  assumes "\<And>d x. g (d\<lparr>d_breakers := x\<rparr>) = g d" "\<And>d. g (snd (f d)) = g d"
  shows "g (snd (gated now name f d)) = g d"
proof (cases "jm_get name (d_breakers d)")
  case (Some b)
  obtain ok b1 where ok: "cb_allow now b = (ok, b1)" by (cases "cb_allow now b")
  obtain st b2 where st: "cb_state_of now b1 = (st, b2)" by (cases "cb_state_of now b1")
  obtain r d2 where r: "f (d\<lparr>d_breakers := jm_set name b1 (d_breakers d)\<rparr>) = (r, d2)" by fastforce
  have "g d2 = g d" using assms(2) [of "d\<lparr>d_breakers := jm_set name b1 (d_breakers d)\<rparr>"] r assms(1) by simp
  with Some ok st r assms(1) show ?thesis by (cases ok) (simp_all add: gated_def)
qed (simp add: gated_def assms)

lemma skill_target_same:
  "d_idem (snd (run_skill_target env e name ins mk d)) = d_idem d"
  "d_store (snd (run_skill_target env e name ins mk d)) = d_store d"
  "d_limiter (snd (run_skill_target env e name ins mk d)) = d_limiter d"
  by (auto simp: run_skill_target_def Let_def split: sum.split prod.split)

lemma unpinned_same:
  "d_idem (snd (unpinned_skill env now e name ins d)) = d_idem d"
  "d_store (snd (unpinned_skill env now e name ins d)) = d_store d"
  "d_limiter (snd (unpinned_skill env now e name ins d)) = d_limiter d"
  by (auto simp: unpinned_skill_def skill_target_same intro!: gated_keeps split: option.split)

lemma pinned_same:
  "d_idem (snd (gated now name (dispatch_turn env e s [] 0) d)) = d_idem d"
  "d_store (snd (gated now name (dispatch_turn env e s [] 0) d)) = d_store d"
  "d_limiter (snd (gated now name (dispatch_turn env e s [] 0) d)) = d_limiter d"
  by (auto simp: dispatch_turn_snd intro!: gated_keeps)

lemma execute_same:
  "d_idem (snd (execute_target env now e t d)) = d_idem d \<and> d_store (snd (execute_target env now e t d)) = d_store d \<and>
   d_limiter (snd (execute_target env now e t d)) = d_limiter d"
  by (cases t) (auto simp: dispatch_turn_snd unpinned_same pinned_same Let_def
    split: option.split sum.split child_result.split)

section \<open>Turns and subjects\<close>

definition new_turns :: "dispatcher \<Rightarrow> dispatcher \<Rightarrow> turn list \<Rightarrow> bool" where
  "new_turns d d' ts \<longleftrightarrow> turns (d_effects d') = turns (d_effects d) @ ts"

definition subjects_are :: "string option \<Rightarrow> dispatcher \<Rightarrow> dispatcher \<Rightarrow> bool" where
  "subjects_are u d d' \<longleftrightarrow> (\<exists>ts. new_turns d d' ts \<and> length ts \<le> 1 \<and> (\<forall>t \<in> set ts. turn_subject t = u))"

lemma subjects_refl [simp]: "subjects_are u d d"
  by (auto simp: subjects_are_def new_turns_def intro: exI [of _ "[]"])

lemma subjects_run: "subjects_are (ev_subject e) d (snd (run_event env e s p n d))"
  by (auto simp: run_event_def Let_def subjects_are_def new_turns_def split: sum.split)

lemma subjects_skill: "subjects_are None d (snd (run_skill_target env e name ins mk d))"
proof (cases "frame_event (num_text env) e")
  case (Inr f)
  let ?c = "case mk (case origin_session_id (ev_source e) of Some p \<Rightarrow> p | None \<Rightarrow> ''__event:'' @ ev_id e) None of
      Sync_child c \<Rightarrow> Inr c
    | Async_child _ \<Rightarrow> Inl ''createChildSession must return a SessionHandle synchronously for skill routing''
    | Child_throws m \<Rightarrow> Inl m"
  obtain r fx where r: "run_skill (num_text env) (proto_of env) (env_skills env)
      (if hooks_present env then Some (env_skill_hooks env) else None) (agent env) ?c 0 name
      (jm_set ''__event'' (JStr f) ins) (d_effects d) = (r, fx)" by fastforce
  then have "d_effects (snd (run_skill_target env e name ins mk d)) = fx"
    by (auto simp: run_skill_target_def Let_def Inr split: sum.split)
  then show ?thesis using run_skill_turns [OF r]
    by (auto simp: subjects_are_def new_turns_def intro: exI [of _ "[]"])
qed (simp add: run_skill_target_def)

lemma subjects_gated:
  assumes "\<And>d. subjects_are u d (snd (f d))"
  shows "subjects_are u d (snd (gated now name f d))"
proof (cases "jm_get name (d_breakers d)")
  case (Some b)
  obtain ok b1 where ok: "cb_allow now b = (ok, b1)" by (cases "cb_allow now b")
  obtain st b2 where st: "cb_state_of now b1 = (st, b2)" by (cases "cb_state_of now b1")
  obtain r d2 where r: "f (d\<lparr>d_breakers := jm_set name b1 (d_breakers d)\<rparr>) = (r, d2)" by fastforce
  have "subjects_are u (d\<lparr>d_breakers := jm_set name b1 (d_breakers d)\<rparr>) d2" using assms r by (metis snd_conv)
  with Some ok st r show ?thesis
    by (cases ok) (auto simp: gated_def subjects_are_def new_turns_def intro: exI [of _ "[]"])
qed (simp add: gated_def assms)

text \<open>A skill target that runs as a skill rather than as a turn of a pinned session.\<close>

fun unpinned :: "event_target \<Rightarrow> bool" where
  "unpinned (TSkill _ _ key) \<longleftrightarrow> \<not> nonempty_opt key"
| "unpinned _ = False"

text \<open>Routing an event runs at most one turn, and it runs on behalf of the event's end user, except when the target is a
  skill without a session key: that turn carries no subject, so memory partitioned by end user is not partitioned for
  it.\<close>

lemma routed_turn_subject:
  "\<exists>ts. turns (d_effects (snd (execute_target env now e tgt d))) = turns (d_effects d) @ ts \<and> length ts \<le> 1 \<and>
     map turn_subject ts = replicate (length ts) (if unpinned tgt then None else ev_subject e)"
proof -
  have turn: "subjects_are (ev_subject e) d (snd (dispatch_turn env e s p n d))" for s p n d
    by (simp add: dispatch_turn_snd subjects_run)
  have pin: "subjects_are (ev_subject e) d (snd (gated now name (dispatch_turn env e s [] 0) d))" for name s
    by (rule subjects_gated [OF turn])
  have sk: "subjects_are None d (snd (unpinned_skill env now e name ins d))" for name ins
    by (auto simp: unpinned_skill_def subjects_gated subjects_skill split: option.split)
  have "subjects_are (if unpinned tgt then None else ev_subject e) d (snd (execute_target env now e tgt d))"
    by (cases tgt) (auto simp: turn pin sk Let_def nonempty_opt_iff split: option.split sum.split child_result.split)
  then show ?thesis
    by (auto simp: subjects_are_def new_turns_def intro!: replicate_eqI)
qed

section \<open>Duplicates\<close>

definition dispatcher_ok :: "dispatcher \<Rightarrow> bool" where
  "dispatcher_ok d \<longleftrightarrow> ic_ok (d_idem d) \<and> (case d_store d of None \<Rightarrow> True | Some s \<Rightarrow> store_ok s)"

lemma source_type_nonempty [simp]: "source_type s \<noteq> []"
  by (cases s) simp_all

lemma fst_read_same: "fst (ic_read t k (snd (ic_read t k c))) = fst (ic_read t k c)"
  by (cases "jm_get k (ic_entries c)") (auto simp: ic_read_def)

lemma lookup_none_iff:
  "fst (ic_lookup t i key st c) = None \<longleftrightarrow>
     fst (ic_read t i c) = None \<and>
     (\<forall>k. key = Some k \<and> k \<noteq> [] \<and> st \<noteq> [] \<longrightarrow> fst (ic_read t (idempotency_cache_key st k) c) = None)"
proof -
  obtain r c1 where r: "ic_read t i c = (r, c1)" by (cases "ic_read t i c")
  have g: "jm_get k (ic_entries c1) = (if k = i \<and> r = None then None else jm_get k (ic_entries c))" for k
    using get_ic_read [of k t i c] r by simp
  have ttl: "ic_ttl c1 = ic_ttl c" using r by (metis ic_const(1) snd_conv)
  have "fst (ic_read t k c1) = fst (ic_read t k c)" if "r = None" for k
    using that r g [of k] ttl by (cases "k = i") (simp_all add: fst_ic_read, metis fst_conv fst_ic_read option.simps(4))
  then show ?thesis using r by (cases r) (auto simp: ic_lookup_def split: option.split)
qed

lemma read_none_again: "fst (ic_read t' k' c) = None \<Longrightarrow> fst (ic_read t' k' (snd (ic_read t k c))) = None"
  by (auto simp: fst_ic_read get_ic_read split: option.splits if_splits)

lemma lookup_none_again:
  assumes "fst (ic_lookup t i key st c) = None"
  shows "fst (ic_lookup t i key st (snd (ic_lookup t i key st c))) = None"
proof -
  obtain c1 where 1: "ic_read t i c = (None, c1)"
    using assms unfolding lookup_none_iff by (metis prod.collapse)
  have n: "fst (ic_read t k (snd (ic_lookup t i key st c))) = None" if h: "fst (ic_read t k c) = None" for k
  proof -
    have a: "fst (ic_read t k c1) = None" using read_none_again [OF h, of t i] 1 by simp
    show ?thesis
    proof (cases key)
      case None
      then show ?thesis using a 1 by (simp add: ic_lookup_def)
    next
      case (Some x)
      show ?thesis
      proof (cases "x \<noteq> [] \<and> st \<noteq> []")
        case True
        then have "ic_lookup t i key st c = ic_read t (idempotency_cache_key st x) c1"
          using 1 by (simp add: ic_lookup_def Some)
        then show ?thesis using read_none_again [OF a, of t "idempotency_cache_key st x"] by simp
      next
        case False
        then have "ic_lookup t i key st c = (None, c1)" using 1 by (auto simp: ic_lookup_def Some)
        then show ?thesis using a by simp
      qed
    qed
  qed
  have a: "fst (ic_read t i c) = None"
    "key = Some k \<and> k \<noteq> [] \<and> st \<noteq> [] \<Longrightarrow> fst (ic_read t (idempotency_cache_key st k) c) = None" for k
    using assms by (simp_all add: lookup_none_iff)
  show ?thesis by (subst lookup_none_iff) (intro conjI allI impI n a, auto)
qed

lemma idem_after_commit: "d_idem (dedup_commit now e d) =
    ic_remember (ev_id e) (ev_idem_key e) (source_type (ev_source e)) now (d_idem d)"
  by (simp add: dedup_commit_def Let_def split: option.split sum.split)

lemma remembered_found:
  assumes "ic_ok c" "t' - t \<le> ic_ttl c" "st \<noteq> []"
  shows "fst (ic_lookup t' i key st (ic_remember i key st t c)) \<noteq> None"
proof (cases "nonempty_opt key")
  case False
  then have "ic_remember i key st t c = ic_write i t c" by (cases key) (auto simp: ic_remember_def)
  then show ?thesis using assms get_ic_write(1) [OF assms(1), of i t]
    by (simp add: lookup_none_iff fst_ic_read)
next
  case True
  then obtain k where k: "key = Some k" "k \<noteq> []" by (auto simp: nonempty_opt_iff)
  have ok: "ic_ok (ic_write i t c)" using assms(1) by (rule inv_intros)
  have "fst (ic_read t' (idempotency_cache_key st k) (ic_write (idempotency_cache_key st k) t (ic_write i t c))) = Some t"
    using get_ic_write(1) [OF ok, of "idempotency_cache_key st k" t] assms(2) by (simp add: fst_ic_read)
  then show ?thesis using k assms(3) by (auto simp: lookup_none_iff ic_remember_def)
qed

text \<open>The parts of the state that only the duplicate check changes, and the rows of the store.\<close>

definition has_row :: "string \<Rightarrow> dispatcher \<Rightarrow> bool" where
  "has_row i d \<longleftrightarrow> (\<forall>s. d_store d = Some s \<longrightarrow> jm_has i (events s))"

lemma has_mark [simp]: "jm_has i (events (mark_outcome t j out s)) = jm_has i (events s)"
  by (simp add: mark_outcome_def jm_has_get split: option.split)

lemma events_rejections [simp]: "events (upsert_rejection i why d t s) = events s" "events (snd (delete_rejection i s)) = events s"
  by (simp_all add: upsert_rejection_def delete_rejection_def Let_def)

text \<open>The later stages keep the cache, the rows and the presence of a store.\<close>

definition keeps :: "string \<Rightarrow> dispatcher \<Rightarrow> dispatcher \<Rightarrow> bool" where
  "keeps i d d' \<longleftrightarrow> d_idem d' = d_idem d \<and> (has_row i d \<longrightarrow> has_row i d') \<and> (d_store d' = None \<longleftrightarrow> d_store d = None)"

lemma keeps_trans: "keeps i d d1 \<Longrightarrow> keeps i d1 d2 \<Longrightarrow> keeps i d d2"
  by (simp add: keeps_def)

lemma keeps_same: "d_idem d' = d_idem d \<Longrightarrow> d_store d' = d_store d \<Longrightarrow> keeps i d d'"
  by (simp add: keeps_def has_row_def)

lemma keeps_fire: "keeps i d (snd (fire_after env e out d))"
  by (rule keeps_same) (simp_all add: fire_after_def split: option.split)

lemma keeps_reject: "keeps i d (record_rejection now e why x d)"
  by (auto simp: keeps_def record_rejection_def has_row_def)

lemma keeps_persist: "keeps i d (persist_outcome now e out d)"
  by (cases out) (auto simp: keeps_def persist_outcome_def has_row_def Let_def)

lemma keeps_execute: "keeps i d (snd (execute_target env now e t d))"
  using execute_same [of env now e t d] by (intro keeps_same) simp_all

lemma keeps_route: "keeps i d (snd (route env now e d))"
proof -
  obtain r d1 where r: "execute_target env now e (ev_target e) d = (r, d1)" by fastforce
  define out where "out = (case r of Inl err \<Rightarrow> Rejected Invalid (Some err) | Inr x \<Rightarrow> x)"
  have "keeps i d d1" using keeps_execute [of i d env now e "ev_target e"] r by simp
  then have 1: "keeps i d (persist_outcome now e out d1)" using keeps_persist keeps_trans by blast
  have 2: "snd (route env now e d) = persist_outcome now e out d1 \<or>
      snd (route env now e d) = (persist_outcome now e out d1)\<lparr>d_after := d_after (persist_outcome now e out d1) @ [(e, out)]\<rparr>"
    by (simp add: route_def r Let_def out_def)
  show ?thesis using 2
  proof
    assume eq: "snd (route env now e d) =
      (persist_outcome now e out d1)\<lparr>d_after := d_after (persist_outcome now e out d1) @ [(e, out)]\<rparr>"
    show ?thesis unfolding eq by (rule keeps_trans [OF 1], rule keeps_same) simp_all
  qed (simp add: 1)
qed

lemma keeps_early: "keeps i d (snd (fire_after env e out (record_rejection now e why x d)))"
  by (rule keeps_trans [OF keeps_reject keeps_fire])

lemma keeps_admit: "keeps i d (snd (admit env now recent e d))"
proof (cases "detect_loop env recent d e")
  case True
  then show ?thesis by (simp add: admit_def Let_def keeps_early)
next
  case False
  show ?thesis
  proof (cases "d_limiter d")
    case None
    then show ?thesis using False by (simp add: admit_def keeps_route)
  next
    case (Some l)
    obtain x l1 where x: "rl_allow now (ev_target e) l = (x, l1)" by (cases "rl_allow now (ev_target e) l")
    have lim: "keeps i d (d\<lparr>d_limiter := Some l1\<rparr>)" by (rule keeps_same) simp_all
    show ?thesis
    proof (cases x)
      case (Inl err)
      then show ?thesis using False Some x lim by (simp add: admit_def)
    next
      case (Inr dec)
      then show ?thesis using False Some x keeps_trans [OF lim keeps_early] keeps_trans [OF lim keeps_route]
        by (cases dec) (simp_all add: admit_def Let_def)
    qed
  qed
qed

lemma admit_keeps:
  "d_idem (snd (admit env now recent e d)) = d_idem d \<and> (has_row i d \<longrightarrow> has_row i (snd (admit env now recent e d))) \<and>
   (d_store (snd (admit env now recent e d)) = None \<longleftrightarrow> d_store d = None)"
  using keeps_admit [of i d env now recent e] by (simp add: keeps_def)

lemma has_row_commit: "has_row (ev_id e) (dedup_commit now e d)"
  by (auto simp: has_row_def dedup_commit_def Let_def record_event_def jm_has_def split: option.splits sum.splits if_splits)

lemma store_commit: "d_store (dedup_commit now e d) = None \<longleftrightarrow> d_store d = None"
  by (auto simp: dedup_commit_def Let_def split: option.split sum.split)

lemma check_none:
  assumes "dedup_check env now e d = (None, d1)"
  shows "d1 = d\<lparr>d_idem := d_idem d1\<rparr>" "ic_ok (d_idem d) \<Longrightarrow> ic_ok (d_idem d1)" "ic_ttl (d_idem d1) = ic_ttl (d_idem d)"
proof -
  obtain r ic where r: "ic_lookup now (ev_id e) (ev_idem_key e) (source_type (ev_source e)) (d_idem d) = (r, ic)"
    by fastforce
  have d1: "r = None" "d1 = d\<lparr>d_idem := ic\<rparr>" using assms r
    by (auto simp: dedup_check_def Let_def split: option.splits)
  show "d1 = d\<lparr>d_idem := d_idem d1\<rparr>" using d1 by simp
  have ic: "ic = snd (ic_lookup now (ev_id e) (ev_idem_key e) (source_type (ev_source e)) (d_idem d))" by (simp add: r)
  show "ic_ttl (d_idem d1) = ic_ttl (d_idem d)"
    using ic_ttl_run [of "d_idem d" "[Lookup now (ev_id e) (ev_idem_key e) (source_type (ev_source e))]"] d1 r by simp
  assume ok: "ic_ok (d_idem d)"
  obtain r1 c1 where 1: "ic_read now (ev_id e) (d_idem d) = (r1, c1)" by (cases "ic_read now (ev_id e) (d_idem d)")
  then have "ic_ok c1" using ic_ok_read [OF ok] by (metis snd_conv)
  then show "ic_ok (d_idem d1)" using r 1 d1 ic_ok_read
    by (auto simp: ic_lookup_def split: option.splits if_splits) (metis snd_conv)+
qed

lemma check_duplicate:
  assumes "fst (ic_lookup now (ev_id e) (ev_idem_key e) (source_type (ev_source e)) (d_idem d)) \<noteq> None \<or>
    (d_store d \<noteq> None \<and> has_row (ev_id e) d)"
  obtains ts ic where "dedup_check env now e d = (Some (Duplicate ts (ev_id e)), d\<lparr>d_idem := ic\<rparr>)"
proof -
  obtain r ic where r: "ic_lookup now (ev_id e) (ev_idem_key e) (source_type (ev_source e)) (d_idem d) = (r, ic)"
    by fastforce
  show ?thesis
  proof (cases r)
    case (Some ts)
    then show ?thesis using r by (intro that [of ts ic]) (simp add: dedup_check_def)
  next
    case None
    then obtain s where s: "d_store d = Some s" "jm_has (ev_id e) (events s)" using assms r by (auto simp: has_row_def)
    then obtain row where "jm_get (ev_id e) (events s) = Some row" by (auto simp: jm_has_get)
    then have "find_duplicate now e (dedup_window env) s = Some row" by (simp add: find_duplicate_def)
    then show ?thesis using r None s by (intro that) (simp add: dedup_check_def Let_def)
  qed
qed


definition test_env :: env where
  "test_env = \<lparr>hooks_present = False, before_hook = (\<lambda>_. Pass), after_hook = (\<lambda>_ _. None),
     env_skill_hooks = \<lparr>skill_before = (\<lambda>_ _. Inr None), skill_after = (\<lambda>_ _ _. None)\<rparr>, env_skills = [],
     agent = (\<lambda>_. Inr JNull), resolve_session = Some (\<lambda>s. Inr (Some s)), create_session = None,
     create_child_session = None, resolve_session_by_key = None, create_session_for_key = None,
     num_text = (\<lambda>_. ''0''), proto_of = (\<lambda>_ _. JUndef), depth_limit = 5, dedup_window = 1000\<rparr>"

definition test_event :: "string \<Rightarrow> event_source \<Rightarrow> string option \<Rightarrow> agent_event" where
  "test_event i src cause = \<lparr>ev_id = i, ev_source = src, ev_target = TSession ''s'' Inject, ev_kind = User_input,
     ev_timestamp = 0, ev_payload = JNull, ev_auth = ALocalUser,
     ev_meta = Some (empty_meta\<lparr>caused_by := cause\<rparr>)\<rparr>"

definition test_dispatcher :: dispatcher where
  "test_dispatcher = create_dispatcher None None (Some (create_event_store None)) [] [] None"

lemma test_dispatcher_ok: "dispatcher_ok test_dispatcher"
  by (simp add: test_dispatcher_def create_dispatcher_def dispatcher_ok_def ic_ok_def create_idem_cache_def store_ok_def
    create_event_store_def)

lemma test_check: "dedup_check test_env t (test_event i src c) test_dispatcher = (None, test_dispatcher)"
  by (simp add: dedup_check_def test_dispatcher_def create_dispatcher_def create_idem_cache_def test_event_def
    ic_lookup_def ic_read_def meta_get_def empty_meta_def find_duplicate_def create_event_store_def)


section \<open>Overlapping dispatches\<close>

text \<open>With a store, the check for duplicates suspends before it remembers the event. Two dispatches of one event whose
  checks both run before either goes on are both routed: neither check finds anything, the second insert fails and is
  swallowed, and the turn is run twice.\<close>

lemma overlapping_dispatch_runs_twice:
  assumes "fst (dedup_check env now e d) = None" and "d_limiter d = None" and "\<not> hooks_present env"
    and "get_trigger_id (ev_source e) = None" and "ev_target e = TSession sid m"
    and "resolve_session env = Some f" and "f sid = Inr (Some s)"
    and "\<And>t. agent env t = Inr answer" and "ev_payload e \<noteq> JUndef"
  shows "\<exists>t d1 d2 d3 d4.
      dedup_check env now e d = (None, d1) \<and> dedup_check env now e d1 = (None, d2) \<and>
      admit env now recent e (dedup_commit now e d2) = (Inr (dispatched s), d3) \<and>
      admit env now recent e (dedup_commit now e d3) = (Inr (dispatched s), d4) \<and>
      turns (d_effects d4) = turns (d_effects d) @ [t, t]"
proof -
  obtain fr where fr: "frame_event (num_text env) e = Inr fr"
    using assms(9) json_text_None [of "num_text env" "ev_payload e"]
    by (auto simp: frame_event_def split: option.splits)
  define t where "t = \<lparr>turn_session = s, turn_message = fr, turn_depth = 0, turn_caused_by = ev_caused_by e,
      turn_subject = ev_subject e\<rparr>"
  have commit: "d_effects (dedup_commit now e x) = d_effects x \<and> d_limiter (dedup_commit now e x) = d_limiter x" for x
    by (simp add: dedup_commit_def Let_def split: option.split sum.split)
  have go: "\<exists>y. admit env now recent e x = (Inr (dispatched s), y) \<and> d_limiter y = None \<and>
      turns (d_effects y) = turns (d_effects x) @ [t]" if "d_limiter x = None" for x
    using that assms(3-8) fr
    by (simp add: admit_def detect_loop_def route_def dispatch_turn_def run_event_def Let_def t_def persist_outcome_def
      dispatched_def)
  obtain d1 where d1: "dedup_check env now e d = (None, d1)" using assms(1) by (metis prod.collapse)
  have same: "d1 = d\<lparr>d_idem := d_idem d1\<rparr>" by (rule check_none(1) [OF d1])
  obtain r ic where r: "ic_lookup now (ev_id e) (ev_idem_key e) (source_type (ev_source e)) (d_idem d) = (r, ic)"
    by fastforce
  then have "r = None" "d_idem d1 = ic" and fd: "Option.bind (d_store d) (find_duplicate now e (dedup_window env)) = None"
    using d1 by (auto simp: dedup_check_def Let_def split: option.splits)
  then have "fst (ic_lookup now (ev_id e) (ev_idem_key e) (source_type (ev_source e)) (d_idem d1)) = None"
    using lookup_none_again r by (metis fst_conv snd_conv)
  moreover have "d_store d1 = d_store d" using arg_cong [OF same, of d_store] by simp
  ultimately have "fst (dedup_check env now e d1) = None" using fd
    by (auto simp: dedup_check_def Let_def split: option.split prod.split)
  then obtain d2 where d2: "dedup_check env now e d1 = (None, d2)" by (metis prod.collapse)
  note same2 = check_none(1) [OF d2]
  have 2: "d_effects d2 = d_effects d" "d_limiter d2 = d_limiter d"
    using arg_cong [OF same, of d_effects] arg_cong [OF same, of d_limiter]
      arg_cong [OF same2, of d_effects] arg_cong [OF same2, of d_limiter] by simp_all
  obtain d3 where d3: "admit env now recent e (dedup_commit now e d2) = (Inr (dispatched s), d3)" "d_limiter d3 = None"
    "turns (d_effects d3) = turns (d_effects d) @ [t]"
    using go [of "dedup_commit now e d2"] commit [of d2] 2 assms(2) by auto
  obtain d4 where d4: "admit env now recent e (dedup_commit now e d3) = (Inr (dispatched s), d4)"
    "turns (d_effects d4) = turns (d_effects d) @ [t, t]"
    using go [of "dedup_commit now e d3"] commit [of d3] d3 by auto
  show ?thesis using d1 d2 d3(1) d4 by blast
qed

section \<open>The outcome ledger\<close>

definition final_outcome :: "dispatch_outcome \<Rightarrow> bool" where
  "final_outcome out \<longleftrightarrow> (\<exists>s. out = dispatched s) \<or> out = Broadcast \<or> (\<exists>why x. out = rejected why x)"

lemma final_simps [simp]: "final_outcome (dispatched s)" "final_outcome Broadcast" "final_outcome (rejected why x)"
  by (auto simp: final_outcome_def)

lemma final_turn: "fst (dispatch_turn env e s p n d) = Inr out \<Longrightarrow> final_outcome out"
  by (auto simp: dispatch_turn_def split: prod.splits sum.splits)

lemma final_skill: "fst (run_skill_target env e name ins mk d) = Inr out \<Longrightarrow> final_outcome out"
  by (auto simp: run_skill_target_def Let_def split: prod.splits sum.splits)

lemma final_gated:
  assumes "\<And>d out. fst (f d) = Inr out \<Longrightarrow> final_outcome out" and "fst (gated now name f d) = Inr out"
  shows "final_outcome out"
proof (cases "jm_get name (d_breakers d)")
  case (Some b)
  obtain ok b1 where ok: "cb_allow now b = (ok, b1)" by (cases "cb_allow now b")
  obtain st b2 where st: "cb_state_of now b1 = (st, b2)" by (cases "cb_state_of now b1")
  obtain r d2 where r: "f (d\<lparr>d_breakers := jm_set name b1 (d_breakers d)\<rparr>) = (r, d2)" by fastforce
  show ?thesis using assms(2) Some ok st r assms(1) [of "d\<lparr>d_breakers := jm_set name b1 (d_breakers d)\<rparr>" out]
    by (cases ok) (auto simp: gated_def)
qed (use assms in \<open>simp add: gated_def\<close>)

lemma execute_final: "fst (execute_target env now e t d) = Inr out \<Longrightarrow> final_outcome out"
proof -
  have sk: "fst (unpinned_skill env now e name ins d) = Inr out \<Longrightarrow> final_outcome out" for name ins
    by (auto simp: unpinned_skill_def intro: final_gated final_skill split: option.splits)
  have pin: "fst (gated now name (dispatch_turn env e s [] 0) d) = Inr out \<Longrightarrow> final_outcome out" for name s
    by (rule final_gated [OF final_turn])
  assume "fst (execute_target env now e t d) = Inr out"
  then show ?thesis
    by (cases t) (auto dest: sk pin final_turn simp: Let_def split: option.splits sum.splits child_result.splits if_splits)
qed

text \<open>What the ledger says of an event: the outcome on its row, and a dead-letter row exactly when it was rejected.\<close>

definition ledger_of :: "string \<Rightarrow> dispatch_outcome \<Rightarrow> event_store \<Rightarrow> bool" where
  "ledger_of i out s \<longleftrightarrow>
     (\<exists>r. store_get i s = Some r \<and> er_outcome r = Some out) \<and>
     (case out of
        Rejected why x \<Rightarrow> (\<exists>q. get_rejection i s = Some q \<and> rj_reason q = reason_text why \<and> rj_details q = x)
      | _ \<Rightarrow> get_rejection i s = None)"

lemma get_mark: "jm_has i (events s) \<Longrightarrow> \<exists>r. store_get i (mark_outcome now i out s) = Some r \<and> er_outcome r = Some out"
  by (auto simp: jm_has_get store_get_def mark_outcome_def)

lemma store_get_rejections [simp]: "store_get i (upsert_rejection j why x now s) = store_get i s"
  "store_get i (snd (delete_rejection j s)) = store_get i s"
  by (simp_all add: store_get_def)

lemma ledger_persist:
  assumes "d_store d = Some s" "jm_has (ev_id e) (events s)" "final_outcome out"
  shows "\<exists>s'. d_store (persist_outcome now e out d) = Some s' \<and> ledger_of (ev_id e) out s'"
  using assms get_mark [OF assms(2), of now out]
  by (auto simp: final_outcome_def persist_outcome_def ledger_of_def dispatched_def rejected_def upsert_rejection_get Let_def
    split: option.split)
    (simp_all add: get_rejection_def delete_rejection_def)

lemma ledger_early:
  assumes "d_store d = Some s" "jm_has (ev_id e) (events s)"
  shows "\<exists>s'. d_store (record_rejection now e why x d) = Some s' \<and> ledger_of (ev_id e) (Rejected why (Some x)) s'"
  using assms get_mark [OF assms(2), of now "Rejected why (Some x)"]
  by (auto simp: record_rejection_def ledger_of_def upsert_rejection_get split: option.split)

lemma dispatch_ledger:
  assumes "\<not> hooks_present env" and "d_store d = Some s" and "fst (dedup_check env now e d) = None"
    and "handle_internal env now recent e d = (Inr out, d')"
  shows "\<exists>s'. d_store d' = Some s' \<and> ledger_of (ev_id e) out s'"
proof -
  obtain d1 where d1: "dedup_check env now e d = (None, d1)" using assms(3) by (metis prod.collapse)
  let ?c = "dedup_commit now e d1"
  have a: "admit env now recent e ?c = (Inr out, d')"
    using assms(1,4) d1 by (simp add: handle_internal_def dispatch_event_def)
  have "d_store d1 = Some s" using arg_cong [OF check_none(1) [OF d1], of d_store] assms(2) by simp
  then obtain sc where sc: "d_store ?c = Some sc" using store_commit [of now e d1] by (cases "d_store ?c") auto
  then have row: "jm_has (ev_id e) (events sc)" using has_row_commit [of e now d1] by (simp add: has_row_def)
  have route: "\<exists>s'. d_store d' = Some s' \<and> ledger_of (ev_id e) out s'"
    if r: "route env now e x = (Inr out, d')" and x: "d_store x = Some sc" for x
  proof -
    obtain res x1 where res: "execute_target env now e (ev_target e) x = (res, x1)" by fastforce
    have "d_store x1 = Some sc" using execute_same [of env now e "ev_target e" x] res x by simp
    moreover have out: "out = (case res of Inl err \<Rightarrow> Rejected Invalid (Some err) | Inr y \<Rightarrow> y)" "d' = persist_outcome now e out x1"
      using r assms(1) by (auto simp: route_def res Let_def)
    moreover have "final_outcome out" using execute_final [of env now e "ev_target e" x] res out(1)
      by (cases res) (auto simp: final_outcome_def rejected_def)
    ultimately show ?thesis using row ledger_persist by simp
  qed
  show ?thesis
  proof (cases "detect_loop env recent ?c e")
    case True
    then show ?thesis using a assms(1) ledger_early [OF sc row, of now Loop] by (auto simp: admit_def Let_def fire_after_def)
  next
    case False
    show ?thesis
    proof (cases "d_limiter ?c")
      case None
      then show ?thesis using a False sc by (intro route [of ?c]) (simp_all add: admit_def)
    next
      case (Some l)
      obtain v l1 where v: "rl_allow now (ev_target e) l = (v, l1)" by (cases "rl_allow now (ev_target e) l")
      show ?thesis
      proof (cases "v = Inr Allowed")
        case True
        then show ?thesis using a False Some v sc by (intro route [of "?c\<lparr>d_limiter := Some l1\<rparr>"]) (simp_all add: admit_def)
      next
        case False
        then obtain k r where "v = Inr (Denied k r)" using a Some v \<open>\<not> detect_loop env recent ?c e\<close>
          by (cases v; cases "projr v") (auto simp: admit_def)
        then show ?thesis using a Some v \<open>\<not> detect_loop env recent ?c e\<close> assms(1)
            ledger_early [of "?c\<lparr>d_limiter := Some l1\<rparr>" sc e now Rate_limit] sc row
          by (auto simp: admit_def Let_def fire_after_def)
      qed
    qed
  qed
qed

lemma final_of_dispatch:
  assumes "\<not> hooks_present env" and "fst (dedup_check env now e d) = None"
    and "handle_internal env now recent e d = (Inr out, d')"
  shows "final_outcome out"
proof -
  obtain d1 where d1: "dedup_check env now e d = (None, d1)" using assms(2) by (metis prod.collapse)
  let ?c = "dedup_commit now e d1"
  have a: "admit env now recent e ?c = (Inr out, d')"
    using assms(1,3) d1 by (simp add: handle_internal_def dispatch_event_def)
  have r: "final_outcome y" if "route env now e x = (Inr y, z)" for x y z
  proof -
    obtain res x1 where res: "execute_target env now e (ev_target e) x = (res, x1)" by fastforce
    then show ?thesis using that execute_final [of env now e "ev_target e" x]
      by (cases res) (auto simp: route_def Let_def final_outcome_def rejected_def)
  qed
  have f: "final_outcome (Rejected why (Some x))" for why x by (auto simp: final_outcome_def rejected_def)
  show ?thesis
  proof (cases "detect_loop env recent ?c e")
    case True
    then show ?thesis using a assms(1) f by (auto simp: admit_def Let_def fire_after_def)
  next
    case False
    show ?thesis
    proof (cases "d_limiter ?c")
      case None
      then show ?thesis using a False r by (simp add: admit_def)
    next
      case (Some l)
      obtain v l1 where v: "rl_allow now (ev_target e) l = (v, l1)" by (cases "rl_allow now (ev_target e) l")
      show ?thesis
      proof (cases v)
        case (Inr dec)
        then show ?thesis using a False Some v r f assms(1)
          by (cases dec) (auto simp: admit_def Let_def fire_after_def)
      qed (use a False Some v in \<open>simp add: admit_def\<close>)
    qed
  qed
qed



end
