(* ===== verification/Bus.thy ===== *)
theory Bus imports EventTypes begin

text \<open>
  The in-memory event bus of \<^verbatim>\<open>core/src/events/bus.ts\<close>. Subscribers and pressure listeners are numbers. A publish is
  two steps: \<open>publish_begin\<close> runs up to the first suspension (scope check, recent buffer, snapshot of the handlers, which
  are then each invoked once, pressure check) and \<open>publish_end\<close> runs once all handlers have settled. \<open>delivered\<close> and
  \<open>pressure_notes\<close> log the handler invocations and the \<^verbatim>\<open>onHigh\<close> and \<^verbatim>\<open>onLow\<close> calls. Shown: tenant isolation, the content of the
  recent buffer, and the edges of the pressure signal.
\<close>

datatype edge = High | Low

record pressure_listener =
  pl_id :: nat
  high_watermark :: int
  low_watermark :: int
  pl_over :: bool

record bus =
  buffer_size :: int
  tenant_scope :: "string option"
  filter_subs :: bool
  subs_by_kind :: "(event_kind, nat list) jmap"
  wildcard_subs :: "nat list"
  recent_buffer :: "agent_event list"
  in_flight :: "nat list"
  next_token :: nat
  pressure_listeners :: "pressure_listener list"
  delivered :: "(nat \<times> agent_event) list"
  pressure_notes :: "(nat \<times> edge \<times> int) list"

definition create_bus :: "int option \<Rightarrow> string option \<Rightarrow> bool option \<Rightarrow> bus" where
  "create_bus n scope flt =
     \<lparr>buffer_size = max 1 (case n of None \<Rightarrow> 1000 | Some k \<Rightarrow> k), tenant_scope = scope,
      filter_subs = (case flt of None \<Rightarrow> True | Some f \<Rightarrow> f), subs_by_kind = [], wildcard_subs = [], recent_buffer = [],
      in_flight = [], next_token = 0, pressure_listeners = [], delivered = [], pressure_notes = []\<rparr>"

datatype boundary_error = Tenant_boundary (source_tenant: string) (target_tenant: string) (resource_id: string)

definition enforce_tenant_scope :: "bus \<Rightarrow> agent_event \<Rightarrow> boundary_error + agent_event" where
  "enforce_tenant_scope b e =
     (case tenant_scope b of
        None \<Rightarrow> Inr e
      | Some scope \<Rightarrow>
          if scope = [] then Inr e
          else case ev_tenant e of
                 Some t \<Rightarrow> if t \<noteq> scope then Inl (Tenant_boundary t scope (ev_id e)) else Inr e
               | None \<Rightarrow> Inr (e\<lparr>ev_meta := Some ((case ev_meta e of None \<Rightarrow> empty_meta | Some m \<Rightarrow> m)
                                            \<lparr>tenant_id := Some scope\<rparr>)\<rparr>))"

definition passes_tenant_filter :: "bus \<Rightarrow> agent_event \<Rightarrow> bool" where
  "passes_tenant_filter b e \<longleftrightarrow>
     \<not> nonempty_opt (tenant_scope b) \<or> \<not> filter_subs b \<or> ev_tenant e = None \<or> ev_tenant e = tenant_scope b"

text \<open>One listener's turn in \<^verbatim>\<open>emitPressureCrossings\<close>: its new state and the calls it receives.\<close>

definition pressure_turn :: "int \<Rightarrow> pressure_listener \<Rightarrow> pressure_listener \<times> (nat \<times> edge \<times> int) list" where
  "pressure_turn count l =
     (if \<not> pl_over l \<and> count \<ge> high_watermark l then (l\<lparr>pl_over := True\<rparr>, [(pl_id l, High, count)])
      else if pl_over l \<and> count \<le> low_watermark l then (l\<lparr>pl_over := False\<rparr>, [(pl_id l, Low, count)])
      else (l, []))"

definition emit_pressure_crossings :: "bus \<Rightarrow> bus" where
  "emit_pressure_crossings b =
     (let rs = map (pressure_turn (int (length (in_flight b)))) (pressure_listeners b)
      in b\<lparr>pressure_listeners := map fst rs, pressure_notes := pressure_notes b @ concat (map snd rs)\<rparr>)"

definition push_recent :: "agent_event \<Rightarrow> bus \<Rightarrow> bus" where
  "push_recent e b =
     (let buf = recent_buffer b @ [e]
      in b\<lparr>recent_buffer := (if int (length buf) > buffer_size b then tl buf else buf)\<rparr>)"

definition handlers_for :: "bus \<Rightarrow> event_kind \<Rightarrow> nat list" where
  "handlers_for b k =
     (case jm_get k (subs_by_kind b) of
        Some hs \<Rightarrow> (if hs \<noteq> [] \<and> wildcard_subs b \<noteq> [] then hs @ wildcard_subs b
                    else if hs \<noteq> [] then hs else if wildcard_subs b \<noteq> [] then wildcard_subs b else [])
      | None \<Rightarrow> (if wildcard_subs b \<noteq> [] then wildcard_subs b else []))"

text \<open>The result carries the token of the publish when it stays in flight.\<close>

definition publish_begin :: "agent_event \<Rightarrow> bus \<Rightarrow> boundary_error + (nat option \<times> bus)" where
  "publish_begin input b =
     bind_err (enforce_tenant_scope b input) (\<lambda>e.
       let b1 = push_recent e b
       in if \<not> passes_tenant_filter b1 e then Inr (None, b1)
          else let hs = handlers_for b1 (ev_kind e)
               in if hs = [] then Inr (None, b1)
                  else let tok = next_token b1;
                           b2 = b1\<lparr>in_flight := in_flight b1 @ [tok], next_token := tok + 1,
                                   delivered := delivered b1 @ map (\<lambda>h. (h, e)) hs\<rparr>
                       in Inr (Some tok, emit_pressure_crossings b2))"

definition publish_end :: "nat \<Rightarrow> bus \<Rightarrow> bus" where
  "publish_end tok b = emit_pressure_crossings (b\<lparr>in_flight := filter (\<lambda>t. t \<noteq> tok) (in_flight b)\<rparr>)"

text \<open>\<^verbatim>\<open>subscribe\<close> and the closure it returns; \<open>None\<close> is the wildcard \<^verbatim>\<open>'*'\<close>.\<close>

definition subscribe :: "event_kind option \<Rightarrow> nat \<Rightarrow> bus \<Rightarrow> bus" where
  "subscribe k h b =
     (case k of
        None \<Rightarrow> b\<lparr>wildcard_subs := wildcard_subs b @ [h]\<rparr>
      | Some k \<Rightarrow>
          (let arr = (case jm_get k (subs_by_kind b) of None \<Rightarrow> [] | Some hs \<Rightarrow> hs)
           in b\<lparr>subs_by_kind := jm_set k (arr @ [h]) (subs_by_kind b)\<rparr>))"

definition unsubscribe :: "event_kind option \<Rightarrow> nat \<Rightarrow> bus \<Rightarrow> bus" where
  "unsubscribe k h b =
     (case k of
        None \<Rightarrow> b\<lparr>wildcard_subs := remove1 h (wildcard_subs b)\<rparr>
      | Some k \<Rightarrow>
          (case jm_get k (subs_by_kind b) of
             None \<Rightarrow> b
           | Some hs \<Rightarrow> b\<lparr>subs_by_kind := jm_set k (remove1 h hs) (subs_by_kind b)\<rparr>))"

definition recent :: "(agent_event \<Rightarrow> bool) option \<Rightarrow> bus \<Rightarrow> agent_event list" where
  "recent f b = (case f of None \<Rightarrow> recent_buffer b | Some p \<Rightarrow> filter p (recent_buffer b))"

datatype pressure_error = Low_above_high int int | High_below_one

text \<open>A listener is identified by the entry object made for it: a fresh number.\<close>

definition register_pressure_listener :: "int \<Rightarrow> int \<Rightarrow> bus \<Rightarrow> pressure_error + (nat \<times> bus)" where
  "register_pressure_listener hi lo b =
     (if lo > hi then Inl (Low_above_high lo hi)
      else if hi < 1 then Inl High_below_one
      else let l = \<lparr>pl_id = next_token b, high_watermark = hi, low_watermark = lo,
                     pl_over = int (length (in_flight b)) \<ge> hi\<rparr>
           in Inr (pl_id l, b\<lparr>pressure_listeners := pressure_listeners b @ [l], next_token := next_token b + 1\<rparr>))"

definition unregister_pressure_listener :: "nat \<Rightarrow> bus \<Rightarrow> bus" where
  "unregister_pressure_listener l b =
     b\<lparr>pressure_listeners := filter (\<lambda>p. pl_id p \<noteq> l) (pressure_listeners b)\<rparr>"

definition inflight_count :: "bus \<Rightarrow> int" where
  "inflight_count b = int (length (in_flight b))"

section \<open>Runs\<close>

datatype bus_call =
    Publish agent_event
  | Settle nat
  | Subscribe "event_kind option" nat
  | Unsubscribe "event_kind option" nat
  | Register int int
  | Unregister nat

text \<open>A call that throws leaves the bus as it was.\<close>

fun bus_step :: "bus \<Rightarrow> bus_call \<Rightarrow> bus" where
  "bus_step b (Publish e) = (case publish_begin e b of Inl _ \<Rightarrow> b | Inr (_, b') \<Rightarrow> b')"
| "bus_step b (Settle tok) = publish_end tok b"
| "bus_step b (Subscribe k h) = subscribe k h b"
| "bus_step b (Unsubscribe k h) = unsubscribe k h b"
| "bus_step b (Register hi lo) = (case register_pressure_listener hi lo b of Inl _ \<Rightarrow> b | Inr (_, b') \<Rightarrow> b')"
| "bus_step b (Unregister l) = unregister_pressure_listener l b"

section \<open>Tenants\<close>

lemma emit_const [simp]:
  "buffer_size (emit_pressure_crossings b) = buffer_size b"
  "tenant_scope (emit_pressure_crossings b) = tenant_scope b"
  "filter_subs (emit_pressure_crossings b) = filter_subs b"
  "subs_by_kind (emit_pressure_crossings b) = subs_by_kind b"
  "wildcard_subs (emit_pressure_crossings b) = wildcard_subs b"
  "recent_buffer (emit_pressure_crossings b) = recent_buffer b"
  "in_flight (emit_pressure_crossings b) = in_flight b"
  "delivered (emit_pressure_crossings b) = delivered b"
  by (simp_all add: emit_pressure_crossings_def Let_def)

lemma step_const [simp]:
  "buffer_size (bus_step b c) = buffer_size b"
  "tenant_scope (bus_step b c) = tenant_scope b"
  by (cases c; auto simp: publish_begin_def bind_err_def push_recent_def publish_end_def subscribe_def unsubscribe_def
    register_pressure_listener_def unregister_pressure_listener_def Let_def split: sum.splits option.splits)+

lemma enforced_tenant:
  "enforce_tenant_scope b e = Inr e' \<Longrightarrow> nonempty_opt (tenant_scope b) \<Longrightarrow> ev_tenant e' = tenant_scope b"
  by (auto simp: enforce_tenant_scope_def meta_get_def nonempty_opt_iff split: option.splits if_splits)

lemma enforced_passes: "enforce_tenant_scope b e = Inr e' \<Longrightarrow> passes_tenant_filter (push_recent e' b) e'"
  using enforced_tenant [of b e e'] by (auto simp: passes_tenant_filter_def push_recent_def Let_def)

text \<open>The events a run lets in, as stamped, in order.\<close>

fun accepted :: "bus \<Rightarrow> bus_call list \<Rightarrow> agent_event list" where
  "accepted b [] = []"
| "accepted b (Publish e # cs) =
     (case enforce_tenant_scope b e of Inl _ \<Rightarrow> accepted b cs | Inr e' \<Rightarrow> e' # accepted b cs)"
| "accepted b (_ # cs) = accepted b cs"

definition isolated :: "bus \<Rightarrow> bool" where
  "isolated b \<longleftrightarrow> (nonempty_opt (tenant_scope b) \<longrightarrow>
     (\<forall>e \<in> set (recent_buffer b) \<union> snd ` set (delivered b). ev_tenant e = tenant_scope b))"

lemma set_push_recent: "set (recent_buffer (push_recent e b)) \<subseteq> insert e (set (recent_buffer b))"
  by (cases "recent_buffer b") (auto simp: push_recent_def Let_def split: if_splits)

lemma push_recent_const [simp]:
  "delivered (push_recent e b) = delivered b" "tenant_scope (push_recent e b) = tenant_scope b"
  "in_flight (push_recent e b) = in_flight b" "pressure_notes (push_recent e b) = pressure_notes b"
  "pressure_listeners (push_recent e b) = pressure_listeners b"
  "subs_by_kind (push_recent e b) = subs_by_kind b" "wildcard_subs (push_recent e b) = wildcard_subs b"
  by (simp_all add: push_recent_def Let_def)

lemma publish_cases:
  assumes "publish_begin e b = Inr (tok, b')"
  obtains e' where "enforce_tenant_scope b e = Inr e'" "recent_buffer b' = recent_buffer (push_recent e' b)"
    "delivered b' = delivered b @ map (\<lambda>h. (h, e')) (handlers_for b (ev_kind e'))"
proof -
  from assms obtain e' where e': "enforce_tenant_scope b e = Inr e'"
    by (auto simp: publish_begin_def bind_err_Inr_iff)
  have h: "handlers_for (push_recent e' b) k = handlers_for b k" for k by (simp add: handlers_for_def split: option.split)
  from assms e' enforced_passes [OF e'] show ?thesis
    by (intro that [OF e']) (auto simp: publish_begin_def Let_def h split: if_splits)
qed

lemma isolated_step: "isolated b \<Longrightarrow> isolated (bus_step b c)"
proof (cases c)
  case (Publish e)
  assume b: "isolated b"
  show ?thesis
  proof (cases "publish_begin e b")
    case (Inr r)
    obtain tok b' where r: "r = (tok, b')" by (cases r)
    then have p: "publish_begin e b = Inr (tok, b')" by (simp add: Inr)
    obtain e' where e': "enforce_tenant_scope b e = Inr e'" "recent_buffer b' = recent_buffer (push_recent e' b)"
      "delivered b' = delivered b @ map (\<lambda>h. (h, e')) (handlers_for b (ev_kind e'))"
      using publish_cases [OF p] .
    have s: "tenant_scope b' = tenant_scope b" using step_const(2) [of b c] by (simp add: Publish Inr r)
    show ?thesis
      using b enforced_tenant [OF e'(1)] set_push_recent [of e' b] e'(2,3)
      by (auto simp: isolated_def Publish Inr r s)
  qed (use b in \<open>simp add: Publish\<close>)
qed (auto simp: isolated_def publish_end_def subscribe_def unsubscribe_def register_pressure_listener_def
      unregister_pressure_listener_def Let_def split: option.splits)

interpretation bus: step_invariant bus_step isolated
  by unfold_locales (rule isolated_step)

text \<open>C5. A bus with a tenant scope is closed to other tenants: whatever is published, subscribed and settled, every event
  in the recent buffer and every event handed to a subscriber carries the tenant of the bus.\<close>

theorem bus_tenant_isolation:
  assumes "scope \<noteq> []"
    and "e \<in> set (recent_buffer (run bus_step (create_bus n (Some scope) flt) cs)) \<or>
         (h, e) \<in> set (delivered (run bus_step (create_bus n (Some scope) flt) cs))"
  shows "ev_tenant e = Some scope"
proof -
  let ?b = "run bus_step (create_bus n (Some scope) flt) cs"
  have "isolated ?b" by (rule bus.run_good) (simp add: isolated_def create_bus_def)
  moreover have "tenant_scope (run bus_step b cs) = tenant_scope b" for b
    by (induction cs arbitrary: b) simp_all
  then have "tenant_scope ?b = Some scope" by (simp add: create_bus_def)
  ultimately show ?thesis using assms by (force simp: isolated_def)
qed

theorem bus_tenant_isolation_witness:
  "let e = \<lparr>ev_id = ''1'', ev_source = SSelf Wakeup, ev_target = TBroadcast, ev_kind = Self_wakeup, ev_timestamp = 0,
              ev_payload = JNull, ev_auth = AInternal, ev_meta = Some (empty_meta\<lparr>tenant_id := Some ''t''\<rparr>)\<rparr>
   in e \<in> set (recent_buffer (run bus_step (create_bus None (Some ''t'') None) [Publish e])) \<and> ev_tenant e = Some ''t''"
proof -
  let ?e = "\<lparr>ev_id = ''1'', ev_source = SSelf Wakeup, ev_target = TBroadcast, ev_kind = Self_wakeup, ev_timestamp = 0,
              ev_payload = JNull, ev_auth = AInternal, ev_meta = Some (empty_meta\<lparr>tenant_id := Some ''t''\<rparr>)\<rparr>"
  have "?e \<in> set (recent_buffer (run bus_step (create_bus None (Some ''t'') None) [Publish ?e]))"
    by (simp add: create_bus_def publish_begin_def enforce_tenant_scope_def meta_get_def push_recent_def
      passes_tenant_filter_def handlers_for_def)
  then show ?thesis using bus_tenant_isolation [of "''t''" ?e None None "[Publish ?e]"] by (simp add: Let_def)
qed

text \<open>The subscriber filter never rejects anything: an event that passes the scope check (and is stamped by it) passes
  the filter too, so \<^verbatim>\<open>filterSubscribersByTenant: false\<close> opens nothing and a foreign event is refused either way.\<close>

lemma tenant_filter_vacuous:
  "publish_begin e (b\<lparr>filter_subs := True\<rparr>) =
     map_sum id (map_prod id (filter_subs_update (\<lambda>_. True))) (publish_begin e (b\<lparr>filter_subs := False\<rparr>)) \<and>
   (nonempty_opt (tenant_scope b) \<longrightarrow> ev_tenant e \<noteq> None \<longrightarrow> ev_tenant e \<noteq> tenant_scope b \<longrightarrow>
     publish_begin e (b\<lparr>filter_subs := False\<rparr>) =
       Inl (Tenant_boundary (the (ev_tenant e)) (the (tenant_scope b)) (ev_id e)))"
proof
  have s: "enforce_tenant_scope (b\<lparr>filter_subs := x\<rparr>) e = enforce_tenant_scope b e" for x
    by (simp add: enforce_tenant_scope_def)
  show "publish_begin e (b\<lparr>filter_subs := True\<rparr>) =
     map_sum id (map_prod id (filter_subs_update (\<lambda>_. True))) (publish_begin e (b\<lparr>filter_subs := False\<rparr>))"
  proof (cases "enforce_tenant_scope b e")
    case (Inr e')
    have p: "passes_tenant_filter (push_recent e' (b\<lparr>filter_subs := x\<rparr>)) e'" for x
      using enforced_passes [of "b\<lparr>filter_subs := x\<rparr>" e e'] Inr s by simp
    have h: "handlers_for (push_recent e' (b\<lparr>filter_subs := x\<rparr>)) k = handlers_for b k" for x k
      by (simp add: handlers_for_def split: option.split)
    show ?thesis using p
      by (simp add: publish_begin_def s Inr h Let_def)
        (simp add: push_recent_def emit_pressure_crossings_def Let_def)
  qed (simp add: publish_begin_def s)
qed (auto simp: publish_begin_def enforce_tenant_scope_def nonempty_opt_iff)

section \<open>The recent buffer\<close>

definition last_n :: "int \<Rightarrow> 'a list \<Rightarrow> 'a list" where
  "last_n n xs = drop (length xs - nat n) xs"

lemma last_n_snoc:
  assumes "1 \<le> n" and "buf = last_n n xs"
  shows "(if int (length (buf @ [x])) > n then tl (buf @ [x]) else buf @ [x]) = last_n n (xs @ [x])"
proof (cases "length xs < nat n")
  case True
  then have "\<not> n < 1 + int (length xs)" by linarith
  then show ?thesis using assms True by (simp add: last_n_def)
next
  case False
  then have "length (drop (length xs - nat n) xs) = nat n" by simp
  then have "drop (length xs - nat n) xs \<noteq> []" using assms(1) by auto
  then have "tl (drop (length xs - nat n) xs @ [x]) = drop (Suc (length xs) - nat n) xs @ [x]"
    using False by (simp add: drop_Suc tl_drop Suc_diff_le)
  then show ?thesis using assms False by (auto simp: last_n_def)
qed

lemma accepted_const: "accepted (bus_step b c) cs = accepted b cs"
proof -
  have "enforce_tenant_scope (bus_step b c) e = enforce_tenant_scope b e" for e
    by (simp add: enforce_tenant_scope_def)
  then show ?thesis by (induction b cs rule: accepted.induct) (auto split: sum.split)
qed

lemma recent_run:
  "1 \<le> buffer_size b \<Longrightarrow> recent_buffer b = last_n (buffer_size b) xs \<Longrightarrow>
   recent_buffer (run bus_step b cs) = last_n (buffer_size b) (xs @ accepted b cs)"
proof (induction cs arbitrary: b xs)
  case (Cons c cs)
  have "\<exists>ys. recent_buffer (bus_step b c) = last_n (buffer_size b) (xs @ ys) \<and> accepted b (c # cs) = ys @ accepted b cs"
  proof (cases c)
    case (Publish e)
    show ?thesis
    proof (cases "enforce_tenant_scope b e")
      case (Inl x)
      then show ?thesis using Cons.prems by (auto simp: Publish publish_begin_def intro!: exI [of _ "[]"])
    next
      case (Inr e')
      then have "\<exists>r. publish_begin e b = Inr r"
        by (simp add: publish_begin_def Let_def)
      then obtain tok b' where p: "publish_begin e b = Inr (tok, b')" by fast
      obtain e2 where "enforce_tenant_scope b e = Inr e2" "recent_buffer b' = recent_buffer (push_recent e2 b)"
        using publish_cases [OF p] by blast
      then have "recent_buffer b' = last_n (buffer_size b) (xs @ [e'])"
        unfolding last_n_snoc [OF Cons.prems, symmetric] using Inr by (simp add: push_recent_def Let_def)
      then show ?thesis by (intro exI [of _ "[e']"]) (simp add: Publish p Inr)
    qed
  qed (use Cons.prems in \<open>auto simp: publish_end_def subscribe_def unsubscribe_def register_pressure_listener_def
      unregister_pressure_listener_def Let_def intro!: exI [of _ "[]"] split: option.splits\<close>)
  then obtain ys where y: "recent_buffer (bus_step b c) = last_n (buffer_size b) (xs @ ys)"
    "accepted b (c # cs) = ys @ accepted b cs" by blast
  have "recent_buffer (run bus_step (bus_step b c) cs) =
      last_n (buffer_size (bus_step b c)) ((xs @ ys) @ accepted (bus_step b c) cs)"
    using Cons.prems y(1) by (intro Cons.IH) simp_all
  then show ?case using y(2) by (simp add: accepted_const)
qed simp

text \<open>The recent buffer holds exactly the last accepted events, as stamped and in order, as many as its size allows.\<close>

lemma recent_is_last_accepted:
  "recent None (run bus_step (create_bus n scope flt) cs) =
     last_n (max 1 (case n of None \<Rightarrow> 1000 | Some k \<Rightarrow> k)) (accepted (create_bus n scope flt) cs)"
  using recent_run [of "create_bus n scope flt" "[]" cs]
  by (simp add: recent_def create_bus_def last_n_def)

section \<open>Pressure\<close>

fun alternating :: "edge list \<Rightarrow> bool" where
  "alternating (x # y # es) \<longleftrightarrow> x \<noteq> y \<and> alternating (y # es)"
| "alternating _ = True"

definition edges :: "nat \<Rightarrow> bus \<Rightarrow> edge list" where
  "edges i b = map (fst \<circ> snd) (filter (\<lambda>n. fst n = i) (pressure_notes b))"

lemma alternating_snoc: "alternating (es @ [x]) \<longleftrightarrow> alternating es \<and> (es = [] \<or> last es \<noteq> x)"
  by (induction es rule: alternating.induct) auto

definition listener_ok :: "bus \<Rightarrow> pressure_listener \<Rightarrow> bool" where
  "listener_ok b l \<longleftrightarrow>
     alternating (edges (pl_id l) b) \<and>
     (edges (pl_id l) b \<noteq> [] \<longrightarrow> last (edges (pl_id l) b) = (if pl_over l then High else Low)) \<and>
     (low_watermark l < high_watermark l \<longrightarrow>
        (inflight_count b \<ge> high_watermark l \<longrightarrow> pl_over l) \<and> (inflight_count b \<le> low_watermark l \<longrightarrow> \<not> pl_over l))"

definition pressure_ok :: "bus \<Rightarrow> bool" where
  "pressure_ok b \<longleftrightarrow> distinct (map pl_id (pressure_listeners b)) \<and>
     (\<forall>l \<in> set (pressure_listeners b). pl_id l < next_token b \<and> listener_ok b l) \<and>
     (\<forall>n \<in> set (pressure_notes b). fst n < next_token b)"

lemma pressure_turn_id [simp]: "pl_id (fst (pressure_turn n l)) = pl_id l"
  "high_watermark (fst (pressure_turn n l)) = high_watermark l" "low_watermark (fst (pressure_turn n l)) = low_watermark l"
  by (simp_all add: pressure_turn_def)

lemma pressure_turn_notes: "n \<in> set (snd (pressure_turn k l)) \<Longrightarrow> fst n = pl_id l"
  by (auto simp: pressure_turn_def split: if_splits)

lemma notes_of_listener:
  "distinct (map pl_id ls) \<Longrightarrow> l \<in> set ls \<Longrightarrow>
   filter (\<lambda>n. fst n = pl_id l) (concat (map (snd \<circ> pressure_turn k) ls)) = snd (pressure_turn k l)"
proof (induction ls)
  case (Cons a ls)
  have none: "filter (\<lambda>n. fst n = pl_id l) (concat (map (snd \<circ> pressure_turn k) ls)) = []"
    if "pl_id l \<notin> pl_id ` set ls" for l
    using that pressure_turn_notes by (fastforce simp: filter_empty_conv)
  show ?case
  proof (cases "pl_id l = pl_id a")
    case True
    then have "l = a" using Cons.prems by (metis distinct.simps(2) image_eqI list.set_map list.simps(9) set_ConsD)
    then show ?thesis using Cons.prems none [of a] pressure_turn_notes [of _ k a]
      by (simp add: filter_id_conv comp_def)
  next
    case False
    then have "filter (\<lambda>n. fst n = pl_id l) (snd (pressure_turn k a)) = []"
      using pressure_turn_notes [of _ k a] by (force simp: filter_empty_conv)
    with False Cons show ?thesis by auto
  qed
qed simp

lemma emit_pressure_ok:
  assumes "distinct (map pl_id (pressure_listeners b))"
    and "\<forall>l \<in> set (pressure_listeners b). pl_id l < next_token b \<and> alternating (edges (pl_id l) b) \<and>
       (edges (pl_id l) b \<noteq> [] \<longrightarrow> last (edges (pl_id l) b) = (if pl_over l then High else Low))"
    and "\<forall>n \<in> set (pressure_notes b). fst n < next_token b"
  shows "pressure_ok (emit_pressure_crossings b)"
proof -
  let ?k = "int (length (in_flight b))" and ?b = "emit_pressure_crossings b"
  have ls: "pressure_listeners ?b = map (fst \<circ> pressure_turn ?k) (pressure_listeners b)"
    and ns: "pressure_notes ?b = pressure_notes b @ concat (map (snd \<circ> pressure_turn ?k) (pressure_listeners b))"
    and tok: "next_token ?b = next_token b"
    by (simp_all add: emit_pressure_crossings_def Let_def)
  have ids: "map pl_id (pressure_listeners ?b) = map pl_id (pressure_listeners b)" by (simp add: ls)
  have "pl_id l' < next_token ?b \<and> listener_ok ?b l'" if l': "l' \<in> set (pressure_listeners ?b)" for l'
  proof -
    from l' obtain l where l: "l \<in> set (pressure_listeners b)" "l' = fst (pressure_turn ?k l)" by (auto simp: ls)
    have e: "edges (pl_id l) ?b = edges (pl_id l) b @ map (fst \<circ> snd) (snd (pressure_turn ?k l))"
      using notes_of_listener [OF assms(1) l(1), of ?k] by (simp add: edges_def ns)
    have "alternating (edges (pl_id l) b)"
      "edges (pl_id l) b \<noteq> [] \<longrightarrow> last (edges (pl_id l) b) = (if pl_over l then High else Low)"
      "pl_id l < next_token b" using assms(2) l(1) by auto
    then show ?thesis unfolding listener_ok_def l(2) pressure_turn_id e tok
      by (auto simp: pressure_turn_def alternating_snoc inflight_count_def)
  qed
  moreover have "\<forall>n \<in> set (pressure_notes ?b). fst n < next_token ?b"
    using assms(2,3) pressure_turn_notes by (fastforce simp: ns tok)
  ultimately show ?thesis using assms(1) by (simp add: pressure_ok_def ids)
qed

lemma pressure_ok_step: "pressure_ok b \<Longrightarrow> pressure_ok (bus_step b c)"
proof (cases c)
  case (Publish e)
  assume b: "pressure_ok b"
  show ?thesis
  proof (cases "enforce_tenant_scope b e")
    case (Inr e')
    let ?b1 = "push_recent e' b"
    have tok: "next_token ?b1 = next_token b" by (simp add: push_recent_def Let_def)
    have same: "pressure_ok ?b1" using b
      by (simp add: pressure_ok_def tok listener_ok_def edges_def inflight_count_def)
    let ?b2 = "?b1\<lparr>in_flight := in_flight ?b1 @ [next_token b], next_token := next_token b + 1,
        delivered := delivered ?b1 @ map (\<lambda>h. (h, e')) (handlers_for ?b1 (ev_kind e'))\<rparr>"
    have "pressure_ok (emit_pressure_crossings ?b2)"
      using b by (intro emit_pressure_ok) (auto simp: pressure_ok_def listener_ok_def edges_def less_Suc_eq)
    with same show ?thesis using Inr enforced_passes [OF Inr]
      by (auto simp: Publish publish_begin_def Let_def tok)
  qed (use b in \<open>simp add: Publish publish_begin_def\<close>)
next
  case (Settle t)
  assume "pressure_ok b"
  then show ?thesis unfolding Settle bus_step.simps publish_end_def
    by (intro emit_pressure_ok) (auto simp: pressure_ok_def listener_ok_def edges_def)
next
  case (Register hi lo)
  assume b: "pressure_ok b"
  have "edges (next_token b) b = []" using b by (auto simp: edges_def filter_empty_conv pressure_ok_def)
  with b show ?thesis
    by (auto simp: Register register_pressure_listener_def Let_def pressure_ok_def listener_ok_def edges_def
      inflight_count_def less_Suc_eq)
next
  case (Unregister l)
  assume "pressure_ok b"
  then show ?thesis
    by (auto simp: Unregister unregister_pressure_listener_def pressure_ok_def listener_ok_def edges_def
      inflight_count_def distinct_map_filter)
qed (auto simp: pressure_ok_def listener_ok_def edges_def inflight_count_def subscribe_def unsubscribe_def Let_def
      split: option.splits)

interpretation pressure: step_invariant bus_step pressure_ok
  by unfold_locales (rule pressure_ok_step)

text \<open>The pressure signal is edge-triggered: the \<^verbatim>\<open>onHigh\<close> and \<^verbatim>\<open>onLow\<close> calls of a listener strictly alternate, the last
  one tells whether it is over its high mark, and (when the marks differ) it is over whenever the publishes in flight
  have reached the high mark and not over whenever they are down to the low mark.\<close>

lemma pressure_edges:
  assumes "l \<in> set (pressure_listeners (run bus_step (create_bus n scope flt) cs))"
  shows "listener_ok (run bus_step (create_bus n scope flt) cs) l"
proof -
  have "pressure_ok (run bus_step (create_bus n scope flt) cs)"
    by (rule pressure.run_good) (simp add: pressure_ok_def create_bus_def)
  then show ?thesis using assms by (simp add: pressure_ok_def)
qed

end
