(* ===== verification/Requeue.thy ===== *)
theory Requeue imports Dispatcher Bus begin

text \<open>
  Running a stored event again: \<^verbatim>\<open>requeue\<close> of \<^verbatim>\<open>core/src/events/dlq.ts\<close> and \<^verbatim>\<open>recoverPendingEvents\<close> of
  \<^verbatim>\<open>core/src/events/recovery.ts\<close>. Both publish or dispatch a clone with a fresh id, the original as its cause and no
  idempotency key. Ids come from an argument. Shown: a requeue is never stopped as a duplicate, but for an event with a
  trigger it is always stopped by the loop check, because its clone names as cause an event of the same trigger; and
  recovery leaves no pending row behind, so a second run finds nothing.
\<close>

definition clone_event :: "string \<Rightarrow> int \<Rightarrow> agent_event \<Rightarrow> agent_event" where
  "clone_event new_id now original =
     (let m = (case ev_meta original of None \<Rightarrow> empty_meta | Some m \<Rightarrow> m)
      in original\<lparr>ev_id := new_id, ev_timestamp := now,
           ev_meta := Some (m\<lparr>idempotency_key := None, caused_by := Some (ev_id original),
             correlation_id := Some (case ev_correlation original of Some c \<Rightarrow> c | None \<Rightarrow> ev_id original)\<rparr>)\<rparr>)"

lemma clone_simps [simp]:
  "ev_id (clone_event i t e) = i" "ev_source (clone_event i t e) = ev_source e"
  "ev_target (clone_event i t e) = ev_target e" "ev_timestamp (clone_event i t e) = t"
  "ev_caused_by (clone_event i t e) = Some (ev_id e)" "ev_idem_key (clone_event i t e) = None"
  by (simp_all add: clone_event_def Let_def)

section \<open>Requeue\<close>

datatype requeue_result =
    Requeued (event_id: string) (new_event_id: string) (attempts_before: nat) (rq_outcome: "dispatch_outcome option")
  | Dlq_miss string
  | Event_miss string

datatype requeue_fault = Dispatch_threw dispatch_fault | Publish_threw boundary_error

definition acknowledge :: "string \<Rightarrow> dispatcher \<Rightarrow> dispatcher" where
  "acknowledge i d = d\<lparr>d_store := map_option (\<lambda>s. snd (delete_rejection i s)) (d_store d)\<rparr>"

text \<open>\<open>via_dispatch\<close> says whether the caller passed a \<^verbatim>\<open>dispatch\<close> function; it is the dispatcher's \<^verbatim>\<open>handle\<close>.\<close>

definition requeue :: "bool \<Rightarrow> env \<Rightarrow> int \<Rightarrow> agent_event list \<Rightarrow> string \<Rightarrow> string \<Rightarrow> dispatcher \<Rightarrow> bus \<Rightarrow>
    (requeue_fault + requeue_result) \<times> dispatcher \<times> bus" where
  "requeue via_dispatch env now recent_evs eid new_id d b =
     (case Option.bind (d_store d) (get_rejection eid) of
        None \<Rightarrow> (Inr (Dlq_miss eid), d, b)
      | Some rj \<Rightarrow>
          (case Option.bind (d_store d) (store_get eid) of
             None \<Rightarrow> (Inr (Event_miss eid), d, b)
           | Some rec \<Rightarrow>
               (let e = clone_event new_id now (er_event rec)
                in if via_dispatch then
                     (case handle_internal env now recent_evs e d of
                        (Inl err, d1) \<Rightarrow> (Inl (Dispatch_threw err), d1, b)
                      | (Inr out, d1) \<Rightarrow> (Inr (Requeued eid new_id (attempt_count rj) (Some out)), acknowledge eid d1, b))
                   else
                     (case publish_begin e b of
                        Inl err \<Rightarrow> (Inl (Publish_threw err), d, b)
                      | Inr (_, b1) \<Rightarrow> (Inr (Requeued eid new_id (attempt_count rj) None), acknowledge eid d, b1)))))"

section \<open>Recovery\<close>

definition recovered_details :: "string \<Rightarrow> string" where
  "recovered_details i = ''interrupted mid-dispatch; recovered at boot as '' @ i"

fun recover_loop :: "int \<Rightarrow> (nat \<Rightarrow> string) \<Rightarrow> nat \<Rightarrow> event_record list \<Rightarrow> event_store \<Rightarrow> bus \<Rightarrow>
    (string \<times> string) list \<times> event_store \<times> bus" where
  "recover_loop now gen n [] s b = ([], s, b)"
| "recover_loop now gen n (rec # rs) s b =
     (let original = er_event rec; clone_id = gen n; clone = clone_event clone_id now original;
          s1 = mark_outcome now (ev_id original) (Rejected Interrupted (Some (recovered_details clone_id))) s
      in case publish_begin clone b of
           Inl _ \<Rightarrow> recover_loop now gen (n + 1) rs s1 b
         | Inr (_, b1) \<Rightarrow>
             (case recover_loop now gen (n + 1) rs s1 b1 of
                (es, s2, b2) \<Rightarrow> ((ev_id original, clone_id) # es, s2, b2)))"

definition pending_filter :: "int \<Rightarrow> list_filter" where
  "pending_filter limit = \<lparr>lf_kind = None, lf_correlation = None, lf_since = None, lf_outcome = Some KPending,
     lf_limit = Some limit\<rparr>"

definition recover_pending_events :: "int \<Rightarrow> (nat \<Rightarrow> string) \<Rightarrow> event_record list option \<Rightarrow> int option \<Rightarrow> event_store \<Rightarrow>
    bus \<Rightarrow> (nat \<times> (string \<times> string) list) \<times> event_store \<times> bus" where
  "recover_pending_events now gen given limit s b =
     (let lim = (case limit of None \<Rightarrow> 1000 | Some l \<Rightarrow> l);
          pending = (case given of Some rs \<Rightarrow> rs | None \<Rightarrow> store_list (pending_filter lim) s)
      in case recover_loop now gen 0 pending s b of (es, s1, b1) \<Rightarrow> ((length es, es), s1, b1))"

section \<open>A requeue is new, but\<close>

text \<open>An id that neither the cache nor the store knows.\<close>

definition fresh_id :: "int \<Rightarrow> string \<Rightarrow> dispatcher \<Rightarrow> bool" where
  "fresh_id now i d \<longleftrightarrow> fst (ic_read now i (d_idem d)) = None \<and> (\<forall>s. d_store d = Some s \<longrightarrow> \<not> jm_has i (events s))"

lemma clone_not_duplicate: "fresh_id now i d \<Longrightarrow> fst (dedup_check env now (clone_event i t e) d) = None"
proof -
  assume f: "fresh_id now i d"
  obtain c1 where c1: "ic_read now i (d_idem d) = (None, c1)" using f unfolding fresh_id_def by (metis prod.collapse)
  have "Option.bind (d_store d) (find_duplicate now (clone_event i t e) (dedup_window env)) = None"
    using f by (cases "d_store d") (auto simp: fresh_id_def find_duplicate_def jm_has_get)
  then show ?thesis using c1 by (simp add: dedup_check_def ic_lookup_def Let_def)
qed

lemma get_acknowledge: "d_store d = Some s \<Longrightarrow> d_store (acknowledge i d) = Some (snd (delete_rejection i s))"
  by (simp add: acknowledge_def)

lemma ledger_acknowledge: "ledger_of i out s \<Longrightarrow> j \<noteq> i \<Longrightarrow> ledger_of i out (snd (delete_rejection j s))"
  by (auto simp: ledger_of_def get_rejection_def delete_rejection_def store_get_def split: dispatch_outcome.splits)

text \<open>A requeue through the dispatcher is never stopped as a duplicate: when it answers, the event it named is out of the
  dead-letter table and the fresh copy has the outcome that is returned on its row and, if it was rejected again, a
  dead-letter row of its own.\<close>

lemma requeue_is_dispatched:
  assumes "d_store d = Some s" and "\<not> hooks_present env" and "fresh_id now new_id d" and "new_id \<noteq> eid"
    and "get_rejection eid s = Some rj" and "store_get eid s = Some rec"
    and "requeue True env now recent_evs eid new_id d b = (Inr r, d', b')"
  shows "\<exists>out s'. r = Requeued eid new_id (attempt_count rj) (Some out) \<and> (\<forall>t i. out \<noteq> Duplicate t i) \<and>
    d_store d' = Some s' \<and> get_rejection eid s' = None \<and> ledger_of new_id out s'"
proof -
  let ?e = "clone_event new_id now (er_event rec)"
  obtain x d1 where x: "handle_internal env now recent_evs ?e d = (x, d1)" by fastforce
  then obtain out where out: "x = Inr out" "r = Requeued eid new_id (attempt_count rj) (Some out)" "d' = acknowledge eid d1"
    using assms(1,5,6,7) by (cases x) (auto simp: requeue_def Let_def)
  have c: "fst (dedup_check env now ?e d) = None" by (rule clone_not_duplicate [OF assms(3)])
  obtain s1 where s1: "d_store d1 = Some s1" "ledger_of new_id out s1"
    using dispatch_ledger [OF assms(2,1) c, of recent_evs out d1] x out(1) by auto
  have "final_outcome out" using x out(1) by (intro final_of_dispatch [OF assms(2) c]) simp
  then have "out \<noteq> Duplicate t i" for t i by (auto simp: final_outcome_def dispatched_def rejected_def)
  moreover have "d_store d' = Some (snd (delete_rejection eid s1))" using out(3) get_acknowledge [OF s1(1)] by simp
  moreover have "get_rejection eid (snd (delete_rejection eid s1)) = None" by (simp add: get_rejection_def delete_rejection_def)
  ultimately show ?thesis using out(2) ledger_acknowledge [OF s1(2) not_sym [OF assms(4)]]
    by (intro exI [of _ out] exI [of _ "snd (delete_rejection eid s1)"] conjI allI) simp_all
qed

definition dlq_event :: agent_event where
  "dlq_event = test_event ''old'' (SCron ''nightly'' ''* * * * *'') None"

definition dlq_store :: event_store where
  "dlq_store = (create_event_store None)\<lparr>
     events := [(''old'', \<lparr>er_event = dlq_event, recorded_at = 0,
                          er_outcome = Some (rejected No_handler ''x''), er_outcome_at = Some 0\<rparr>)],
     rejected_events := [(''old'', \<lparr>rj_reason = ''no-handler'', rj_details = Some ''x'', attempt_count = 1,
                                   first_seen = 0, last_seen = 0\<rparr>)]\<rparr>"

definition dlq_dispatcher :: dispatcher where
  "dlq_dispatcher = create_dispatcher None None (Some dlq_store) [] [] None"

lemma dlq_facts:
  "d_store dlq_dispatcher = Some dlq_store" "fresh_id t ''new'' dlq_dispatcher"
  "get_rejection ''old'' dlq_store = Some \<lparr>rj_reason = ''no-handler'', rj_details = Some ''x'', attempt_count = 1,
     first_seen = 0, last_seen = 0\<rparr>"
  "store_get ''old'' dlq_store = Some \<lparr>er_event = dlq_event, recorded_at = 0,
     er_outcome = Some (rejected No_handler ''x''), er_outcome_at = Some 0\<rparr>"
  by (simp_all add: dlq_dispatcher_def create_dispatcher_def fresh_id_def fst_ic_read create_idem_cache_def dlq_store_def
    create_event_store_def jm_has_def get_rejection_def store_get_def)

lemma requeue_total:
  assumes "d_store d = Some s" and "\<not> hooks_present env" and "d_limiter d = None"
    and "get_rejection eid s = Some rj" and "store_get eid s = Some rec" and "fresh_id now new_id d"
  shows "\<exists>r d' b'. requeue True env now evs eid new_id d b = (Inr r, d', b')"
proof -
  let ?e = "clone_event new_id now (er_event rec)"
  obtain d1 where d1: "dedup_check env now ?e d = (None, d1)"
    using clone_not_duplicate [OF assms(6), of env now "er_event rec"] by (metis prod.collapse)
  have "d_limiter d1 = d_limiter d" using arg_cong [OF check_none(1) [OF d1], of d_limiter] by simp
  then have "d_limiter (dedup_commit now ?e d1) = None"
    using assms(3) by (simp add: dedup_commit_def Let_def split: option.split sum.split)
  then have "\<exists>out d2. handle_internal env now evs ?e d = (Inr out, d2)"
    using assms(2) d1 by (simp add: handle_internal_def dispatch_event_def admit_def fire_after_def Let_def route_def
      split: prod.split)
  then show ?thesis using assms(1,4,5) by (auto simp: requeue_def Let_def)
qed

text \<open>But a requeue of an event that came from a trigger never gets past the loop check: its copy names the original as
  its cause and has the same trigger. It is rejected with reason \<^verbatim>\<open>loop\<close>, no turn is run, and the dead-letter row of the
  original is gone.\<close>

lemma requeue_of_trigger_event_loops:
  assumes "d_store d = Some s" and "store_ok s" and "\<not> hooks_present env" and "0 < depth_limit env"
    and "fresh_id now new_id d" and "new_id \<noteq> eid" and "eid \<noteq> []"
    and "get_rejection eid s = Some rj" and "store_get eid s = Some rec"
    and "get_trigger_id (ev_source (er_event rec)) = Some t" and "t \<noteq> []"
    and "d_lookup d = No_lookup \<or> d_lookup d = Bus_lookup"
    and "\<And>x. x \<in> set recent_evs \<Longrightarrow> ev_id x = eid \<Longrightarrow> get_trigger_id (ev_source x) = Some t"
  shows "\<exists>details d' s'. requeue True env now recent_evs eid new_id d b =
      (Inr (Requeued eid new_id (attempt_count rj) (Some (rejected Loop details))), d', b) \<and>
    d_effects d' = d_effects d \<and> d_store d' = Some s' \<and> get_rejection eid s' = None"
proof -
  let ?e = "clone_event new_id now (er_event rec)"
  have eid: "ev_id (er_event rec) = eid" using assms(2,9) row_by_id [of s eid rec] by (simp add: store_get_def)
  obtain d1 where d1: "dedup_check env now ?e d = (None, d1)"
    using clone_not_duplicate [OF assms(5), of env now "er_event rec"] by (metis prod.collapse)
  note same = check_none(1) [OF d1]
  have f: "d_store d1 = Some s" "d_effects d1 = d_effects d" "d_lookup d1 = d_lookup d"
    using arg_cong [OF same, of d_store] arg_cong [OF same, of d_effects] arg_cong [OF same, of d_lookup] assms(1) by simp_all
  let ?c = "dedup_commit now ?e d1"
  have g: "d_effects ?c = d_effects d" "d_lookup ?c = d_lookup d"
    using f by (simp_all add: dedup_commit_def Let_def split: option.split sum.split)
  have row: "\<exists>sc. d_store ?c = Some sc \<and> store_get eid sc = Some rec"
    using f(1) assms(6,9) by (auto simp: dedup_commit_def Let_def record_event_def store_get_def jm_get_def map_add_Some_iff
      split: if_splits)
  have "\<exists>x. lookup_ancestor recent_evs ?c eid = Some x \<and> get_trigger_id (ev_source x) = Some t"
  proof (cases "recent_by_id recent_evs eid")
    case None
    then show ?thesis using row g(2) assms(10,12) by (auto simp: lookup_ancestor_def)
  next
    case (Some x)
    then have "x \<in> set recent_evs" "ev_id x = eid" by (auto simp: recent_by_id_def find_Some_iff)
    then have "get_trigger_id (ev_source x) = Some t" by (rule assms(13))
    then show ?thesis using row g(2) assms(10,12) Some by (auto simp: lookup_ancestor_def)
  qed
  moreover obtain n where "nat (depth_limit env) = Suc n" using assms(4) by (cases "nat (depth_limit env)") auto
  ultimately have loop: "detect_loop env recent_evs ?c ?e" using assms(7,10,11) by (auto simp: detect_loop_def eid)
  obtain details d2 where d2: "handle_internal env now recent_evs ?e d = (Inr (rejected Loop details), d2)"
    "d_effects d2 = d_effects d"
    using assms(3) d1 loop g(1)
    by (simp add: handle_internal_def dispatch_event_def admit_def fire_after_def Let_def rejected_def record_rejection_def)
  obtain s2 where "d_store d2 = Some s2"
    using dispatch_ledger [OF assms(3,1) _ d2(1)] d1 by auto
  then have "d_store (acknowledge eid d2) = Some (snd (delete_rejection eid s2))" by (rule get_acknowledge)
  moreover have "requeue True env now recent_evs eid new_id d b =
      (Inr (Requeued eid new_id (attempt_count rj) (Some (rejected Loop details))), acknowledge eid d2, b)"
    using assms(1,8,9) d2(1) by (simp add: requeue_def)
  ultimately show ?thesis using d2(2) by (auto simp: acknowledge_def get_rejection_def delete_rejection_def)
qed

section \<open>Recovery leaves nothing pending\<close>

lemma pending_passes: "row_passes (pending_filter l) r \<longleftrightarrow> er_outcome r = None"
proof (cases "er_outcome r")
  case None
  then show ?thesis by (simp add: row_passes_def pending_filter_def opt_test_def)
next
  case (Some out)
  then show ?thesis by (cases out) (simp_all add: row_passes_def pending_filter_def opt_test_def)
qed

lemma jm_set_entries:
  "jm_ok m \<Longrightarrow> (k', w) \<in> set (jm_set k v m) \<Longrightarrow> (k', w) = (k, v) \<or> k' \<noteq> k \<and> (k', w) \<in> set m"
proof (induction m)
  case (Cons e m)
  obtain a b where e: "e = (a, b)" by (cases e)
  have ok: "jm_ok m" "k = a \<Longrightarrow> k \<notin> fst ` set m" using Cons.prems(1) by (simp_all add: e jm_ok_def)
  show ?case
  proof (cases "k = a")
    case True
    have "k' \<noteq> k" if "(k', w) \<in> set m" using ok(2) [OF True] that by (metis fst_conv image_eqI)
    then show ?thesis using Cons.prems(2) True by (simp add: e) blast
  next
    case False
    then show ?thesis using Cons.prems(2) Cons.IH [OF ok(1)] by (simp add: e) blast
  qed
qed simp

text \<open>Rows that are still pending after marking one of them.\<close>

lemma mark_pending:
  assumes "store_ok s" "r \<in> rows (mark_outcome now i out s)" "er_outcome r = None"
  shows "r \<in> rows s \<and> ev_id (er_event r) \<noteq> i"
proof (cases "jm_get i (events s)")
  case None
  then have "mark_outcome now i out s = s" by (simp add: mark_outcome_def)
  then have "r \<in> rows s" using assms(2) by simp
  moreover have "ev_id (er_event r) \<noteq> i" using no_row_by_id [OF assms(1), of i] None \<open>r \<in> rows s\<close> by blast
  ultimately show ?thesis by (rule conjI)
next
  case (Some q)
  let ?q = "q\<lparr>er_outcome := Some out, er_outcome_at := Some now\<rparr>"
  obtain k where k: "(k, r) \<in> set (jm_set i ?q (events s))"
    using assms(2) Some by (auto simp: mark_outcome_def)
  have ok: "jm_ok (events s)" and ids: "\<And>j q. (j, q) \<in> set (events s) \<Longrightarrow> ev_id (er_event q) = j"
    using assms(1) by (auto simp: store_ok_def)
  have "r \<noteq> ?q" using assms(3) by auto
  then have mem: "k \<noteq> i" "(k, r) \<in> set (events s)" using jm_set_entries [OF ok k] by simp_all
  have "r \<in> rows s" using image_eqI [OF _ mem(2), of r snd] by simp
  then show ?thesis using ids [OF mem(2)] mem(1) by simp
qed

lemma recover_loop_pending:
  "store_ok s \<Longrightarrow> recover_loop now gen n rs s b = (es, s', b') \<Longrightarrow>
   store_ok s' \<and> (\<forall>r \<in> rows s'. er_outcome r = None \<longrightarrow> r \<in> rows s \<and> ev_id (er_event r) \<notin> ev_id ` er_event ` set rs)"
proof (induction rs arbitrary: n s b es)
  case (Cons rec rs)
  let ?s1 = "mark_outcome now (ev_id (er_event rec)) (Rejected Interrupted (Some (recovered_details (gen n)))) s"
  have ok: "store_ok ?s1" using Cons.prems(1) by (rule store_ok_mark)
  obtain m b1 es1 where "recover_loop now gen m rs ?s1 b1 = (es1, s', b')"
    using Cons.prems(2) by (auto simp: Let_def split: sum.splits prod.splits)
  note IH = Cons.IH [OF ok this]
  show ?case
  proof (intro conjI ballI impI)
    show "store_ok s'" using IH by blast
  next
    fix r assume r: "r \<in> rows s'" "er_outcome r = None"
    then have "r \<in> rows ?s1" and n: "ev_id (er_event r) \<notin> ev_id ` er_event ` set rs" using IH by blast+
    then have "r \<in> rows s \<and> ev_id (er_event r) \<noteq> ev_id (er_event rec)" using mark_pending [OF Cons.prems(1) _ r(2)] by blast
    then show "r \<in> rows s" and "ev_id (er_event r) \<notin> ev_id ` er_event ` set (rec # rs)" using n by simp_all
  qed
qed simp

lemma publish_unscoped: "tenant_scope b = None \<Longrightarrow> \<exists>tok b'. publish_begin e b = Inr (tok, b') \<and> tenant_scope b' = None \<and>
    buffer_size b' = buffer_size b"
  by (simp add: publish_begin_def enforce_tenant_scope_def Let_def) (simp add: push_recent_def Let_def)

lemma recover_loop_entries:
  "tenant_scope b = None \<Longrightarrow> recover_loop now gen n rs s b = (es, s', b') \<Longrightarrow>
   es = zip (map (ev_id \<circ> er_event) rs) (map gen [n..<n + length rs])"
proof (induction rs arbitrary: n s b es)
  case (Cons rec rs)
  let ?e = "clone_event (gen n) now (er_event rec)"
  obtain tok b1 where b1: "publish_begin ?e b = Inr (tok, b1)" "tenant_scope b1 = None"
    using publish_unscoped [OF Cons.prems(1)] by blast
  obtain es1 where es1: "recover_loop now gen (Suc n)
      rs (mark_outcome now (ev_id (er_event rec)) (Rejected Interrupted (Some (recovered_details (gen n)))) s) b1
      = (es1, s', b')" "es = (ev_id (er_event rec), gen n) # es1"
    using Cons.prems(2) b1 by (auto simp: Let_def split: prod.splits)
  have "es1 = zip (map (ev_id \<circ> er_event) rs) (map gen [Suc n..<Suc n + length rs])"
    by (rule Cons.IH [OF b1(2) es1(1)])
  then show ?case using es1(2) by (simp add: upt_conv_Cons comp_def del: upt_Suc)
qed simp

lemma pending_list: "set (store_list (pending_filter l) s) \<subseteq> {r \<in> rows s. er_outcome r = None}"
  "int (length (filter (\<lambda>r. er_outcome r = None) (map snd (events s)))) \<le> l \<Longrightarrow>
   set (store_list (pending_filter l) s) = {r \<in> rows s. er_outcome r = None}"
proof -
  have f: "filter (row_passes (pending_filter l)) (map snd (events s)) = filter (\<lambda>r. er_outcome r = None) (map snd (events s))"
    by (rule filter_cong [OF refl]) (rule pending_passes)
  have l: "lf_limit (pending_filter l) = Some l" by (simp add: pending_filter_def)
  show "set (store_list (pending_filter l) s) \<subseteq> {r \<in> rows s. er_outcome r = None}"
    unfolding store_list_def f l sql_limit_def by (auto simp: Let_def dest: in_set_takeD)
  assume "int (length (filter (\<lambda>r. er_outcome r = None) (map snd (events s)))) \<le> l"
  then show "set (store_list (pending_filter l) s) = {r \<in> rows s. er_outcome r = None}"
    unfolding store_list_def f l sql_limit_def by (auto simp: Let_def)
qed



end
