(* ===== verification/JsonCanon.thy ===== *)
theory JsonCanon imports Framing "HOL-Library.List_Lexorder" "HOL-Library.Char_ord" begin

text \<open>
  Canonical JSON: \<^verbatim>\<open>deepSortKeys\<close> and \<^verbatim>\<open>canonicalizeRecord\<close> of \<^verbatim>\<open>core/src/audit/chain-verify.ts\<close>. Keys sort by code units.
  Shown: a record that went through the database (\<open>json_image\<close> of its sorted form) has the same canonical text as before,
  which is what makes a stored hash checkable.
\<close>

fun deep_sort :: "js \<Rightarrow> js" where
  "deep_sort (JArr xs) = JArr (map deep_sort xs)"
| "deep_sort (JObj ps) = JObj (sort_key fst (map (\<lambda>(k, v). (k, deep_sort v)) ps))"
| "deep_sort v = v"

definition canonicalize :: "(rat \<Rightarrow> string) \<Rightarrow> js \<Rightarrow> string" where
  "canonicalize num r = (case json_text num (deep_sort r) of None \<Rightarrow> ''undefined'' | Some t \<Rightarrow> t)"

section \<open>Sorting commutes\<close>

lemma insort_key_map: "(\<And>x. f (h x) = f x) \<Longrightarrow> insort_key f (h x) (map h xs) = map h (insort_key f x xs)"
  by (induction xs) auto

lemma sort_key_map: "(\<And>x. f (h x) = f x) \<Longrightarrow> sort_key f (map h xs) = map h (sort_key f xs)"
  by (induction xs) (simp_all add: insort_key_map)

lemma sort_key_again: "sort_key f (sort_key f xs) = sort_key f xs"
  by (intro sort_key_id_if_sorted sorted_sort_key)

abbreviation on_val :: "(js \<Rightarrow> js) \<Rightarrow> string \<times> js \<Rightarrow> string \<times> js" where
  "on_val g \<equiv> \<lambda>(k, v). (k, g v)"

lemma sort_key_on_val: "sort_key fst (map (on_val g) ps) = map (on_val g) (sort_key fst ps)"
  by (rule sort_key_map) (simp add: case_prod_beta)

lemma map_on_val_cong: "(\<And>k v. (k, v) \<in> set ps \<Longrightarrow> g v = h v) \<Longrightarrow> map (on_val g) ps = map (on_val h) ps"
  by (rule map_cong) auto

lemma deep_sort_idem: "deep_sort (deep_sort v) = deep_sort v"
proof (induction v rule: deep_sort.induct)
  case (2 ps)
  have "map (on_val (\<lambda>v. deep_sort (deep_sort v))) (sort_key fst ps) = map (on_val deep_sort) (sort_key fst ps)"
    using 2 by (intro map_on_val_cong) auto
  moreover have "map (on_val deep_sort) (map (on_val deep_sort) xs) = map (on_val (\<lambda>v. deep_sort (deep_sort v))) xs" for xs
    by (simp add: comp_def case_prod_beta)
  ultimately show ?case by (simp only: deep_sort.simps sort_key_on_val sort_key_again)
qed simp_all

section \<open>Through the database\<close>

text \<open>The members of an object that \<^verbatim>\<open>JSON.stringify\<close> keeps.\<close>

definition image_members :: "(string \<times> js) list \<Rightarrow> (string \<times> js) list" where
  "image_members ps = concat (map (\<lambda>(k, v). case json_image v of None \<Rightarrow> [] | Some y \<Rightarrow> [(k, y)]) ps)"

lemma image_members_filter:
  "image_members ps = map (on_val (\<lambda>v. the (json_image v))) (filter (\<lambda>(k, v). json_image v \<noteq> None) ps)"
  by (induction ps) (auto simp: image_members_def split: option.splits)

lemma json_image_obj: "json_image (JObj ps) = Some (JObj (image_members ps))"
  by (simp add: image_members_def)

lemma json_image_None: "json_image v = None \<longleftrightarrow> v = JUndef"
  by (cases v) auto

lemma sort_image_members: "sort_key fst (image_members ps) = image_members (sort_key fst ps)"
  by (simp add: image_members_filter sort_key_on_val filter_sort)

lemma image_members_cong:
  "(\<And>k v. (k, v) \<in> set ps \<Longrightarrow> json_image (g v) = map_option h (json_image v)) \<Longrightarrow>
   image_members (map (on_val g) ps) = map (on_val h) (image_members ps)"
proof (induction ps)
  case (Cons e ps)
  obtain k v where e: "e = (k, v)" by (cases e)
  have "json_image (g v) = map_option h (json_image v)" using Cons.prems [of k v] by (simp add: e)
  then show ?case using Cons by (cases "json_image v") (auto simp: image_members_def e)
qed (simp add: image_members_def)

lemma deep_sort_undef: "deep_sort v = JUndef \<longleftrightarrow> v = JUndef"
  by (cases v) auto

lemma json_image_deep_sort: "json_image (deep_sort v) = map_option deep_sort (json_image v)"
proof (induction v rule: deep_sort.induct)
  case (1 xs)
  have "(case json_image (deep_sort x) of None \<Rightarrow> JNull | Some y \<Rightarrow> y) =
      deep_sort (case json_image x of None \<Rightarrow> JNull | Some y \<Rightarrow> y)" if "x \<in> set xs" for x
    using 1 [OF that] by (cases "json_image x") simp_all
  then show ?case by simp
next
  case (2 ps)
  have "image_members (map (on_val deep_sort) ps) = map (on_val deep_sort) (image_members ps)"
    using 2 by (intro image_members_cong) auto
  then show ?case unfolding deep_sort.simps json_image_obj
    by (simp add: sort_image_members [symmetric] del: json_image.simps)
qed simp_all

lemma json_text_image: "json_image v = Some w \<Longrightarrow> json_text num w = json_text num v"
proof (induction v arbitrary: w rule: json_image.induct)
  case (6 xs)
  have "(case json_text num (case json_image x of None \<Rightarrow> JNull | Some y \<Rightarrow> y) of None \<Rightarrow> ''null'' | Some t \<Rightarrow> t) =
      (case json_text num x of None \<Rightarrow> ''null'' | Some t \<Rightarrow> t)" if "x \<in> set xs" for x
  proof (cases "json_image x")
    case None
    then show ?thesis by (simp add: json_image_None)
  next
    case (Some y)
    then show ?thesis using 6(1) [OF that Some] by simp
  qed
  then have "map ((\<lambda>x. case json_text num x of None \<Rightarrow> ''null'' | Some t \<Rightarrow> t) \<circ> (\<lambda>x. case json_image x of None \<Rightarrow> JNull | Some y \<Rightarrow> y)) xs =
     map (\<lambda>x. case json_text num x of None \<Rightarrow> ''null'' | Some t \<Rightarrow> t) xs" by (intro map_cong) simp_all
  moreover have "w = JArr (map (\<lambda>x. case json_image x of None \<Rightarrow> JNull | Some y \<Rightarrow> y) xs)" using 6(2) by simp
  ultimately show ?case by (simp only: json_text.simps map_map)
next
  case (7 ps)
  let ?t = "\<lambda>(k, v). case json_text num v of None \<Rightarrow> [] | Some t \<Rightarrow> [json_string k @ '':'' @ t]"
  have "json_text num w = json_text num v" if "(k, v) \<in> set ps" "json_image v = Some w" for k v w
    using 7(1) [OF that(1) refl that(2)] .
  then have "concat (map ?t (image_members ps)) = concat (map ?t ps)"
  proof (induction ps)
    case (Cons e ps)
    obtain k v where e: "e = (k, v)" by (cases e)
    have IH: "concat (map ?t (image_members ps)) = concat (map ?t ps)"
      using Cons.prems by (intro Cons.IH) (meson list.set_intros(2))
    show ?case
    proof (cases "json_image v")
      case None
      then have "json_text num v = None" by (simp add: json_image_None)
      then show ?thesis using IH None by (simp add: image_members_def e)
    next
      case (Some y)
      then have "json_text num y = json_text num v" using Cons.prems [of k v y] by (simp add: e)
      then show ?thesis using IH Some by (simp add: image_members_def e)
    qed
  qed (simp add: image_members_def)
  moreover have "w = JObj (image_members ps)" using 7(2) by (simp add: image_members_def)
  ultimately show ?case by simp
qed simp_all

text \<open>The record read back from the database has the canonical text of the record written.\<close>

lemma canonicalize_stored: "json_image (deep_sort r) = Some w \<Longrightarrow> canonicalize num w = canonicalize num r"
proof -
  assume a: "json_image (deep_sort r) = Some w"
  have "json_image (deep_sort (deep_sort r)) = Some (deep_sort w)" unfolding json_image_deep_sort [of "deep_sort r"] a by simp
  then have "json_text num (deep_sort w) = json_text num (deep_sort r)"
    unfolding deep_sort_idem using json_text_image a by metis
  then show ?thesis by (simp add: canonicalize_def)
qed

end
