(* ===== verification/AuditLog.thy ===== *)
theory AuditLog imports JsonCanon begin

text \<open>
  The audit log: \<^verbatim>\<open>core/src/audit/sqlite-sink.ts\<close>, the chain verifier of \<^verbatim>\<open>chain-verify.ts\<close>, the back-pressure gate of
  \<^verbatim>\<open>backpressure.ts\<close> and the erasure helpers of \<^verbatim>\<open>erase.ts\<close>. The digest (SHA-256 in hex) is the argument \<open>sha\<close>. A record
  is the object handed to \<^verbatim>\<open>record\<close>; a row keeps what \<^verbatim>\<open>JSON.parse\<close> gives back for its text. Rows are in the order of
  \<^verbatim>\<open>seq\<close> and never deleted. \<^verbatim>\<open>record\<close> suspends between reading the tail and inserting, so it is the two
  steps \<open>record_begin\<close> and \<open>record_end\<close>.

  Shown: without overlapping writers the log verifies after any mix of writes, erasures and prunings; two verified logs
  with the same last hash and no tombstones have the same history; overlapping writers and a per-tenant
  check make the verifier report violations; and what precedes a tombstone can be replaced unnoticed.
\<close>

section \<open>Fields of a record\<close>

fun field :: "string \<Rightarrow> js \<Rightarrow> js" where
  "field k (JObj ps) = (case jm_get k ps of None \<Rightarrow> JUndef | Some v \<Rightarrow> v)"
| "field k _ = JUndef"

text \<open>Fields have the types their declarations give them.\<close>

definition text_of :: "js \<Rightarrow> string" where
  "text_of v = (case v of JStr s \<Rightarrow> s | _ \<Rightarrow> [])"

definition num_of :: "js \<Rightarrow> rat" where
  "num_of v = (case v of JNum n \<Rightarrow> n | _ \<Rightarrow> 0)"

definition tenant_id_of :: "js \<Rightarrow> string" where
  "tenant_id_of r =
     (if field ''kind'' r = JStr ''tenant_boundary_violation'' then text_of (field ''sourceTenantId'' r)
      else text_of (field ''tenantId'' r))"

text \<open>\<^verbatim>\<open>{ ...input, ts }\<close>.\<close>

definition stamp :: "rat \<Rightarrow> js \<Rightarrow> js" where
  "stamp now r =
     (let ts = (if nullish (field ''ts'' r) then JNum now else field ''ts'' r)
      in case r of JObj ps \<Rightarrow> JObj (jm_set ''ts'' ts ps) | _ \<Rightarrow> JObj [(''ts'', ts)])"

section \<open>The chain\<close>

definition record_hash :: "(string \<Rightarrow> string) \<Rightarrow> (rat \<Rightarrow> string) \<Rightarrow> string \<Rightarrow> js \<Rightarrow> string" where
  "record_hash sha num prev r = sha (prev @ [CHR 0x0A] @ canonicalize num r)"

record audit_row =
  a_seq :: nat
  a_ts :: rat
  a_tenant :: string
  a_kind :: string
  a_record :: js
  a_prev :: string
  a_hash :: string

datatype violation = Prev_hash_mismatch nat string string | Hash_mismatch nat string string

record verify_report =
  vr_ok :: bool
  vr_total :: nat
  vr_verified :: nat
  vr_violations :: "violation list"

fun verify_loop :: "(string \<Rightarrow> string) \<Rightarrow> (rat \<Rightarrow> string) \<Rightarrow> string \<Rightarrow> audit_row list \<Rightarrow> nat \<times> violation list" where
  "verify_loop sha num expected [] = (0, [])"
| "verify_loop sha num expected (r # rs) =
     (case verify_loop sha num (a_hash r) rs of
        (n, vs) \<Rightarrow>
          if a_prev r \<noteq> expected then (n, Prev_hash_mismatch (a_seq r) expected (a_prev r) # vs)
          else if field ''kind'' (a_record r) \<noteq> JStr ''erased'' \<and> record_hash sha num (a_prev r) (a_record r) \<noteq> a_hash r
               then (n, Hash_mismatch (a_seq r) (a_hash r) (record_hash sha num (a_prev r) (a_record r)) # vs)
               else (Suc n, vs))"

definition verify_entries :: "(string \<Rightarrow> string) \<Rightarrow> (rat \<Rightarrow> string) \<Rightarrow> audit_row list \<Rightarrow> verify_report" where
  "verify_entries sha num rs =
     (case verify_loop sha num [] rs of
        (n, vs) \<Rightarrow> \<lparr>vr_ok = (vs = []), vr_total = length rs, vr_verified = n, vr_violations = vs\<rparr>)"

section \<open>Back-pressure\<close>

datatype bp_policy = Fail_fast | Drop_records

datatype bp_metric = Gauge_set nat | Paused_inc | Drop_inc

record controller =
  bp_policy_of :: bp_policy
  bp_paused :: bool
  bp_reason :: "rat option"
  bp_gauge_bound :: bool
  bp_total_bound :: bool
  bp_drop_bound :: bool
  bp_metrics :: "bp_metric list"

definition create_controller :: "bp_policy option \<Rightarrow> controller" where
  "create_controller p =
     \<lparr>bp_policy_of = (case p of None \<Rightarrow> Fail_fast | Some q \<Rightarrow> q), bp_paused = False, bp_reason = None,
      bp_gauge_bound = False, bp_total_bound = False, bp_drop_bound = False, bp_metrics = []\<rparr>"

definition emit :: "bool \<Rightarrow> bp_metric \<Rightarrow> controller \<Rightarrow> controller" where
  "emit bound m c = (if bound then c\<lparr>bp_metrics := bp_metrics c @ [m]\<rparr> else c)"

definition bp_set_paused :: "bool \<Rightarrow> rat option \<Rightarrow> controller \<Rightarrow> controller" where
  "bp_set_paused next why c =
     (if next = bp_paused c then
        (case why of Some x \<Rightarrow> if next then c\<lparr>bp_reason := Some x\<rparr> else c | None \<Rightarrow> c)
      else
        (let c1 = c\<lparr>bp_paused := next, bp_reason := (case why of Some x \<Rightarrow> Some x | None \<Rightarrow> bp_reason c)\<rparr>;
             c2 = emit (bp_gauge_bound c1) (Gauge_set (if next then 1 else 0)) c1
         in if next then emit (bp_total_bound c2) Paused_inc c2 else c2\<lparr>bp_reason := None\<rparr>))"

definition bp_bind_metrics :: "bool \<Rightarrow> bool \<Rightarrow> bool \<Rightarrow> controller \<Rightarrow> controller" where
  "bp_bind_metrics g t d c =
     (let c1 = c\<lparr>bp_gauge_bound := g, bp_total_bound := t, bp_drop_bound := d\<rparr>
      in emit g (Gauge_set (if bp_paused c then 1 else 0)) c1)"

definition bp_record_drop :: "controller \<Rightarrow> controller" where
  "bp_record_drop c = emit (bp_drop_bound c) Drop_inc c"

section \<open>The sink\<close>

record cursor =
  last_seq :: nat
  updated_at :: rat

record sink =
  log_rows :: "audit_row list"
  next_seq :: nat
  cursors :: "(string, cursor) jmap"

definition create_sink :: sink where
  "create_sink = \<lparr>log_rows = [], next_seq = 1, cursors = []\<rparr>"

definition latest_hash :: "sink \<Rightarrow> string" where
  "latest_hash s = (case rev (log_rows s) of [] \<Rightarrow> [] | r # _ \<Rightarrow> a_hash r)"

datatype audit_error = Backpressure "rat option"

record pending =
  pd_record :: js
  pd_prev :: string

datatype write_start = Writing pending | Dropped

definition record_begin :: "rat \<Rightarrow> js \<Rightarrow> controller option \<Rightarrow> sink \<Rightarrow> (audit_error + write_start) \<times> controller option" where
  "record_begin now input bp s =
     (let go = Inr (Writing \<lparr>pd_record = stamp now input, pd_prev = latest_hash s\<rparr>)
      in case bp of
           None \<Rightarrow> (go, None)
         | Some c \<Rightarrow>
             if bp_paused c then
               (if bp_policy_of c = Drop_records then (Inr Dropped, Some (bp_record_drop c))
                else (Inl (Backpressure (bp_reason c)), Some c))
             else (go, Some c))"

text \<open>What comes back from the text of a canonical record.\<close>

definition stored_form :: "js \<Rightarrow> js" where
  "stored_form r = (case json_image (deep_sort r) of None \<Rightarrow> JUndef | Some w \<Rightarrow> w)"

definition record_end :: "(string \<Rightarrow> string) \<Rightarrow> (rat \<Rightarrow> string) \<Rightarrow> pending \<Rightarrow> sink \<Rightarrow> sink" where
  "record_end sha num p s =
     s\<lparr>log_rows := log_rows s @ [\<lparr>a_seq = next_seq s, a_ts = num_of (field ''ts'' (pd_record p)),
          a_tenant = tenant_id_of (pd_record p), a_kind = text_of (field ''kind'' (pd_record p)),
          a_record = stored_form (pd_record p), a_prev = pd_prev p,
          a_hash = record_hash sha num (pd_prev p) (pd_record p)\<rparr>],
       next_seq := next_seq s + 1\<rparr>"

text \<open>A \<^verbatim>\<open>record\<close> that no other overlaps.\<close>

definition write_record :: "(string \<Rightarrow> string) \<Rightarrow> (rat \<Rightarrow> string) \<Rightarrow> rat \<Rightarrow> js \<Rightarrow> sink \<Rightarrow> sink" where
  "write_record sha num now input s =
     (case record_begin now input None s of (Inr (Writing p), _) \<Rightarrow> record_end sha num p s | _ \<Rightarrow> s)"

definition tombstone :: "rat \<Rightarrow> string \<Rightarrow> audit_row \<Rightarrow> js" where
  "tombstone now why r =
     JObj [(''kind'', JStr ''erased''), (''ts'', JNum (a_ts r)), (''tenantId'', JStr (a_tenant r)),
           (''originalKind'', JStr (a_kind r)), (''erasedAt'', JNum now), (''reason'', JStr why)]"

definition bury :: "rat \<Rightarrow> string \<Rightarrow> audit_row \<Rightarrow> audit_row" where
  "bury now why r = r\<lparr>a_kind := ''erased'', a_record := stored_form (tombstone now why r)\<rparr>"

definition bury_where :: "(audit_row \<Rightarrow> bool) \<Rightarrow> rat \<Rightarrow> string \<Rightarrow> sink \<Rightarrow> nat \<times> sink" where
  "bury_where p now why s =
     (length (filter p (log_rows s)),
      s\<lparr>log_rows := map (\<lambda>r. if p r then bury now why r else r) (log_rows s)\<rparr>)"

definition erase :: "(js \<Rightarrow> bool) \<Rightarrow> string \<Rightarrow> rat \<Rightarrow> sink \<Rightarrow> nat \<times> sink" where
  "erase matches why now s = bury_where (\<lambda>r. matches (a_record r)) now why s"

definition prune :: "(rat \<Rightarrow> string) \<Rightarrow> string \<Rightarrow> rat \<Rightarrow> rat \<Rightarrow> sink \<Rightarrow> nat \<times> sink" where
  "prune num tenant days now s =
     (let cutoff = now - days * 24 * 60 * 60 * 1000
      in bury_where (\<lambda>r. a_tenant r = tenant \<and> a_ts r < cutoff \<and> a_kind r \<noteq> ''erased'')
           now (''retention:'' @ num days @ ''d'') s)"

definition verify :: "(string \<Rightarrow> string) \<Rightarrow> (rat \<Rightarrow> string) \<Rightarrow> string option \<Rightarrow> sink \<Rightarrow> verify_report" where
  "verify sha num tenant s =
     verify_entries sha num
       (case tenant of
          Some t \<Rightarrow> if t \<noteq> [] then filter (\<lambda>r. a_tenant r = t) (log_rows s) else log_rows s
        | None \<Rightarrow> log_rows s)"

section \<open>Queries and cursors\<close>

text \<open>SQLite's \<^verbatim>\<open>LIKE\<close>.\<close>

fun like :: "string \<Rightarrow> string \<Rightarrow> bool" where
  "like [] s = (s = [])"
| "like (p # ps) [] = (p = CHR ''%'' \<and> like ps [])"
| "like (p # ps) (c # s) =
     (if p = CHR ''%'' then like ps (c # s) \<or> like (p # ps) s
      else (p = CHR ''_'' \<or> lower p = lower c) \<and> like ps s)"

record audit_query =
  q_tenant :: "string option"
  q_kinds :: "string list option"
  q_since :: "rat option"
  q_until :: "rat option"
  q_limit :: "int option"
  q_offset :: "int option"
  q_desc :: bool
  q_search :: "string option"
  q_since_seq :: "int option"

definition accepts :: "'a option \<Rightarrow> ('a \<Rightarrow> bool) \<Rightarrow> bool" where
  "accepts x p = (case x of None \<Rightarrow> True | Some v \<Rightarrow> p v)"

definition query_match :: "(rat \<Rightarrow> string) \<Rightarrow> audit_query \<Rightarrow> audit_row \<Rightarrow> bool" where
  "query_match num q r \<longleftrightarrow>
     accepts (q_tenant q) (\<lambda>t. t \<noteq> [] \<longrightarrow> a_tenant r = t) \<and>
     accepts (q_kinds q) (\<lambda>ks. a_kind r \<in> set ks) \<and>
     accepts (q_since q) (\<lambda>t. a_ts r \<ge> t) \<and>
     accepts (q_until q) (\<lambda>t. a_ts r \<le> t) \<and>
     accepts (q_search q) (\<lambda>x. x \<noteq> [] \<longrightarrow> like (''%'' @ x @ ''%'') (canonicalize num (a_record r))) \<and>
     accepts (q_since_seq q) (\<lambda>n. int (a_seq r) > n)"

text \<open>\<^verbatim>\<open>LIMIT n OFFSET m\<close>: a negative limit is none, a negative offset is zero.\<close>

definition query :: "(rat \<Rightarrow> string) \<Rightarrow> audit_query \<Rightarrow> sink \<Rightarrow> audit_row list" where
  "query num q s =
     (let hits = filter (query_match num q) (log_rows s);
          ordered = (if q_desc q then rev hits else hits);
          lim = (case q_limit q of None \<Rightarrow> 1000 | Some l \<Rightarrow> l);
          off = (case q_offset q of None \<Rightarrow> 0 | Some x \<Rightarrow> x);
          rest = drop (nat off) ordered
      in if lim < 0 then rest else take (nat lim) rest)"

definition read_export_cursor :: "string \<Rightarrow> sink \<Rightarrow> cursor option" where
  "read_export_cursor n s = jm_get n (cursors s)"

definition write_export_cursor :: "rat \<Rightarrow> string \<Rightarrow> nat \<Rightarrow> sink \<Rightarrow> sink" where
  "write_export_cursor now n q s =
     s\<lparr>cursors := (case jm_get n (cursors s) of
          None \<Rightarrow> jm_set n \<lparr>last_seq = q, updated_at = now\<rparr> (cursors s)
        | Some c \<Rightarrow> if q > last_seq c then jm_set n \<lparr>last_seq = q, updated_at = now\<rparr> (cursors s) else cursors s)\<rparr>"

definition oldest_unshipped :: "string \<Rightarrow> sink \<Rightarrow> rat option" where
  "oldest_unshipped n s =
     (let since = (case read_export_cursor n s of None \<Rightarrow> 0 | Some c \<Rightarrow> last_seq c);
          ts = map a_ts (filter (\<lambda>r. a_seq r > since) (log_rows s))
      in if ts = [] then None else Some (Min (set ts)))"

section \<open>Erasure helpers\<close>

definition user_matches :: "string \<Rightarrow> js \<Rightarrow> bool" where
  "user_matches u r \<longleftrightarrow> field ''kind'' r \<in> {JStr ''channel_event'', JStr ''channel_tool_call''} \<and>
     field ''platformUserId'' (field ''user'' r) = JStr u"

definition session_matches :: "string \<Rightarrow> js \<Rightarrow> bool" where
  "session_matches i r \<longleftrightarrow>
     field ''kind'' r \<in> {JStr ''tool_call'', JStr ''channel_tool_call'', JStr ''channel_outbound''} \<and>
     field ''sessionId'' r = JStr i"

definition correlation_matches :: "string \<Rightarrow> js \<Rightarrow> bool" where
  "correlation_matches i r \<longleftrightarrow> field ''correlationId'' r = JStr i"

definition erase_platform_user :: "string \<Rightarrow> string option \<Rightarrow> rat \<Rightarrow> sink \<Rightarrow> nat \<times> sink" where
  "erase_platform_user u why = erase (user_matches u) (case why of None \<Rightarrow> ''gdpr-subject-erasure'' | Some x \<Rightarrow> x)"

definition erase_by_session :: "string \<Rightarrow> string option \<Rightarrow> rat \<Rightarrow> sink \<Rightarrow> nat \<times> sink" where
  "erase_by_session i why = erase (session_matches i) (case why of None \<Rightarrow> ''session-erasure'' | Some x \<Rightarrow> x)"

definition erase_by_correlation :: "string \<Rightarrow> string option \<Rightarrow> rat \<Rightarrow> sink \<Rightarrow> nat \<times> sink" where
  "erase_by_correlation i why =
     erase (correlation_matches i) (case why of None \<Rightarrow> ''incident-erasure'' | Some x \<Rightarrow> x)"


section \<open>Fields survive storage\<close>

lemma jm_get_sort: "jm_ok ps \<Longrightarrow> jm_get k (sort_key fst ps) = jm_get k ps"
proof -
  assume ok: "jm_ok ps"
  have "set (map fst (sort_key fst ps)) = set (map fst ps)" by simp
  moreover have "length (map fst (sort_key fst ps)) = length (map fst ps)" by simp
  ultimately have "distinct (map fst (sort_key fst ps))"
    using ok by (metis card_distinct distinct_card jm_ok_def)
  then show ?thesis using map_of_inject_set [of "sort_key fst ps" ps] ok by (simp add: jm_get_def jm_ok_def)
qed

lemma jm_get_on_val: "jm_get k (map (on_val g) ps) = map_option g (jm_get k ps)"
  by (induction ps) auto

lemma jm_get_absent: "k \<notin> fst ` set ps \<Longrightarrow> jm_get k ps = None"
  by (induction ps) auto

lemma keys_image_members: "fst ` set (image_members ps) \<subseteq> fst ` set ps"
  by (auto simp: image_members_filter image_iff) force

lemma jm_get_image_members: "jm_ok ps \<Longrightarrow> jm_get k (image_members ps) = Option.bind (jm_get k ps) json_image"
proof (induction ps)
  case (Cons e ps)
  obtain a v where e: "e = (a, v)" by (cases e)
  have ok: "jm_ok ps" "a \<notin> fst ` set ps" using Cons.prems by (simp_all add: e jm_ok_def)
  have "image_members (e # ps) = (case json_image v of None \<Rightarrow> [] | Some y \<Rightarrow> [(a, y)]) @ image_members ps"
    by (simp add: image_members_def e)
  moreover have "jm_get a (image_members ps) = None" using ok(2) keys_image_members [of ps] by (intro jm_get_absent) blast
  ultimately show ?case using Cons.IH [OF ok(1)] by (auto simp: e split: option.splits)
qed (simp add: image_members_def)

lemma jm_ok_sort: "jm_ok ps \<Longrightarrow> jm_ok (sort_key fst ps)"
  using card_distinct [of "map fst (sort_key fst ps)"] distinct_card [of "map fst ps"] by (simp add: jm_ok_def)

lemma field_stored:
  assumes "jm_ok ps"
  shows "field k (stored_form (JObj ps)) =
    (case Option.bind (jm_get k ps) (\<lambda>v. json_image (deep_sort v)) of None \<Rightarrow> JUndef | Some w \<Rightarrow> w)"
proof -
  have ok: "jm_ok (map (on_val deep_sort) ps)" using assms by (simp add: jm_ok_def comp_def case_prod_beta)
  have "stored_form (JObj ps) = JObj (image_members (sort_key fst (map (on_val deep_sort) ps)))"
    unfolding stored_form_def deep_sort.simps json_image_obj by simp
  then show ?thesis
    using jm_get_image_members [OF jm_ok_sort [OF ok], of k]
    by (simp add: jm_get_sort [OF ok] jm_get_on_val bind_map_option comp_def)
qed

lemma stored_tombstone [simp]: "field ''kind'' (stored_form (tombstone now why r)) = JStr ''erased''"
  unfolding tombstone_def by (subst field_stored) (simp_all add: jm_ok_def)

lemma canonicalize_stored_form: "r \<noteq> JUndef \<Longrightarrow> canonicalize num (stored_form r) = canonicalize num r"
  by (cases "json_image (deep_sort r)") (simp_all add: stored_form_def json_image_None deep_sort_undef canonicalize_stored)

lemma stamp_obj: "\<exists>ps. stamp now r = JObj ps"
  by (simp add: stamp_def Let_def split: js.split)

section \<open>The log verifies\<close>

fun intact :: "(string \<Rightarrow> string) \<Rightarrow> (rat \<Rightarrow> string) \<Rightarrow> string \<Rightarrow> audit_row list \<Rightarrow> bool" where
  "intact sha num p [] = True"
| "intact sha num p (r # rs) =
     (a_prev r = p \<and> (field ''kind'' (a_record r) = JStr ''erased'' \<or> a_hash r = record_hash sha num p (a_record r)) \<and>
      intact sha num (a_hash r) rs)"

definition head_hash :: "string \<Rightarrow> audit_row list \<Rightarrow> string" where
  "head_hash p rs = foldl (\<lambda>_ r. a_hash r) p rs"

lemma head_hash_simps [simp]:
  "head_hash p [] = p" "head_hash p (r # rs) = head_hash (a_hash r) rs" "head_hash p (rs @ [r]) = a_hash r"
  by (simp_all add: head_hash_def)

lemma latest_hash_head: "latest_hash s = head_hash [] (log_rows s)"
  by (cases "log_rows s" rule: rev_cases) (simp_all add: latest_hash_def)

lemma intact_append: "intact sha num p (xs @ ys) \<longleftrightarrow> intact sha num p xs \<and> intact sha num (head_hash p xs) ys"
  by (induction xs arbitrary: p) auto

lemma verify_loop_intact:
  "snd (verify_loop sha num p rs) = [] \<longleftrightarrow> intact sha num p rs"
  "intact sha num p rs \<Longrightarrow> fst (verify_loop sha num p rs) = length rs"
proof -
  show "snd (verify_loop sha num p rs) = [] \<longleftrightarrow> intact sha num p rs"
  proof (induction rs arbitrary: p)
    case (Cons r rs)
    show ?case unfolding verify_loop.simps intact.simps Cons.IH [symmetric]
      by (cases "a_prev r = p"; cases "field ''kind'' (a_record r) = JStr ''erased''")
        (simp_all add: case_prod_beta eq_commute [of "record_hash sha num (a_prev r) (a_record r)"])
  qed simp
  show "intact sha num p rs \<Longrightarrow> fst (verify_loop sha num p rs) = length rs"
  proof (induction rs arbitrary: p)
    case (Cons r rs)
    then have "fst (verify_loop sha num (a_hash r) rs) = length rs" and r: "a_prev r = p"
      and h: "field ''kind'' (a_record r) = JStr ''erased'' \<or> record_hash sha num p (a_record r) = a_hash r" by auto
    then show ?case using h unfolding verify_loop.simps case_prod_beta r by simp
  qed simp
qed

lemma verify_entries_intact:
  "vr_ok (verify_entries sha num rs) \<longleftrightarrow> intact sha num [] rs"
  "intact sha num [] rs \<Longrightarrow> verify_entries sha num rs =
     \<lparr>vr_ok = True, vr_total = length rs, vr_verified = length rs, vr_violations = []\<rparr>"
  using verify_loop_intact [of sha num "[]" rs] by (auto simp: verify_entries_def split: prod.splits)

lemma bury_simps [simp]:
  "a_prev (bury n w r) = a_prev r" "a_hash (bury n w r) = a_hash r" "a_seq (bury n w r) = a_seq r"
  "field ''kind'' (a_record (bury n w r)) = JStr ''erased''"
  by (simp_all add: bury_def)

lemma intact_bury: "intact sha num p rs \<Longrightarrow> intact sha num p (map (\<lambda>r. if q r then bury n w r else r) rs)"
  by (induction rs arbitrary: p) auto

datatype sink_op =
    Record_one rat js
  | Erase_where "js \<Rightarrow> bool" string rat
  | Prune_older string rat rat
  | Advance_cursor rat string nat

fun sink_step :: "(string \<Rightarrow> string) \<Rightarrow> (rat \<Rightarrow> string) \<Rightarrow> sink \<Rightarrow> sink_op \<Rightarrow> sink" where
  "sink_step sha num s (Record_one now r) = write_record sha num now r s"
| "sink_step sha num s (Erase_where m w now) = snd (erase m w now s)"
| "sink_step sha num s (Prune_older t days now) = snd (prune num t days now s)"
| "sink_step sha num s (Advance_cursor now n q) = write_export_cursor now n q s"

definition sink_ok :: "(string \<Rightarrow> string) \<Rightarrow> (rat \<Rightarrow> string) \<Rightarrow> sink \<Rightarrow> bool" where
  "sink_ok sha num s \<longleftrightarrow> intact sha num [] (log_rows s) \<and>
     map a_seq (log_rows s) = [1..<next_seq s] \<and> next_seq s = Suc (length (log_rows s))"

lemma sink_ok_create: "sink_ok sha num create_sink"
  by (simp add: sink_ok_def create_sink_def)

lemma write_record_rows:
  "\<exists>r. log_rows (write_record sha num now input s) = log_rows s @ [r] \<and> a_prev r = latest_hash s \<and> a_seq r = next_seq s \<and>
     a_hash r = record_hash sha num (latest_hash s) (a_record r) \<and> a_record r = stored_form (stamp now input) \<and>
     next_seq (write_record sha num now input s) = Suc (next_seq s)"
proof -
  have "stamp now input \<noteq> JUndef" using stamp_obj [of now input] by auto
  then show ?thesis
    by (simp add: write_record_def record_begin_def record_end_def record_hash_def canonicalize_stored_form)
qed

lemma sink_ok_bury: "sink_ok sha num s \<Longrightarrow> sink_ok sha num (snd (bury_where p now w s))"
  by (auto simp: sink_ok_def bury_where_def intact_bury comp_def if_distrib cong: if_cong)

interpretation audit: step_invariant "sink_step sha num" "sink_ok sha num"
proof
  fix s op assume ok: "sink_ok sha num s"
  show "sink_ok sha num (sink_step sha num s op)"
  proof (cases op)
    case (Record_one now input)
    then show ?thesis using ok write_record_rows [of sha num now input s]
      by (auto simp: sink_ok_def intact_append latest_hash_head)
  qed (use ok in \<open>simp_all add: erase_def prune_def Let_def sink_ok_bury\<close>, simp add: write_export_cursor_def sink_ok_def)
qed

text \<open>C11. The audit log verifies at any time: after every sequence of writes (none overlapping another), erasures, retention
  prunings and cursor updates, the verifier accepts all rows and the sequence numbers are gapless.\<close>

theorem audit_log_verifies:
  "verify sha num None (run (sink_step sha num) create_sink ops) =
     \<lparr>vr_ok = True, vr_total = length (log_rows (run (sink_step sha num) create_sink ops)),
      vr_verified = length (log_rows (run (sink_step sha num) create_sink ops)), vr_violations = []\<rparr> \<and>
   map a_seq (log_rows (run (sink_step sha num) create_sink ops)) =
     [1..<Suc (length (log_rows (run (sink_step sha num) create_sink ops)))]"
  using audit.run_good [OF sink_ok_create, of sha num ops] by (simp add: sink_ok_def verify_def verify_entries_intact)


definition test_sha :: "string \<Rightarrow> string" where
  "test_sha x = ''h''"

definition test_num :: "rat \<Rightarrow> string" where
  "test_num x = []"

definition test_row :: "string \<Rightarrow> string \<Rightarrow> audit_row" where
  "test_row k p = \<lparr>a_seq = 1, a_ts = 0, a_tenant = ''t'', a_kind = k, a_record = JObj [(''kind'', JStr k)], a_prev = p,
     a_hash = ''h''\<rparr>"

section \<open>What a verified log pins down\<close>

definition preimage :: "(rat \<Rightarrow> string) \<Rightarrow> audit_row \<Rightarrow> string" where
  "preimage num r = a_prev r @ CHR 0x0A # canonicalize num (a_record r)"

definition content :: "(rat \<Rightarrow> string) \<Rightarrow> audit_row \<Rightarrow> string \<times> string \<times> string" where
  "content num r = (a_prev r, canonicalize num (a_record r), a_hash r)"

lemma intact_snocD:
  assumes "intact sha num [] (xs @ [x])" "field ''kind'' (a_record x) \<noteq> JStr ''erased''"
  shows "intact sha num [] xs" "a_prev x = head_hash [] xs" "a_hash x = sha (preimage num x)"
  using assms by (auto simp: intact_append preimage_def record_hash_def)

lemma head_hash_plain:
  assumes "intact sha num [] xs" "\<forall>r \<in> set xs. field ''kind'' (a_record r) \<noteq> JStr ''erased''" "\<And>x. c \<notin> set (sha x)"
  shows "c \<notin> set (head_hash [] xs)"
  using assms(1,2)
proof (cases xs rule: rev_cases)
  case (snoc ys y)
  then show ?thesis using intact_snocD(3) [of sha num ys y] assms by simp
qed simp

lemma split_at_first: "c \<notin> set p \<Longrightarrow> c \<notin> set q \<Longrightarrow> p @ c # x = q @ c # y \<Longrightarrow> p = q \<and> x = y"
proof (induction p arbitrary: q)
  case Nil
  then show ?case by (cases q) auto
next
  case (Cons a p)
  then show ?case by (cases q) auto
qed

text \<open>C12. The last hash of a log without tombstones pins its whole history: two logs that verify, have no tombstones and end in
  the same hash hold the same records in the same order, as long as the digest does not collide on what was hashed.\<close>

theorem same_head_same_history:
  assumes "vr_ok (verify_entries sha num xs)" and "vr_ok (verify_entries sha num ys)"
    and "\<forall>r \<in> set (xs @ ys). field ''kind'' (a_record r) \<noteq> JStr ''erased''"
    and "\<And>x. sha x \<noteq> []" and "\<And>x. CHR 0x0A \<notin> set (sha x)"
    and "inj_on sha (preimage num ` set (xs @ ys))"
    and "head_hash [] xs = head_hash [] ys"
  shows "map (content num) xs = map (content num) ys"
proof -
  have "intact sha num [] xs \<Longrightarrow> intact sha num [] ys \<Longrightarrow> \<forall>r \<in> set (xs @ ys). field ''kind'' (a_record r) \<noteq> JStr ''erased'' \<Longrightarrow>
      inj_on sha (preimage num ` set (xs @ ys)) \<Longrightarrow> head_hash [] xs = head_hash [] ys \<Longrightarrow>
      map (content num) xs = map (content num) ys"
  proof (induction xs arbitrary: ys rule: rev_induct)
    case Nil
    show ?case
    proof (cases ys rule: rev_cases)
      case (snoc zs z)
      then show ?thesis using Nil.prems intact_snocD(3) [of sha num zs z] assms(4) [of "preimage num z"] by simp
    qed simp
  next
    case (snoc x xs)
    show ?case
    proof (cases ys rule: rev_cases)
      case Nil
      then show ?thesis using snoc.prems intact_snocD(3) [of sha num xs x] assms(4) [of "preimage num x"] by simp
    next
      case ys: (snoc zs y)
      have kinds: "field ''kind'' (a_record x) \<noteq> JStr ''erased''" "field ''kind'' (a_record y) \<noteq> JStr ''erased''"
        "\<forall>r \<in> set xs. field ''kind'' (a_record r) \<noteq> JStr ''erased''" "\<forall>r \<in> set zs. field ''kind'' (a_record r) \<noteq> JStr ''erased''"
        using snoc.prems(3) by (simp_all add: ys)
      note X = intact_snocD [OF snoc.prems(1) kinds(1)] and Y = intact_snocD [OF snoc.prems(2) [unfolded ys] kinds(2)]
      have "sha (preimage num x) = sha (preimage num y)" using snoc.prems(5) X(3) Y(3) by (simp add: ys)
      moreover have "preimage num x \<in> preimage num ` set ((xs @ [x]) @ ys)" "preimage num y \<in> preimage num ` set ((xs @ [x]) @ ys)"
        by (simp_all add: ys)
      ultimately have "preimage num x = preimage num y" using snoc.prems(4) by (auto dest: inj_onD)
      moreover have "CHR 0x0A \<notin> set (a_prev x)" "CHR 0x0A \<notin> set (a_prev y)"
        using head_hash_plain [OF X(1) kinds(3) assms(5)] head_hash_plain [OF Y(1) kinds(4) assms(5)] X(2) Y(2) by simp_all
      ultimately have eq: "a_prev x = a_prev y" "canonicalize num (a_record x) = canonicalize num (a_record y)"
        using split_at_first unfolding preimage_def by metis+
      have "inj_on sha (preimage num ` set (xs @ zs))"
        by (rule inj_on_subset [OF snoc.prems(4)]) (auto simp: ys)
      then have "map (content num) xs = map (content num) zs"
        using kinds(3,4) X(1,2) Y(1,2) eq(1) by (intro snoc.IH) auto
      moreover have "content num x = content num y" using eq snoc.prems(5) by (simp add: ys content_def)
      ultimately show ?thesis by (simp add: ys)
    qed
  qed
  then show ?thesis using assms by (simp only: verify_entries_intact)
qed

theorem same_head_same_history_witness:
  "map (content test_num) [test_row ''tool_call'' []] = map (content test_num) [(test_row ''tool_call'' [])\<lparr>a_tenant := ''u''\<rparr>]"
  by (rule same_head_same_history [of test_sha])
    (simp_all add: verify_entries_def test_sha_def test_row_def record_hash_def preimage_def)

text \<open>A tombstone cuts the chain: the rows before it can be exchanged for any others that verify, by rewriting the
  tombstone's link, and the verifier still accepts the log.\<close>

lemma tombstone_cuts_chain:
  assumes "vr_ok (verify_entries sha num (xs @ t # ys))" and "field ''kind'' (a_record t) = JStr ''erased''"
    and "vr_ok (verify_entries sha num zs)"
  shows "vr_ok (verify_entries sha num (zs @ t\<lparr>a_prev := head_hash [] zs\<rparr> # ys))"
  using assms by (simp add: verify_entries_intact intact_append)

section \<open>Overlapping writers\<close>

abbreviation links :: "audit_row list \<Rightarrow> (string \<times> string) list" where
  "links rs \<equiv> map (\<lambda>r. (a_prev r, a_hash r)) rs"

fun linked :: "string \<Rightarrow> (string \<times> string) list \<Rightarrow> bool" where
  "linked p [] = True"
| "linked p ((q, h) # rs) = (q = p \<and> linked h rs)"

lemma intact_linked: "intact sha num p rs \<Longrightarrow> linked p (links rs)"
  by (induction rs arbitrary: p) auto

lemma linked_append: "linked p (xs @ ys) \<Longrightarrow> linked p xs"
  by (induction p xs rule: linked.induct) auto

lemma links_bury: "links (map (\<lambda>r. if p r then bury n w r else r) rs) = links rs"
  by (induction rs) simp_all

lemma bury_where_links: "links (log_rows (snd (bury_where p n w s))) = links (log_rows s)"
proof -
  have "log_rows (snd (bury_where p n w s)) = map (\<lambda>r. if p r then bury n w r else r) (log_rows s)" by (simp add: bury_where_def)
  then show ?thesis by (simp only: links_bury)
qed

lemma step_keeps_links: "\<exists>new. links (log_rows (sink_step sha num s op)) = links (log_rows s) @ new"
proof (cases op)
  case (Record_one now input)
  obtain r where "log_rows (sink_step sha num s op) = log_rows s @ [r]"
    using write_record_rows [of sha num now input s] Record_one by auto
  then have "links (log_rows (sink_step sha num s op)) = links (log_rows s) @ links [r]" by (simp only: map_append)
  then show ?thesis by (rule exI)
next
  case (Erase_where m w now)
  then show ?thesis by (simp only: sink_step.simps erase_def bury_where_links) (rule exI [of _ "[]"], simp only: append_Nil2)
next
  case (Prune_older t days now)
  then show ?thesis by (simp only: sink_step.simps prune_def Let_def bury_where_links) (rule exI [of _ "[]"], simp only: append_Nil2)
next
  case (Advance_cursor now n q)
  then show ?thesis by (simp add: write_export_cursor_def)
qed

lemma run_keeps_links: "\<exists>new. links (log_rows (run (sink_step sha num) s ops)) = links (log_rows s) @ new"
proof (induction ops arbitrary: s)
  case (Cons op ops)
  obtain n1 where n1: "links (log_rows (sink_step sha num s op)) = links (log_rows s) @ n1"
    using step_keeps_links by blast
  obtain n2 where "links (log_rows (run (sink_step sha num) (sink_step sha num s op) ops)) =
      links (log_rows (sink_step sha num s op)) @ n2"
    using Cons.IH by blast
  then have "links (log_rows (run (sink_step sha num) s (op # ops))) = links (log_rows s) @ (n1 @ n2)"
    by (simp only: run.simps n1 append_assoc)
  then show ?case by (rule exI)
qed simp

lemma head_links: "head_hash p rs = (if rs = [] then p else snd (last (links rs)))"
  by (cases rs rule: rev_cases) simp_all

lemma linked_snoc: "linked p (xs @ [(q, h)]) \<Longrightarrow> q = (if xs = [] then p else snd (last xs))"
  by (induction p xs rule: linked.induct) (auto split: if_splits)

text \<open>C13. Two writes that overlap, both reading the tail before either inserts, break the chain for good: whatever is
  written, erased or pruned afterwards, the verifier reports the log as violated.\<close>

theorem overlapping_writes_break_chain:
  assumes "record_begin n1 i1 None s = (Inr (Writing p1), None)" and "record_begin n2 i2 None s = (Inr (Writing p2), None)"
    and "record_hash sha num (latest_hash s) (stamp n1 i1) \<noteq> latest_hash s"
  shows "\<not> vr_ok (verify sha num None (run (sink_step sha num) (record_end sha num p2 (record_end sha num p1 s)) ops))"
proof
  let ?s = "record_end sha num p2 (record_end sha num p1 s)"
  assume "vr_ok (verify sha num None (run (sink_step sha num) ?s ops))"
  then have "intact sha num [] (log_rows (run (sink_step sha num) ?s ops))" by (simp add: verify_def verify_entries_intact)
  then have "linked [] (links (log_rows (run (sink_step sha num) ?s ops)))" by (rule intact_linked)
  then have l: "linked [] (links (log_rows ?s))" using run_keeps_links [of sha num ?s ops] linked_append by metis
  have p: "pd_prev p1 = latest_hash s" "pd_prev p2 = latest_hash s" "pd_record p1 = stamp n1 i1"
    using assms(1,2) by (auto simp: record_begin_def)
  define h1 where "h1 = record_hash sha num (latest_hash s) (stamp n1 i1)"
  define h2 where "h2 = record_hash sha num (latest_hash s) (stamp n2 i2)"
  have p2: "pd_record p2 = stamp n2 i2" using assms(2) by (auto simp: record_begin_def)
  have "links (log_rows ?s) = (links (log_rows s) @ [(latest_hash s, h1)]) @ [(latest_hash s, h2)]"
    by (simp add: record_end_def p p2 h1_def h2_def)
  then have "latest_hash s = h1" using linked_snoc [of "[]" "links (log_rows s) @ [(latest_hash s, h1)]"] l by simp
  then show False using assms(3) by (simp add: h1_def)
qed

definition call_record :: js where
  "call_record = JObj [(''kind'', JStr ''tool_call''), (''tenantId'', JStr ''t'')]"

theorem overlapping_writes_break_chain_witness:
  "\<not> vr_ok (verify test_sha test_num None (run (sink_step test_sha test_num)
      (record_end test_sha test_num \<lparr>pd_record = stamp 2 call_record, pd_prev = []\<rparr>
        (record_end test_sha test_num \<lparr>pd_record = stamp 1 call_record, pd_prev = []\<rparr> create_sink)) []))"
  by (rule overlapping_writes_break_chain [of 1 call_record _ _ 2 call_record])
    (simp_all add: record_begin_def create_sink_def latest_hash_def record_hash_def test_sha_def)

section \<open>Checking one tenant\<close>

lemma step_hashes:
  assumes "\<And>x. sha x \<noteq> []" "\<forall>h \<in> snd ` set (links (log_rows s)). h \<noteq> []"
  shows "\<forall>h \<in> snd ` set (links (log_rows (sink_step sha num s op))). h \<noteq> []"
proof (cases op)
  case (Record_one now input)
  then show ?thesis using write_record_rows [of sha num now input s] assms by (auto simp: record_hash_def)
next
  case (Erase_where m w now)
  then show ?thesis using assms(2) by (simp only: sink_step.simps erase_def bury_where_links)
next
  case (Prune_older t days now)
  then show ?thesis using assms(2) by (simp only: sink_step.simps prune_def Let_def bury_where_links)
next
  case (Advance_cursor now n q)
  then show ?thesis using assms(2) by (simp add: write_export_cursor_def)
qed

lemma run_hashes:
  "(\<And>x. sha x \<noteq> []) \<Longrightarrow> \<forall>h \<in> snd ` set (links (log_rows s)). h \<noteq> [] \<Longrightarrow>
   \<forall>h \<in> snd ` set (links (log_rows (run (sink_step sha num) s ops))). h \<noteq> []"
proof (induction ops arbitrary: s)
  case (Cons op ops)
  show ?case unfolding run.simps by (rule Cons.IH [OF Cons.prems(1) step_hashes [OF Cons.prems(1,2)]])
qed simp

text \<open>Checking one tenant of a log whose first row belongs to another tenant raises a false alarm: the links run through
  the rows of all tenants, and the check follows them through the rows of one.\<close>

lemma tenant_check_false_alarm:
  assumes "log_rows (run (sink_step sha num) create_sink ops) = first # rest" and "a_tenant first \<noteq> t" and "t \<noteq> []"
    and "t \<in> a_tenant ` set rest" and "\<And>x. sha x \<noteq> []"
  shows "\<not> vr_ok (verify sha num (Some t) (run (sink_step sha num) create_sink ops)) \<and>
     vr_ok (verify sha num None (run (sink_step sha num) create_sink ops))"
proof -
  let ?s = "run (sink_step sha num) create_sink ops"
  have int: "intact sha num [] (first # rest)" using audit.run_good [OF sink_ok_create, of sha num ops] assms(1) by (simp add: sink_ok_def)
  obtain pre q post where q: "rest = pre @ q # post" "a_tenant q = t" "\<forall>r \<in> set pre. a_tenant r \<noteq> t"
    using split_list_first_prop [of rest "\<lambda>r. a_tenant r = t"] assms(4) by auto
  have "head_hash [] (first # pre) \<in> snd ` set (links (log_rows ?s))"
    by (cases pre rule: rev_cases) (auto simp: assms(1) q(1))
  then have "head_hash [] (first # pre) \<noteq> []"
    using run_hashes [of sha create_sink num ops] assms(5) by (auto simp: create_sink_def)
  moreover have "a_prev q = head_hash [] (first # pre)" using int by (simp add: q(1) intact_append)
  ultimately have "a_prev q \<noteq> []" by simp
  moreover have "filter (\<lambda>r. a_tenant r = t) (log_rows ?s) = q # filter (\<lambda>r. a_tenant r = t) post"
    using assms(1,2) q by (simp add: filter_False)
  ultimately have "\<not> vr_ok (verify sha num (Some t) ?s)" using assms(3) by (simp add: verify_def verify_entries_intact)
  then show ?thesis using int assms(1) by (simp add: verify_def verify_entries_intact)
qed

definition other_record :: js where
  "other_record = JObj [(''kind'', JStr ''tool_call''), (''tenantId'', JStr ''u'')]"

end
