(* ===== verification/AuditExport.thy ===== *)
theory AuditExport imports AuditLog begin

text \<open>
  The export loop of \<^verbatim>\<open>core/src/audit/exporter-loop.ts\<close> and \<^verbatim>\<open>toExportEntry\<close> of \<^verbatim>\<open>exporters/exporter.ts\<close>. A tick suspends while
  the vendor answers, so it is \<open>tick_begin\<close> (guards, cursor, batch) and \<open>tick_end\<close> (the answer); the audit log may
  change in between. Intervals are integers in milliseconds. Timers are not modelled: \<open>tick_end\<close> and \<open>tick_begin\<close> give the
  delay that is scheduled next. Metrics and log lines are left out; failures of the database are, as in the sink.

  Shown: the cursor never passes a row that the vendor did not acknowledge, even across crashes between the answer and the
  cursor update; and the adaptive interval and the backoff stay within their bounds.
\<close>

record export_entry =
  xe_seq :: nat
  xe_ts :: js
  xe_kind :: js
  xe_tenant :: js
  xe_record :: js
  xe_record_hash :: string
  xe_prev_hash :: string

definition or_else :: "js \<Rightarrow> js \<Rightarrow> js" where
  "or_else a b = (if nullish a then b else a)"

definition to_export_entry :: "audit_row \<Rightarrow> export_entry" where
  "to_export_entry r =
     (let raw = a_record r
      in \<lparr>xe_seq = a_seq r, xe_ts = or_else (field ''ts'' raw) (JNum 0), xe_kind = or_else (field ''kind'' raw) (JStr ''unknown''),
          xe_tenant = or_else (or_else (field ''tenantId'' raw) (field ''sourceTenantId'' raw)) (JStr ''_system''),
          xe_record = raw, xe_record_hash = a_hash r, xe_prev_hash = a_prev r\<rparr>)"

section \<open>Configuration and state\<close>

record batch_config =
  bc_min :: int
  bc_max :: int
  bc_target :: int

definition batch_config_of :: "int option \<Rightarrow> int option \<Rightarrow> int option \<Rightarrow> batch_config" where
  "batch_config_of lo hi target =
     \<lparr>bc_min = (case lo of None \<Rightarrow> 200 | Some x \<Rightarrow> x), bc_max = (case hi of None \<Rightarrow> 10000 | Some x \<Rightarrow> x),
      bc_target = (case target of None \<Rightarrow> 500 | Some x \<Rightarrow> x)\<rparr>"

record export_config =
  ec_name :: string
  ec_interval :: int
  ec_batch_size :: int
  ec_max_failures :: nat
  ec_initial_backoff :: int
  ec_max_backoff :: int
  ec_batch :: "batch_config option"
  ec_pause_after :: rat

definition default_config :: "string \<Rightarrow> export_config" where
  "default_config n = \<lparr>ec_name = n, ec_interval = 10000, ec_batch_size = 500, ec_max_failures = 5, ec_initial_backoff = 1000,
     ec_max_backoff = 30000, ec_batch = None, ec_pause_after = 60 * 60 * 1000\<rparr>"

record export_loop =
  el_interval :: int
  el_paused :: bool
  el_failures :: nat
  el_backoff :: int
  el_stopped :: bool
  el_ticking :: bool

definition start_loop :: "export_config \<Rightarrow> export_loop" where
  "start_loop c =
     \<lparr>el_interval = (case ec_batch c of None \<Rightarrow> ec_interval c | Some b \<Rightarrow> max (bc_min b) (min (bc_max b) (ec_interval c))),
      el_paused = False, el_failures = 0, el_backoff = 0, el_stopped = False, el_ticking = False\<rparr>"

definition adjust_interval :: "export_config \<Rightarrow> nat \<Rightarrow> export_loop \<Rightarrow> export_loop" where
  "adjust_interval c shipped l =
     (case ec_batch c of
        None \<Rightarrow> l
      | Some b \<Rightarrow>
          (let cur = el_interval l;
               next = (if shipped = 0 then min (bc_max b) (max (bc_min b) (cur * 2))
                       else if int shipped \<ge> ec_batch_size c then max (bc_min b) (cur div 2)
                       else max (bc_min b) (min (bc_max b) (cur * bc_target b div int shipped)))
           in l\<lparr>el_interval := next\<rparr>))"

definition effective_interval :: "export_config \<Rightarrow> export_loop \<Rightarrow> int" where
  "effective_interval c l = (if ec_batch c = None then ec_interval c else el_interval l)"

definition next_delay :: "export_config \<Rightarrow> export_loop \<Rightarrow> int option" where
  "next_delay c l =
     (if el_stopped l then None
      else let base = effective_interval c l
           in Some (if el_paused l then base * 6 else if el_backoff l > 0 then el_backoff l else base))"

section \<open>A tick\<close>

definition batch_of :: "(rat \<Rightarrow> string) \<Rightarrow> export_config \<Rightarrow> sink \<Rightarrow> audit_row list" where
  "batch_of num c s =
     (let since = (case read_export_cursor (ec_name c) s of None \<Rightarrow> 0 | Some k \<Rightarrow> last_seq k)
      in query num \<lparr>q_tenant = None, q_kinds = None, q_since = None, q_until = None, q_limit = Some (ec_batch_size c),
           q_offset = None, q_desc = False, q_search = None, q_since_seq = Some (int since)\<rparr> s)"

datatype tick_start = Skipped | Idle | Pushing "export_entry list"

definition tick_begin :: "(rat \<Rightarrow> string) \<Rightarrow> export_config \<Rightarrow> sink \<Rightarrow> export_loop \<Rightarrow> tick_start \<times> export_loop" where
  "tick_begin num c s l =
     (if el_stopped l \<or> el_ticking l \<or> el_paused l then (Skipped, l)
      else
        (let stored = batch_of num c s
         in if stored = [] then (Idle, adjust_interval c 0 (l\<lparr>el_backoff := 0, el_failures := 0\<rparr>))
            else (Pushing (map to_export_entry stored), l\<lparr>el_ticking := True\<rparr>)))"

datatype push_result = Acked int | Push_failed bool | Push_threw

definition back_off :: "export_config \<Rightarrow> bool \<Rightarrow> export_loop \<Rightarrow> export_loop" where
  "back_off c hopeless l =
     (let l1 = l\<lparr>el_failures := el_failures l + 1\<rparr>
      in if hopeless \<or> el_failures l1 \<ge> ec_max_failures c then l1\<lparr>el_paused := True\<rparr>
         else l1\<lparr>el_backoff := min (max (ec_initial_backoff c) (el_backoff l1 * 2)) (ec_max_backoff c)\<rparr>)"

definition tick_end :: "export_config \<Rightarrow> rat \<Rightarrow> export_entry list \<Rightarrow> push_result \<Rightarrow> export_loop \<Rightarrow> sink \<Rightarrow>
    nat \<times> export_loop \<times> sink" where
  "tick_end c now entries r l s =
     (let l0 = l\<lparr>el_ticking := False\<rparr>
      in case r of
           Acked n \<Rightarrow>
             (let acked = nat (min n (int (length entries)));
                  s1 = (if acked > 0 then write_export_cursor now (ec_name c) (xe_seq (entries ! (acked - 1))) s else s)
              in (acked, adjust_interval c acked (l0\<lparr>el_failures := 0, el_backoff := 0\<rparr>), s1))
         | Push_failed retryable \<Rightarrow> (0, back_off c (\<not> retryable) l0, s)
         | Push_threw \<Rightarrow> (0, back_off c False l0, s))"

definition resume_loop :: "export_loop \<Rightarrow> export_loop" where
  "resume_loop l = l\<lparr>el_failures := 0, el_backoff := 0, el_paused := False\<rparr>"

definition stop_loop :: "export_loop \<Rightarrow> export_loop" where
  "stop_loop l = l\<lparr>el_stopped := True\<rparr>"

definition evaluate_backpressure :: "export_config \<Rightarrow> rat \<Rightarrow> sink \<Rightarrow> controller option \<Rightarrow> rat option \<times> controller option" where
  "evaluate_backpressure c now s bp =
     (case bp of
        None \<Rightarrow> (None, None)
      | Some k \<Rightarrow>
          (case oldest_unshipped (ec_name c) s of
             None \<Rightarrow> (None, Some (if bp_paused k then bp_set_paused False None k else k))
           | Some oldest \<Rightarrow>
               (let backlog = max 0 (now - oldest)
                in (Some backlog,
                    Some (if backlog \<ge> ec_pause_after c then bp_set_paused True (Some backlog) k
                          else if bp_paused k then bp_set_paused False (Some backlog) k else k)))))"

section \<open>The pace of the loop\<close>

datatype loop_call = Tick_answered nat | Tick_idle | Tick_failed bool | Resumed

fun pace_step :: "export_config \<Rightarrow> export_loop \<Rightarrow> loop_call \<Rightarrow> export_loop" where
  "pace_step c l (Tick_answered n) = adjust_interval c n (l\<lparr>el_failures := 0, el_backoff := 0\<rparr>)"
| "pace_step c l Tick_idle = adjust_interval c 0 (l\<lparr>el_backoff := 0, el_failures := 0\<rparr>)"
| "pace_step c l (Tick_failed h) = back_off c h l"
| "pace_step c l Resumed = resume_loop l"

definition pace_ok :: "export_config \<Rightarrow> export_loop \<Rightarrow> bool" where
  "pace_ok c l \<longleftrightarrow> accepts (ec_batch c) (\<lambda>b. min (bc_min b) (bc_max b) \<le> el_interval l \<and> el_interval l \<le> max 0 (max (bc_min b) (bc_max b))) \<and>
     el_backoff l \<le> max 0 (ec_max_backoff c) \<and> (\<not> el_paused l \<longrightarrow> el_failures l < max 1 (ec_max_failures c))"

lemma back_off_fields [simp]: "el_interval (back_off c h l) = el_interval l"
  by (simp add: back_off_def Let_def)

lemma adjust_bounds:
  assumes "ec_batch c = Some b" "el_interval l \<le> max 0 (max (bc_min b) (bc_max b))"
  shows "min (bc_min b) (bc_max b) \<le> el_interval (adjust_interval c n l)"
    "el_interval (adjust_interval c n l) \<le> max 0 (max (bc_min b) (bc_max b))"
proof -
  have "max (bc_min b) (el_interval l div 2) \<le> max 0 (max (bc_min b) (bc_max b))" using assms(2) by linarith
  then show "min (bc_min b) (bc_max b) \<le> el_interval (adjust_interval c n l)"
    "el_interval (adjust_interval c n l) \<le> max 0 (max (bc_min b) (bc_max b))"
    using assms(1) linear [of "bc_min b" "bc_max b"] by (auto simp: adjust_interval_def Let_def min_le_iff_disj le_max_iff_disj)
qed

lemma adjust_fields [simp]:
  "el_backoff (adjust_interval c n l) = el_backoff l" "el_failures (adjust_interval c n l) = el_failures l"
  "el_paused (adjust_interval c n l) = el_paused l" "el_ticking (adjust_interval c n l) = el_ticking l"
  "el_stopped (adjust_interval c n l) = el_stopped l"
  by (simp_all add: adjust_interval_def Let_def split: option.split)

lemma pace_ok_adjust:
  assumes ok: "pace_ok c l"
  shows "pace_ok c (adjust_interval c n l)"
proof (cases "ec_batch c")
  case (Some b)
  have "el_interval l \<le> max 0 (max (bc_min b) (bc_max b))" using ok Some by (simp add: pace_ok_def accepts_def)
  from adjust_bounds [OF Some this, of n] show ?thesis using ok Some by (simp add: pace_ok_def accepts_def)
qed (use ok in \<open>simp add: adjust_interval_def\<close>)

lemma pace_ok_back_off: "pace_ok c l \<Longrightarrow> pace_ok c (back_off c h l)"
  by (auto simp: pace_ok_def back_off_def Let_def split: if_splits)

lemma pace_ok_calm: "pace_ok c l \<Longrightarrow> pace_ok c (l\<lparr>el_failures := 0, el_backoff := 0\<rparr>)"
  "pace_ok c l \<Longrightarrow> pace_ok c (l\<lparr>el_backoff := 0, el_failures := 0\<rparr>)"
  by (auto simp: pace_ok_def)

lemma pace_ok_start: "pace_ok c (start_loop c)"
  by (cases "ec_batch c") (auto simp: pace_ok_def start_loop_def accepts_def)

interpretation pace: step_invariant "pace_step c" "pace_ok c"
proof
  fix l call assume ok: "pace_ok c l"
  show "pace_ok c (pace_step c l call)"
  proof (cases call)
    case Resumed
    then show ?thesis using ok by (auto simp: pace_ok_def resume_loop_def)
  qed (use ok pace_ok_calm [OF ok] in \<open>simp_all add: pace_ok_adjust pace_ok_back_off\<close>)
qed

text \<open>The adaptive interval stays between its bounds, the backoff never exceeds its cap, and a loop that is
  not paused has failed fewer times in a row than the limit, after any sequence of answers, idle ticks, failures
  and resumptions.\<close>

lemma export_pace_bounded:
  "pace_ok c (run (pace_step c) (start_loop c) calls)"
  by (rule pace.run_good [OF pace_ok_start])

section \<open>Nothing is skipped\<close>

text \<open>The loop, the log and the vendor together. \<open>in_flight\<close> is the batch the vendor is working on; \<open>Crash\<close> restarts the
  process after the vendor has answered but before the cursor was written.\<close>

record export_world =
  w_sink :: sink
  w_loop :: export_loop
  w_flight :: "export_entry list"
  w_shipped :: "nat list"

datatype world_step =
    Log_changes sink_op
  | Tick
  | Answer rat push_result
  | Crash push_result

definition acked_seqs :: "export_entry list \<Rightarrow> push_result \<Rightarrow> nat list" where
  "acked_seqs es r = (case r of Acked n \<Rightarrow> map xe_seq (take (nat n) es) | _ \<Rightarrow> [])"

definition foreign :: "string \<Rightarrow> sink_op \<Rightarrow> bool" where
  "foreign n op = (case op of Advance_cursor now m q \<Rightarrow> m \<noteq> n | _ \<Rightarrow> True)"

fun world_step_of :: "(string \<Rightarrow> string) \<Rightarrow> (rat \<Rightarrow> string) \<Rightarrow> export_config \<Rightarrow> export_world \<Rightarrow> world_step \<Rightarrow> export_world" where
  "world_step_of sha num c w (Log_changes op) =
     (if foreign (ec_name c) op then w\<lparr>w_sink := sink_step sha num (w_sink w) op\<rparr> else w)"
| "world_step_of sha num c w Tick =
     (case tick_begin num c (w_sink w) (w_loop w) of
        (Pushing es, l) \<Rightarrow> w\<lparr>w_loop := l, w_flight := es\<rparr>
      | (_, l) \<Rightarrow> w\<lparr>w_loop := l\<rparr>)"
| "world_step_of sha num c w (Answer now r) =
     (if el_ticking (w_loop w) then
        (case tick_end c now (w_flight w) r (w_loop w) (w_sink w) of
           (_, l, s) \<Rightarrow> w\<lparr>w_loop := l, w_sink := s, w_flight := [], w_shipped := w_shipped w @ acked_seqs (w_flight w) r\<rparr>)
      else w)"
| "world_step_of sha num c w (Crash r) =
     (if el_ticking (w_loop w) then
        w\<lparr>w_loop := start_loop c, w_flight := [], w_shipped := w_shipped w @ acked_seqs (w_flight w) r\<rparr>
      else w\<lparr>w_loop := start_loop c\<rparr>)"

definition cursor_at :: "export_config \<Rightarrow> sink \<Rightarrow> nat" where
  "cursor_at c s = (case read_export_cursor (ec_name c) s of None \<Rightarrow> 0 | Some k \<Rightarrow> last_seq k)"

definition world_ok :: "(string \<Rightarrow> string) \<Rightarrow> (rat \<Rightarrow> string) \<Rightarrow> export_config \<Rightarrow> export_world \<Rightarrow> bool" where
  "world_ok sha num c w \<longleftrightarrow>
     sink_ok sha num (w_sink w) \<and> {1..cursor_at c (w_sink w)} \<subseteq> set (w_shipped w) \<and>
     (el_ticking (w_loop w) \<longrightarrow> (\<exists>n. map xe_seq (w_flight w) = [Suc (cursor_at c (w_sink w))..<Suc (cursor_at c (w_sink w) + n)]))"

lemma filter_above: "filter (\<lambda>q. k < q) [1..<n] = [Suc k..<n]"
  by (induction n) auto

lemma take_upt_prefix: "\<exists>m. take k [i..<j] = [i..<i + m]"
proof (cases "i + k \<le> j")
  case True
  then show ?thesis by (auto simp: take_upt)
next
  case False
  then have "take k [i..<j] = [i..<i + (j - i)]" by (cases "i \<le> j") simp_all
  then show ?thesis by (rule exI)
qed

lemma batch_consecutive:
  assumes "sink_ok sha num s"
  shows "\<exists>n. map a_seq (batch_of num c s) = [Suc (cursor_at c s)..<Suc (cursor_at c s) + n]"
proof -
  let ?k = "cursor_at c s"
  let ?q = "\<lparr>q_tenant = None, q_kinds = None, q_since = None, q_until = None, q_limit = Some (ec_batch_size c),
           q_offset = None, q_desc = False, q_search = None, q_since_seq = Some (int ?k)\<rparr>"
  have m: "query_match num ?q = (\<lambda>r. ?k < a_seq r)" by (rule ext) (simp add: query_match_def accepts_def)
  have hits: "map a_seq (filter (\<lambda>r. ?k < a_seq r) (log_rows s)) = [Suc ?k..<next_seq s]"
    using assms filter_above [of ?k "next_seq s"] by (simp only: sink_ok_def) (metis (no_types, lifting) comp_def filter_cong filter_map)
  have "batch_of num c s = query num ?q s" by (simp add: batch_of_def cursor_at_def Let_def)
  also have "\<dots> = (if ec_batch_size c < 0 then filter (\<lambda>r. ?k < a_seq r) (log_rows s)
      else take (nat (ec_batch_size c)) (filter (\<lambda>r. ?k < a_seq r) (log_rows s)))"
    unfolding query_def m by (simp add: Let_def)
  finally have "map a_seq (batch_of num c s) = (if ec_batch_size c < 0 then take (next_seq s) [Suc ?k..<next_seq s]
      else take (nat (ec_batch_size c)) [Suc ?k..<next_seq s])"
    by (simp add: hits take_map [symmetric] del: upt_Suc)
  then show ?thesis using take_upt_prefix by metis
qed

lemma cursor_at_write:
  "cursor_at c (write_export_cursor now (ec_name c) q s) = max q (cursor_at c s)"
  by (auto simp: cursor_at_def write_export_cursor_def read_export_cursor_def split: option.splits)

lemma cursor_at_foreign: "foreign (ec_name c) op \<Longrightarrow> cursor_at c (sink_step sha num s op) = cursor_at c s"
proof (cases op)
  case (Record_one now i)
  then show ?thesis by (simp add: cursor_at_def read_export_cursor_def write_record_def record_begin_def record_end_def)
next
  case (Advance_cursor now m q)
  assume "foreign (ec_name c) op"
  then show ?thesis using Advance_cursor
    by (auto simp: foreign_def cursor_at_def write_export_cursor_def read_export_cursor_def split: option.split)
qed (simp_all add: cursor_at_def read_export_cursor_def erase_def prune_def Let_def bury_where_def)

lemma acked_range:
  assumes "map xe_seq es = [Suc k..<Suc k + n]"
  shows "set (acked_seqs es (Acked a)) = {Suc k..k + nat (min a (int (length es)))}"
    "0 < nat (min a (int (length es))) \<Longrightarrow> xe_seq (es ! (nat (min a (int (length es))) - 1)) = k + nat (min a (int (length es)))"
proof -
  have len: "length es = n" using arg_cong [OF assms, of length] by simp
  have t: "take (nat a) es = take (nat (min a (int (length es)))) es" by (cases "a \<le> int (length es)") simp_all
  define j where "j = nat (min a (int (length es)))"
  have j: "j \<le> n" using len by (simp add: j_def)
  have "map xe_seq (take j es) = [Suc k..<Suc k + j]" using j by (simp only: take_map [symmetric] assms) (simp add: take_upt del: upt_Suc)
  then show "set (acked_seqs es (Acked a)) = {Suc k..k + nat (min a (int (length es)))}"
    by (simp only: acked_seqs_def push_result.case t j_def [symmetric] set_upt) auto
  assume "0 < nat (min a (int (length es)))"
  then have "0 < j" by (simp only: j_def)
  then have "j - 1 < length es" using j len by linarith
  then have "xe_seq (es ! (j - 1)) = [Suc k..<Suc k + n] ! (j - 1)" using nth_map [of "j - 1" es xe_seq] assms by simp
  then show "xe_seq (es ! (nat (min a (int (length es))) - 1)) = k + nat (min a (int (length es)))"
    using \<open>0 < j\<close> j by (simp add: j_def [symmetric] del: upt_Suc)
qed

lemma to_export_seq: "map xe_seq (map to_export_entry rs) = map a_seq rs"
  by (simp add: to_export_entry_def Let_def)

lemma world_tick:
  assumes ok: "world_ok sha num c w"
  shows "world_ok sha num c (world_step_of sha num c w Tick)"
proof (cases "el_stopped (w_loop w) \<or> el_ticking (w_loop w) \<or> el_paused (w_loop w)")
  case True
  then show ?thesis using ok by (simp add: tick_begin_def)
next
  case go: False
  have sink: "sink_ok sha num (w_sink w)" using ok by (simp add: world_ok_def)
  show ?thesis
  proof (cases "batch_of num c (w_sink w) = []")
    case True
    then show ?thesis using ok go by (simp add: tick_begin_def Let_def world_ok_def)
  next
    case False
    obtain n where "map xe_seq (map to_export_entry (batch_of num c (w_sink w))) =
        [Suc (cursor_at c (w_sink w))..<Suc (cursor_at c (w_sink w)) + n]"
      using batch_consecutive [OF sink, of c] unfolding to_export_seq by blast
    then have "\<exists>n. map xe_seq (map to_export_entry (batch_of num c (w_sink w))) =
        [Suc (cursor_at c (w_sink w))..<Suc (cursor_at c (w_sink w) + n)]" by (intro exI [of _ n]) (simp only: add_Suc)
    then show ?thesis using ok go False by (simp add: tick_begin_def Let_def world_ok_def del: map_map upt_Suc)
  qed
qed

lemma world_answer:
  assumes ok: "world_ok sha num c w"
  shows "world_ok sha num c (world_step_of sha num c w (Answer now r))"
proof (cases "el_ticking (w_loop w)")
  case True
  obtain n where n: "map xe_seq (w_flight w) = [Suc (cursor_at c (w_sink w))..<Suc (cursor_at c (w_sink w)) + n]"
    using ok True unfolding world_ok_def by (metis add_Suc)
  have sink: "sink_ok sha num (w_sink w)" and old: "{1..cursor_at c (w_sink w)} \<subseteq> set (w_shipped w)"
    using ok by (simp_all add: world_ok_def)
  show ?thesis
  proof (cases r)
    case (Acked a)
    define j where "j = nat (min a (int (length (w_flight w))))"
    define s1 where "s1 = (if j > 0 then write_export_cursor now (ec_name c) (xe_seq (w_flight w ! (j - 1))) (w_sink w) else w_sink w)"
    let ?k = "cursor_at c (w_sink w)"
    note rng = acked_range [OF n, of a, folded j_def]
    have ok1: "sink_ok sha num s1" using sink audit.step_good [OF sink, of "Advance_cursor now (ec_name c) (xe_seq (w_flight w ! (j - 1)))"]
      by (simp add: s1_def)
    have cur: "cursor_at c s1 = ?k + j" 
    proof (cases "0 < j")
      case True
      then show ?thesis using rng(2) [OF True] by (simp only: s1_def if_True cursor_at_write)
    qed (simp add: s1_def)
    have "{1..?k + j} \<subseteq> {1..?k} \<union> {Suc ?k..?k + j}" by auto
    then have "{1..cursor_at c s1} \<subseteq> set (w_shipped w @ acked_seqs (w_flight w) (Acked a))"
      using old rng(1) unfolding cur by auto
    moreover have "world_step_of sha num c w (Answer now r) = w\<lparr>w_loop := adjust_interval c j ((w_loop w)\<lparr>el_ticking := False, el_failures := 0,
        el_backoff := 0\<rparr>), w_sink := s1, w_flight := [], w_shipped := w_shipped w @ acked_seqs (w_flight w) (Acked a)\<rparr>"
      using True Acked by (simp add: tick_end_def Let_def j_def [symmetric] s1_def)
    ultimately show ?thesis using ok1 by (simp add: world_ok_def)
  qed (use True ok in \<open>simp_all add: world_ok_def tick_end_def acked_seqs_def back_off_def Let_def\<close>)
qed (use ok in simp)

interpretation world: step_invariant "world_step_of sha num c" "world_ok sha num c"
proof
  fix w step assume ok: "world_ok sha num c w"
  show "world_ok sha num c (world_step_of sha num c w step)"
  proof (cases step)
    case (Log_changes op)
    have "sink_ok sha num (w_sink w)" using ok by (simp add: world_ok_def)
    then have "sink_ok sha num (sink_step sha num (w_sink w) op)" by (rule audit.step_good)
    then show ?thesis using ok Log_changes cursor_at_foreign [of c op sha num "w_sink w"]
      by (simp add: world_ok_def del: upt_Suc)
  next
    case (Crash r)
    then show ?thesis using ok by (auto simp: world_ok_def start_loop_def)
  qed (use world_tick [OF ok] world_answer [OF ok] in simp_all)
qed

definition start_world :: "export_config \<Rightarrow> export_world" where
  "start_world c = \<lparr>w_sink = create_sink, w_loop = start_loop c, w_flight = [], w_shipped = []\<rparr>"

text \<open>C14. At least once: whatever is logged, erased or pruned meanwhile, however the vendor answers, and wherever the process
  crashes, every row up to the export cursor was acknowledged by the vendor.\<close>

theorem export_skips_nothing:
  "{1..cursor_at c (w_sink (run (world_step_of sha num c) (start_world c) steps))} \<subseteq>
     set (w_shipped (run (world_step_of sha num c) (start_world c) steps))"
proof -
  have "world_ok sha num c (start_world c)"
    using sink_ok_create [of sha num]
    by (simp add: world_ok_def start_world_def start_loop_def cursor_at_def read_export_cursor_def) (simp add: create_sink_def)
  from world.run_good [OF this, of steps] show ?thesis by (simp add: world_ok_def)
qed

end
