(* ===== verification/CapabilitySchema.thy ===== *)
theory CapabilitySchema imports JsonCanon JsonPath "HOL-Library.Word" begin

text \<open>
  The JSON Schema validator of \<^verbatim>\<open>core/src/rpc/capability-validator.ts\<close>. Schemas are data, read the way the code reads them.
  Arguments (\<open>lib\<close>): the text of a number, regular expressions given in a schema, \<^verbatim>\<open>new URL\<close> and \<^verbatim>\<open>Date.parse\<close>.
  A \<^verbatim>\<open>$ref\<close> can be followed for ever, so validation takes fuel and \<open>None\<close> is a call that has not returned.

  Shown: validation returns when references do not form a cycle, and never when they do; and the schemas of a simple type
  language accept exactly the values of the type.
\<close>

record lib =
  num_str :: "rat \<Rightarrow> string"
  regex :: "string \<Rightarrow> (string \<Rightarrow> bool) option"
  url_ok :: "string option \<Rightarrow> string \<Rightarrow> bool"
  date_ok :: "string \<Rightarrow> bool"

section \<open>Reading values\<close>

definition get :: "js \<Rightarrow> string \<Rightarrow> js" where
  "get v k = (case v of JObj ps \<Rightarrow> (case jm_get k ps of None \<Rightarrow> JUndef | Some x \<Rightarrow> x) | _ \<Rightarrow> JUndef)"

text \<open>Own enumerable properties; an array has its indices.\<close>

definition members :: "js \<Rightarrow> (string \<times> js) list" where
  "members v = (case v of JObj ps \<Rightarrow> ps | JArr xs \<Rightarrow> zip (map show_nat [0..<length xs]) xs | _ \<Rightarrow> [])"

fun is_bool :: "js \<Rightarrow> bool" where
  "is_bool (JBool _) = True"
| "is_bool _ = False"

definition has_own :: "string \<Rightarrow> js \<Rightarrow> bool" where
  "has_own k v \<longleftrightarrow> jm_has k (members v)"

text \<open>The properties every object inherits.\<close>

definition inherited :: "string list" where
  "inherited = [''constructor'', ''__defineGetter__'', ''__defineSetter__'', ''hasOwnProperty'', ''__lookupGetter__'',
     ''__lookupSetter__'', ''isPrototypeOf'', ''propertyIsEnumerable'', ''toString'', ''valueOf'', ''__proto__'',
     ''toLocaleString'']"

text \<open>\<^verbatim>\<open>k in v\<close>.\<close>

definition has_key :: "string \<Rightarrow> js \<Rightarrow> bool" where
  "has_key k v \<longleftrightarrow> has_own k v \<or> k \<in> set inherited"

definition elems :: "js \<Rightarrow> js list option" where
  "elems v = (case v of JArr xs \<Rightarrow> Some xs | _ \<Rightarrow> None)"

definition num_at :: "js \<Rightarrow> string \<Rightarrow> rat option" where
  "num_at v k = (case get v k of JNum n \<Rightarrow> Some n | _ \<Rightarrow> None)"

definition str_at :: "js \<Rightarrow> string \<Rightarrow> string option" where
  "str_at v k = (case get v k of JStr s \<Rightarrow> Some s | _ \<Rightarrow> None)"

text \<open>\<^verbatim>\<open>String(v)\<close> on the elements that \<^verbatim>\<open>join\<close> prints, and \<^verbatim>\<open>JSON.stringify\<close> inside a message.\<close>

fun js_str :: "(rat \<Rightarrow> string) \<Rightarrow> js \<Rightarrow> string" where
  "js_str num JUndef = []"
| "js_str num JNull = []"
| "js_str num (JBool b) = (if b then ''true'' else ''false'')"
| "js_str num (JNum n) = num n"
| "js_str num (JStr s) = s"
| "js_str num (JArr xs) = join '','' (map (js_str num) xs)"
| "js_str num (JObj _) = ''[object Object]''"

definition shown :: "lib \<Rightarrow> js \<Rightarrow> string" where
  "shown lib v = (case json_text (num_str lib) v of None \<Rightarrow> ''undefined'' | Some t \<Rightarrow> t)"

section \<open>Comparison and formats\<close>

declare list.rel_cong [fundef_cong]

lemma size_member: "(k, x) \<in> set (members v) \<Longrightarrow> size x < size v"
proof (cases v)
  case (JArr xs)
  assume "(k, x) \<in> set (members v)"
  then have "x \<in> set xs" by (auto simp: members_def JArr dest: set_zip_rightD)
  then show ?thesis by (simp add: JArr size_list_estimation' less_Suc_eq_le)
next
  case (JObj ps)
  assume "(k, x) \<in> set (members v)"
  then have "(k, x) \<in> set ps" by (simp add: members_def JObj)
  then have "size_prod (\<lambda>_. 0) size (k, x) \<le> size_list (size_prod (\<lambda>_. 0) size) ps" by (rule size_list_estimation') simp
  then show ?thesis by (simp add: JObj)
qed (simp_all add: members_def)

function deep_equal :: "js \<Rightarrow> js \<Rightarrow> bool" where
  "deep_equal a b =
     (if strict_eq a b then True
      else if is_object a \<and> is_object b then
        (case (elems a, elems b) of
           (Some xs, Some ys) \<Rightarrow> list_all2 (\<lambda>p q. deep_equal (snd p) (snd q)) (members a) (members b)
         | _ \<Rightarrow> list_all2 (\<lambda>p q. fst p = fst q \<and> deep_equal (snd p) (snd q))
                 (sort_key fst (members a)) (sort_key fst (members b)))
      else False)"
  by pat_completeness auto
termination
  by (relation "measure (\<lambda>(a, b). size a)") (auto dest: size_member)

declare deep_equal.simps [simp del]

definition is_hex :: "char \<Rightarrow> bool" where
  "is_hex c \<longleftrightarrow> is_digit c \<or> (65 \<le> code c \<and> code c \<le> 70) \<or> (97 \<le> code c \<and> code c \<le> 102)"

definition is_uuid :: "string \<Rightarrow> bool" where
  "is_uuid s \<longleftrightarrow> map length (split_on (CHR ''-'') s) = [8, 4, 4, 4, 12] \<and> (\<forall>p \<in> set (split_on (CHR ''-'') s). list_all is_hex p)"

definition is_email :: "string \<Rightarrow> bool" where
  "is_email s \<longleftrightarrow>
     (case split_on (CHR ''@'') s of
        [l, d] \<Rightarrow> l \<noteq> [] \<and> list_all (\<lambda>c. \<not> is_space c) s \<and> (\<exists>i \<in> set [1..<length d - 1]. d ! i = CHR ''.'')
      | _ \<Rightarrow> False)"

definition check_format :: "lib \<Rightarrow> string \<Rightarrow> string \<Rightarrow> string option" where
  "check_format lib fmt s =
     (if fmt = ''uuid'' then (if is_uuid s then None else Some ''not a UUID'')
      else if fmt = ''email'' then (if is_email s then None else Some ''not an email'')
      else if fmt = ''uri'' then (if url_ok lib None s then None else Some ''not a URI'')
      else if fmt = ''uri-reference'' then (if url_ok lib (Some ''http://example.com/'') s then None else Some ''not a URI'')
      else if fmt = ''date-time'' then (if date_ok lib s then None else Some ''not an RFC-3339 date-time'')
      else None)"

definition escape_pointer :: "string \<Rightarrow> string" where
  "escape_pointer s = replace_all (CHR ''/'') ''~1'' (replace_all (CHR ''~'') ''~0'' s)"

definition matches_type :: "js \<Rightarrow> js \<Rightarrow> bool" where
  "matches_type t v =
     (if t = JStr ''null'' then v = JNull
      else if t = JStr ''boolean'' then (case v of JBool _ \<Rightarrow> True | _ \<Rightarrow> False)
      else if t = JStr ''string'' then (case v of JStr _ \<Rightarrow> True | _ \<Rightarrow> False)
      else if t = JStr ''number'' then (case v of JNum _ \<Rightarrow> True | _ \<Rightarrow> False)
      else if t = JStr ''integer'' then (case v of JNum n \<Rightarrow> n = of_int \<lfloor>n\<rfloor> | _ \<Rightarrow> False)
      else if t = JStr ''array'' then (case v of JArr _ \<Rightarrow> True | _ \<Rightarrow> False)
      else if t = JStr ''object'' then (case v of JObj _ \<Rightarrow> True | _ \<Rightarrow> False)
      else False)"

fun describe_type :: "js \<Rightarrow> string" where
  "describe_type JNull = ''null''"
| "describe_type (JArr _) = ''array''"
| "describe_type JUndef = ''undefined''"
| "describe_type (JBool _) = ''boolean''"
| "describe_type (JNum _) = ''number''"
| "describe_type (JStr _) = ''string''"
| "describe_type (JObj _) = ''object''"

section \<open>Hashing a schema\<close>

fun canonical_json :: "(rat \<Rightarrow> string) \<Rightarrow> js \<Rightarrow> string" where
  "canonical_json num JUndef = ''null''"
| "canonical_json num JNull = ''null''"
| "canonical_json num (JBool b) = (if b then ''true'' else ''false'')"
| "canonical_json num (JNum n) = num n"
| "canonical_json num (JStr s) = json_string s"
| "canonical_json num (JArr xs) = ''['' @ join '','' (map (canonical_json num) xs) @ '']''"
| "canonical_json num (JObj ps) =
     ''{'' @ join '','' (map (\<lambda>(k, t). json_string k @ '':'' @ t)
                          (sort_key fst (map (\<lambda>(k, v). (k, canonical_json num v)) ps))) @ ''}''"

text \<open>The two 32-bit states; the product wraps.\<close>

definition fnv_step :: "32 word \<Rightarrow> char \<Rightarrow> 32 word" where
  "fnv_step h c = xor h (word_of_nat (code c)) * 0x01000193"

fun hex_digits :: "nat \<Rightarrow> nat \<Rightarrow> string" where
  "hex_digits 0 n = []"
| "hex_digits (Suc w) n = hex_digits w (n div 16) @ [hex_digit (n mod 16)]"

definition hash_schema :: "(rat \<Rightarrow> string) \<Rightarrow> js \<Rightarrow> string" where
  "hash_schema num schema =
     (let canon = canonical_json num schema
      in hex_digits 8 (unat (foldl fnv_step 0xcbf29ce4 canon)) @ hex_digits 8 (unat (foldl fnv_step 0x84222325 canon)))"

section \<open>The compile-time check\<close>

datatype schema_error =
    Not_an_object
  | Bad_schema string
  | Unsupported string string
  | Unresolved_ref string string
  | Tuple_items string

definition supported_keywords :: "string list" where
  "supported_keywords = [''$id'', ''$schema'', ''$ref'', ''title'', ''description'', ''default'', ''examples'', ''definitions'',
     ''type'', ''enum'', ''const'', ''properties'', ''required'', ''additionalProperties'', ''items'', ''minimum'', ''maximum'',
     ''exclusiveMinimum'', ''exclusiveMaximum'', ''minLength'', ''maxLength'', ''pattern'', ''minItems'', ''maxItems'',
     ''uniqueItems'', ''oneOf'', ''anyOf'', ''allOf'', ''not'', ''format'', ''nullable'']"

definition ref_prefix :: string where
  "ref_prefix = ''#/definitions/''"

definition resolve_ref :: "js \<Rightarrow> string \<Rightarrow> js option" where
  "resolve_ref defs r =
     (if is_prefix_of ref_prefix r then
        (case jm_get (drop (length ref_prefix) r) (members defs) of
           None \<Rightarrow> None | Some v \<Rightarrow> if v = JUndef then None else Some v)
      else None)"

fun first_error :: "'e option list \<Rightarrow> 'e option" where
  "first_error [] = None"
| "first_error (None # es) = first_error es"
| "first_error (Some e # es) = Some e"

definition keywords_error :: "js \<Rightarrow> string \<Rightarrow> schema_error option" where
  "keywords_error s loc = map_option (\<lambda>(k, _). Unsupported k loc) (find (\<lambda>(k, _). k \<notin> set supported_keywords) (members s))"

definition ref_error :: "js \<Rightarrow> js \<Rightarrow> string \<Rightarrow> schema_error option" where
  "ref_error defs s loc =
     (case str_at s ''$ref'' of None \<Rightarrow> None
      | Some r \<Rightarrow> (case resolve_ref defs r of None \<Rightarrow> Some (Unresolved_ref r loc) | Some _ \<Rightarrow> None))"

lemma size_get: "is_object v \<Longrightarrow> size (get v k) < size v"
proof (cases v)
  case (JObj ps)
  show ?thesis
  proof (cases "jm_get k ps")
    case None
    then show ?thesis by (simp add: get_def JObj)
  next
    case (Some x)
    then have "(k, x) \<in> set (members v)" by (simp add: members_def JObj jm_get_SomeD)
    from size_member [OF this] show ?thesis using Some by (simp add: get_def JObj)
  qed
qed (simp_all add: get_def)

definition sub_members :: "js \<Rightarrow> string \<Rightarrow> (string \<times> js) list" where
  "sub_members s k = (if is_object (get s k) then members (get s k) else [])"

lemma size_sub_member: "is_object v \<Longrightarrow> (n, x) \<in> set (sub_members v k) \<Longrightarrow> size x < size v"
  using size_member [of n x "get v k"] size_get [of v k] by (auto simp: sub_members_def split: if_splits)

definition sub_elems :: "js \<Rightarrow> string \<Rightarrow> js list" where
  "sub_elems s k = (case elems (get s k) of None \<Rightarrow> [] | Some xs \<Rightarrow> xs)"

lemma size_sub_elem: "is_object v \<Longrightarrow> x \<in> set (sub_elems v k) \<Longrightarrow> size x < size v"
proof -
  assume o: "is_object v" and x: "x \<in> set (sub_elems v k)"
  then obtain xs where xs: "get v k = JArr xs" "x \<in> set xs" by (auto simp: sub_elems_def elems_def split: option.splits js.splits)
  then have "size x < size (get v k)" by (simp add: size_list_estimation' less_Suc_eq_le)
  then show "size x < size v" using size_get [OF o, of k] by simp
qed

function assert_supported :: "js \<Rightarrow> js \<Rightarrow> string \<Rightarrow> schema_error option" where
  "assert_supported defs s loc =
     (if is_bool s then None
      else if \<not> is_object s then Some (Bad_schema loc)
      else first_error
            ([keywords_error s loc, ref_error defs s loc] @
             map (\<lambda>p. assert_supported defs (snd p) (loc @ ''/properties/'' @ fst p)) (sub_members s ''properties'') @
             [if truthy (get s ''items'') then
                (if elems (get s ''items'') \<noteq> None then Some (Tuple_items loc)
                 else assert_supported defs (get s ''items'') (loc @ ''/items''))
              else None,
              if is_object (get s ''additionalProperties'')
              then assert_supported defs (get s ''additionalProperties'') (loc @ ''/additionalProperties'') else None] @
             map (\<lambda>p. assert_supported defs (snd p) (loc @ ''/oneOf/'' @ show_nat (fst p)))
               (zip [0..<length (sub_elems s ''oneOf'')] (sub_elems s ''oneOf'')) @
             map (\<lambda>p. assert_supported defs (snd p) (loc @ ''/anyOf/'' @ show_nat (fst p)))
               (zip [0..<length (sub_elems s ''anyOf'')] (sub_elems s ''anyOf'')) @
             map (\<lambda>p. assert_supported defs (snd p) (loc @ ''/allOf/'' @ show_nat (fst p)))
               (zip [0..<length (sub_elems s ''allOf'')] (sub_elems s ''allOf'')) @
             [if get s ''not'' \<noteq> JUndef then assert_supported defs (get s ''not'') (loc @ ''/not'') else None] @
             map (\<lambda>p. assert_supported defs (snd p) (loc @ ''/definitions/'' @ fst p)) (sub_members s ''definitions'')))"
  by pat_completeness auto
termination
  by (relation "measure (\<lambda>(d, s, p). size s)") (auto intro: size_get size_sub_member size_sub_elem [OF _ set_zip_rightD])

declare assert_supported.simps [simp del]

section \<open>Validation\<close>

datatype side = Request | Response

type_synonym violations = "(string \<times> string) list"

definition here :: "string \<Rightarrow> string" where
  "here loc = (if loc = [] then ''/'' else loc)"

definition unless :: "bool \<Rightarrow> string \<Rightarrow> string \<Rightarrow> violations" where
  "unless ok loc msg = (if ok then [] else [(loc, msg)])"

text \<open>Results of sub-validations one after the other; one that does not return keeps all from returning.\<close>

fun gather :: "violations option list \<Rightarrow> violations option" where
  "gather [] = Some []"
| "gather (r # rs) = (case r of None \<Rightarrow> None | Some vs \<Rightarrow> map_option (\<lambda>ws. vs @ ws) (gather rs))"

definition types_of :: "js \<Rightarrow> js list" where
  "types_of t = (case t of JArr ts \<Rightarrow> ts | _ \<Rightarrow> [t])"

definition check_type :: "lib \<Rightarrow> js \<Rightarrow> js \<Rightarrow> string \<Rightarrow> violations" where
  "check_type lib s v loc =
     (if get s ''type'' = JUndef then []
      else unless (\<exists>t \<in> set (types_of (get s ''type'')). matches_type t v) (here loc)
             (''expected type '' @ join ''|'' (map (js_str (num_str lib)) (types_of (get s ''type''))) @ '' but got '' @ describe_type v))"

definition check_values :: "lib \<Rightarrow> js \<Rightarrow> js \<Rightarrow> string \<Rightarrow> violations" where
  "check_values lib s v loc =
     unless (has_own ''const'' s \<longrightarrow> deep_equal v (get s ''const'')) (here loc)
       (''expected const '' @ shown lib (get s ''const'') @ '' but got '' @ shown lib v) @
     (case elems (get s ''enum'') of
        None \<Rightarrow> []
      | Some xs \<Rightarrow> unless (\<exists>x \<in> set xs. deep_equal v x) (here loc)
                    (''value not in enum ['' @ join '', '' (map (shown lib) xs) @ '']''))"

definition bound :: "lib \<Rightarrow> js \<Rightarrow> string \<Rightarrow> (rat \<Rightarrow> bool) \<Rightarrow> string \<Rightarrow> string \<Rightarrow> violations" where
  "bound lib s k ok loc msg =
     (case num_at s k of None \<Rightarrow> [] | Some b \<Rightarrow> unless (ok b) (here loc) (msg @ '' '' @ k @ '' '' @ num_str lib b))"

definition check_string :: "lib \<Rightarrow> js \<Rightarrow> string \<Rightarrow> string \<Rightarrow> violations" where
  "check_string lib s x loc =
     (let n = of_nat (length x); t = ''string length '' @ num_str lib n
      in bound lib s ''minLength'' (\<lambda>b. n \<ge> b) loc (t @ '' <'') @
         bound lib s ''maxLength'' (\<lambda>b. n \<le> b) loc (t @ '' >'') @
         (case str_at s ''pattern'' of
            None \<Rightarrow> []
          | Some p \<Rightarrow> (case regex lib p of None \<Rightarrow> []
                        | Some m \<Rightarrow> unless (m x) (here loc) (''string does not match pattern /'' @ p @ ''/''))) @
         (case str_at s ''format'' of
            None \<Rightarrow> []
          | Some f \<Rightarrow> (case check_format lib f x of None \<Rightarrow> [] | Some e \<Rightarrow> [(here loc, ''format '' @ f @ '': '' @ e)])))"

definition check_number :: "lib \<Rightarrow> js \<Rightarrow> rat \<Rightarrow> string \<Rightarrow> violations" where
  "check_number lib s n loc =
     bound lib s ''minimum'' (\<lambda>b. n \<ge> b) loc (num_str lib n @ '' <'') @
     bound lib s ''maximum'' (\<lambda>b. n \<le> b) loc (num_str lib n @ '' >'') @
     bound lib s ''exclusiveMinimum'' (\<lambda>b. n > b) loc (num_str lib n @ '' <='') @
     bound lib s ''exclusiveMaximum'' (\<lambda>b. n < b) loc (num_str lib n @ '' >='')"

definition under :: "string \<Rightarrow> string \<Rightarrow> string" where
  "under loc k = loc @ ''/'' @ escape_pointer k"

definition check_member :: "(js \<Rightarrow> js \<Rightarrow> string \<Rightarrow> violations option) \<Rightarrow> js \<Rightarrow> string \<Rightarrow> string \<times> js \<Rightarrow> violations option" where
  "check_member rec s loc p =
     (case jm_get (fst p) (sub_members s ''properties'') of
        Some sub \<Rightarrow> rec sub (snd p) (under loc (fst p))
      | None \<Rightarrow>
          if get s ''additionalProperties'' = JBool False
          then Some [(under loc (fst p), ''additional property '' @ [CHR 0x22] @ fst p @ [CHR 0x22] @ '' is not allowed'')]
          else if is_object (get s ''additionalProperties'')
          then rec (get s ''additionalProperties'') (snd p) (under loc (fst p))
          else Some [])"

definition missing_keys :: "js \<Rightarrow> js \<Rightarrow> string \<Rightarrow> violations" where
  "missing_keys s v loc =
     (case elems (get s ''required'') of
        None \<Rightarrow> []
      | Some ks \<Rightarrow> concat (map (\<lambda>k. unless (has_key (js_str (\<lambda>_. []) k) v) (under loc (js_str (\<lambda>_. []) k))
                     (''missing required property '' @ [CHR 0x22] @ js_str (\<lambda>_. []) k @ [CHR 0x22])) ks))"

definition check_object :: "(js \<Rightarrow> js \<Rightarrow> string \<Rightarrow> violations option) \<Rightarrow> js \<Rightarrow> js \<Rightarrow> (string \<times> js) list \<Rightarrow> string \<Rightarrow> violations option" where
  "check_object rec s v ps loc = gather (Some (missing_keys s v loc) # map (check_member rec s loc) ps)"

fun first_duplicate :: "js list \<Rightarrow> nat \<Rightarrow> js list \<Rightarrow> nat option" where
  "first_duplicate seen i [] = None"
| "first_duplicate seen i (x # xs) =
     (if \<exists>y \<in> set seen. deep_equal y x then Some i else first_duplicate (seen @ [x]) (Suc i) xs)"

definition check_array :: "lib \<Rightarrow> (js \<Rightarrow> js \<Rightarrow> string \<Rightarrow> violations option) \<Rightarrow> js \<Rightarrow> js list \<Rightarrow> string \<Rightarrow> violations option" where
  "check_array lib rec s xs loc =
     (let n = of_nat (length xs); t = ''array length '' @ num_str lib n
      in gather
        (Some (bound lib s ''minItems'' (\<lambda>b. n \<ge> b) loc (t @ '' <'') @ bound lib s ''maxItems'' (\<lambda>b. n \<le> b) loc (t @ '' >'') @
               (if get s ''uniqueItems'' = JBool True then
                  (case first_duplicate [] 0 xs of None \<Rightarrow> [] | Some i \<Rightarrow> [(loc @ ''/'' @ show_nat i, ''duplicate item'')])
                else [])) #
         (if get s ''items'' \<noteq> JUndef \<and> elems (get s ''items'') = None
          then map (\<lambda>p. rec (get s ''items'') (snd p) (loc @ ''/'' @ show_nat (fst p))) (zip [0..<length xs] xs)
          else [])))"

text \<open>\<^verbatim>\<open>some\<close> stops at the first match.\<close>

fun any_match :: "(js \<Rightarrow> violations option) \<Rightarrow> js list \<Rightarrow> bool option" where
  "any_match f [] = Some False"
| "any_match f (x # xs) =
     (case f x of None \<Rightarrow> None | Some vs \<Rightarrow> if vs = [] then Some True else any_match f xs)"

fun count_matches :: "(js \<Rightarrow> violations option) \<Rightarrow> js list \<Rightarrow> nat option" where
  "count_matches f [] = Some 0"
| "count_matches f (x # xs) =
     (case f x of None \<Rightarrow> None | Some vs \<Rightarrow> map_option (\<lambda>n. if vs = [] then Suc n else n) (count_matches f xs))"

definition check_combined :: "lib \<Rightarrow> (js \<Rightarrow> js \<Rightarrow> string \<Rightarrow> violations option) \<Rightarrow> js \<Rightarrow> js \<Rightarrow> string \<Rightarrow> violations option" where
  "check_combined lib rec s v loc =
     gather
       ([case elems (get s ''oneOf'') of
           None \<Rightarrow> Some []
         | Some xs \<Rightarrow> map_option (\<lambda>n. unless (n = 1) (here loc)
                       (''oneOf matched '' @ num_str lib (of_nat n) @ '' schemas (expected exactly 1)''))
                     (count_matches (\<lambda>sub. rec sub v loc) xs),
         case elems (get s ''anyOf'') of
           None \<Rightarrow> Some []
         | Some xs \<Rightarrow> map_option (\<lambda>m. unless m (here loc) ''anyOf matched zero schemas'')
                     (any_match (\<lambda>sub. rec sub v loc) xs)] @
        map (\<lambda>sub. rec sub v loc) (sub_elems s ''allOf'') @
        [if get s ''not'' \<noteq> JUndef then
           map_option (\<lambda>vs. unless (vs \<noteq> []) (here loc) ''not-schema matched'') (rec (get s ''not'') v loc)
         else Some []])"

definition check_node :: "lib \<Rightarrow> (js \<Rightarrow> js \<Rightarrow> string \<Rightarrow> violations option) \<Rightarrow> js \<Rightarrow> js \<Rightarrow> string \<Rightarrow> violations option" where
  "check_node lib rec s v loc =
     (let ty = check_type lib s v loc
      in if ty \<noteq> [] then Some ty
         else gather
           [Some (check_values lib s v loc),
            Some (case v of JStr x \<Rightarrow> check_string lib s x loc | JNum n \<Rightarrow> check_number lib s n loc | _ \<Rightarrow> []),
            (case v of JObj ps \<Rightarrow> check_object rec s v ps loc | _ \<Rightarrow> Some []),
            (case v of JArr xs \<Rightarrow> check_array lib rec s xs loc | _ \<Rightarrow> Some []),
            check_combined lib rec s v loc])"

fun validate_node :: "nat \<Rightarrow> lib \<Rightarrow> js \<Rightarrow> js \<Rightarrow> js \<Rightarrow> string \<Rightarrow> violations option" where
  "validate_node 0 lib defs s v loc = None"
| "validate_node (Suc n) lib defs s v loc =
     (case s of
        JBool b \<Rightarrow> Some (unless b (here loc) ''schema `false` rejects all values'')
      | _ \<Rightarrow>
          if \<not> is_object s then Some []
          else (case str_at s ''$ref'' of
                  Some r \<Rightarrow>
                    (case resolve_ref defs r of
                       None \<Rightarrow> Some [(here loc, ''unresolved $ref '' @ r)]
                     | Some t \<Rightarrow> validate_node n lib defs t v loc)
                | None \<Rightarrow> check_node lib (validate_node n lib defs) s v loc))"

section \<open>Compiled validators\<close>

record validator =
  capability_name :: string
  va_side :: side
  schema_hash :: string
  root_schema :: js

definition definitions_of :: "js \<Rightarrow> js" where
  "definitions_of s = (if is_object (get s ''definitions'') then get s ''definitions'' else JObj [])"

definition compile_validator :: "lib \<Rightarrow> string \<Rightarrow> side \<Rightarrow> js \<Rightarrow> schema_error + validator" where
  "compile_validator lib name sd s =
     (if \<not> is_object s then Inl Not_an_object
      else case assert_supported (definitions_of s) s [] of
             Some e \<Rightarrow> Inl e
           | None \<Rightarrow> Inr \<lparr>capability_name = name, va_side = sd, schema_hash = hash_schema (num_str lib) s, root_schema = s\<rparr>)"

definition validate :: "nat \<Rightarrow> lib \<Rightarrow> validator \<Rightarrow> js \<Rightarrow> violations option" where
  "validate fuel lib va v = validate_node fuel lib (definitions_of (root_schema va)) (root_schema va) v []"

fun side_text :: "side \<Rightarrow> string" where
  "side_text Request = ''request''"
| "side_text Response = ''response''"

definition registry_get :: "lib \<Rightarrow> string \<Rightarrow> side \<Rightarrow> js \<Rightarrow> (string, validator) jmap \<Rightarrow>
    (schema_error + validator option) \<times> (string, validator) jmap" where
  "registry_get lib name sd s cache =
     (if nullish s then (Inr None, cache)
      else
        (let key = name @ ''::'' @ side_text sd @ ''::'' @ hash_schema (num_str lib) s
         in case jm_get key cache of
              Some va \<Rightarrow> (Inr (Some va), cache)
            | None \<Rightarrow> (case compile_validator lib name sd s of
                         Inl e \<Rightarrow> (Inl e, cache)
                       | Inr va \<Rightarrow> (Inr (Some va), jm_set key va cache))))"

section \<open>More fuel changes nothing\<close>

lemma gather_Some: "(\<exists>vs. gather rs = Some vs) \<longleftrightarrow> None \<notin> set rs"
  by (induction rs) (auto split: option.splits)

lemma gather_Nil: "gather rs = Some [] \<longleftrightarrow> set rs \<subseteq> {Some []}"
  by (induction rs) (auto split: option.splits)

definition below :: "'a option \<Rightarrow> 'a option \<Rightarrow> bool" where
  "below a b \<longleftrightarrow> a = None \<or> b = a"

lemma below_simps [simp]: "below None b" "below a a" "below (Some x) b \<longleftrightarrow> b = Some x"
  by (auto simp: below_def)

lemma below_gather: "list_all2 below rs rs' \<Longrightarrow> below (gather rs) (gather rs')"
proof (induction rs rs' rule: list_all2_induct)
  case (Cons a rs b rs')
  then show ?case by (cases a) (auto simp: below_def split: option.splits)
qed simp

lemma below_map_option: "below a b \<Longrightarrow> below (map_option f a) (map_option f b)"
  by (auto simp: below_def)

lemma below_map: "(\<And>x. x \<in> set xs \<Longrightarrow> below (f x) (g x)) \<Longrightarrow> list_all2 below (map f xs) (map g xs)"
  by (induction xs) auto

lemma below_any: "(\<And>x. x \<in> set xs \<Longrightarrow> below (f x) (g x)) \<Longrightarrow> below (any_match f xs) (any_match g xs)"
proof (induction xs)
  case (Cons x xs)
  then have "below (f x) (g x)" "below (any_match f xs) (any_match g xs)" by auto
  then show ?case by (cases "f x") auto
qed simp

lemma below_count: "(\<And>x. x \<in> set xs \<Longrightarrow> below (f x) (g x)) \<Longrightarrow> below (count_matches f xs) (count_matches g xs)"
proof (induction xs)
  case (Cons x xs)
  then have "below (f x) (g x)" "below (count_matches f xs) (count_matches g xs)" by auto
  then show ?case by (cases "f x") (auto simp: below_def)
qed simp

text \<open>The schemas a schema's own check may descend to.\<close>

definition subschemas :: "js \<Rightarrow> js list" where
  "subschemas s = map snd (sub_members s ''properties'') @ [get s ''additionalProperties'', get s ''items''] @
     sub_elems s ''oneOf'' @ sub_elems s ''anyOf'' @ sub_elems s ''allOf'' @ [get s ''not'']"

definition extends :: "js \<Rightarrow> (js \<Rightarrow> js \<Rightarrow> string \<Rightarrow> violations option) \<Rightarrow> (js \<Rightarrow> js \<Rightarrow> string \<Rightarrow> violations option) \<Rightarrow> bool" where
  "extends s f g \<longleftrightarrow> (\<forall>t \<in> set (subschemas s). \<forall>v loc. below (f t v loc) (g t v loc))"

lemma extendsD: "extends s f g \<Longrightarrow> t \<in> set (subschemas s) \<Longrightarrow> below (f t v loc) (g t v loc)"
  by (simp add: extends_def)

lemma below_member:
  assumes fg: "extends s f g"
  shows "below (check_member f s loc p) (check_member g s loc p)"
proof (cases "jm_get (fst p) (sub_members s ''properties'')")
  case None
  then show ?thesis by (simp add: check_member_def extendsD [OF fg] subschemas_def)
next
  case (Some t)
  then have "t \<in> set (subschemas s)" by (force simp: subschemas_def dest: jm_get_SomeD)
  then show ?thesis using Some by (simp add: check_member_def extendsD [OF fg])
qed

lemma below_elem: "extends s f g \<Longrightarrow> t \<in> set (sub_elems s k) \<Longrightarrow> k \<in> {''oneOf'', ''anyOf'', ''allOf''} \<Longrightarrow> below (f t v loc) (g t v loc)"
  by (erule extendsD) (auto simp: subschemas_def)

lemma below_combined:
  assumes fg: "extends s f g"
  shows "below (check_combined lib f s v loc) (check_combined lib g s v loc)"
proof -
  have c: "below (count_matches (\<lambda>t. f t v loc) xs) (count_matches (\<lambda>t. g t v loc) xs)" if "elems (get s ''oneOf'') = Some xs" for xs
    using that by (intro below_count below_elem [OF fg, of _ "''oneOf''"]) (simp_all add: sub_elems_def)
  have a: "below (any_match (\<lambda>t. f t v loc) xs) (any_match (\<lambda>t. g t v loc) xs)" if "elems (get s ''anyOf'') = Some xs" for xs
    using that by (intro below_any below_elem [OF fg, of _ "''anyOf''"]) (simp_all add: sub_elems_def)
  have "list_all2 below (map (\<lambda>t. f t v loc) (sub_elems s ''allOf'')) (map (\<lambda>t. g t v loc) (sub_elems s ''allOf''))"
    by (intro below_map below_elem [OF fg, of _ "''allOf''"]) simp_all
  moreover have "below (f (get s ''not'') v loc) (g (get s ''not'') v loc)" by (rule extendsD [OF fg]) (simp add: subschemas_def)
  ultimately show ?thesis unfolding check_combined_def
    by (intro below_gather list_all2_appendI) (auto simp: c a below_map_option split: option.split)
qed

lemma below_node:
  assumes fg: "extends s f g"
  shows "below (check_node lib f s v loc) (check_node lib g s v loc)"
proof -
  have "below (check_object f s v ps loc) (check_object g s v ps loc)" for ps v
    unfolding check_object_def by (rule below_gather) (simp add: below_map below_member [OF fg])
  moreover have "below (check_array lib f s xs loc) (check_array lib g s xs loc)" for xs
  proof -
    have "below (f (get s ''items'') v loc) (g (get s ''items'') v loc)" for v loc by (rule extendsD [OF fg]) (simp add: subschemas_def)
    then show ?thesis unfolding check_array_def Let_def by (intro below_gather) (simp add: below_map)
  qed
  ultimately have "list_all2 below
      [Some (check_values lib s v loc), Some (case v of JStr x \<Rightarrow> check_string lib s x loc | JNum n \<Rightarrow> check_number lib s n loc | _ \<Rightarrow> []),
       (case v of JObj ps \<Rightarrow> check_object f s v ps loc | _ \<Rightarrow> Some []),
       (case v of JArr xs \<Rightarrow> check_array lib f s xs loc | _ \<Rightarrow> Some []), check_combined lib f s v loc]
      [Some (check_values lib s v loc), Some (case v of JStr x \<Rightarrow> check_string lib s x loc | JNum n \<Rightarrow> check_number lib s n loc | _ \<Rightarrow> []),
       (case v of JObj ps \<Rightarrow> check_object g s v ps loc | _ \<Rightarrow> Some []),
       (case v of JArr xs \<Rightarrow> check_array lib g s xs loc | _ \<Rightarrow> Some []), check_combined lib g s v loc]"
    by (simp add: below_combined [OF fg] split: js.split)
  from below_gather [OF this] show ?thesis unfolding check_node_def Let_def
    by (cases "check_type lib s v loc = []") (simp_all only: if_True if_False below_simps simp_thms)
qed

lemma validate_more_fuel: "below (validate_node n lib defs s v loc) (validate_node (Suc n) lib defs s v loc)"
proof (induction n arbitrary: s v loc)
  case (Suc n)
  have "below (check_node lib (validate_node n lib defs) s v loc) (check_node lib (validate_node (Suc n) lib defs) s v loc)"
    by (rule below_node) (unfold extends_def, intro ballI allI, rule Suc)
  then show ?case using Suc unfolding validate_node.simps(2) [of "Suc n"] validate_node.simps(2) [of n lib defs s]
    by (auto split: js.split option.split)
qed simp

lemma validate_fuel_mono:
  assumes "validate_node n lib defs s v loc = Some r" "n \<le> m"
  shows "validate_node m lib defs s v loc = Some r"
  using assms(2)
proof (induction m rule: dec_induct)
  case (step m)
  then show ?case using validate_more_fuel [of m lib defs s v loc] by simp
qed (rule assms(1))

section \<open>When validation returns\<close>

text \<open>References that do not run in circles: every chain of sub-schemas and references ends.\<close>

inductive grounded :: "js \<Rightarrow> js \<Rightarrow> bool" for defs :: js where
  no_schema: "\<not> is_object s \<Longrightarrow> grounded defs s"
| dangling: "str_at s ''$ref'' = Some r \<Longrightarrow> resolve_ref defs r = None \<Longrightarrow> grounded defs s"
| reference: "str_at s ''$ref'' = Some r \<Longrightarrow> resolve_ref defs r = Some t \<Longrightarrow> grounded defs t \<Longrightarrow> grounded defs s"
| composed: "str_at s ''$ref'' = None \<Longrightarrow> (\<And>t. t \<in> set (subschemas s) \<Longrightarrow> grounded defs t) \<Longrightarrow> grounded defs s"

definition total_on :: "js \<Rightarrow> (js \<Rightarrow> js \<Rightarrow> string \<Rightarrow> violations option) \<Rightarrow> bool" where
  "total_on s f \<longleftrightarrow> (\<forall>t \<in> set (subschemas s). \<forall>v loc. f t v loc \<noteq> None)"

lemma below_totalD: "below (Some x) y \<Longrightarrow> y \<noteq> None"
  by simp

lemma node_returns:
  assumes "total_on s f"
  shows "check_node lib f s v loc \<noteq> None"
proof -
  have t: "f t v loc \<noteq> None" if "t \<in> set (subschemas s)" for t v loc using assms that by (simp add: total_on_def)
  have member: "check_member f s loc p \<noteq> None" for p loc
  proof (cases "jm_get (fst p) (sub_members s ''properties'')")
    case None
    then show ?thesis using t [of "get s ''additionalProperties''"] by (simp add: check_member_def subschemas_def)
  next
    case (Some x)
    then have "x \<in> set (subschemas s)" by (force simp: subschemas_def dest: jm_get_SomeD)
    then show ?thesis using Some t by (simp add: check_member_def)
  qed
  have item: "f (get s ''items'') v loc \<noteq> None" and no: "f (get s ''not'') v loc \<noteq> None" for v loc
    by (rule t, simp add: subschemas_def)+
  have elem: "f x v loc \<noteq> None" if "x \<in> set (sub_elems s k)" "k \<in> {''oneOf'', ''anyOf'', ''allOf''}" for x k v loc
    by (rule t) (use that in \<open>auto simp: subschemas_def\<close>)
  have count: "(\<forall>x \<in> set xs. g x \<noteq> None) \<Longrightarrow> count_matches g xs \<noteq> None" for g xs
    by (induction xs) (auto split: option.splits)
  have any: "(\<forall>x \<in> set xs. g x \<noteq> None) \<Longrightarrow> any_match g xs \<noteq> None" for g xs
    by (induction xs) (auto split: option.splits)
  have g: "None \<notin> set rs \<Longrightarrow> gather rs \<noteq> None" for rs using gather_Some [of rs] by auto
  have obj: "check_object f s v ps loc \<noteq> None" for v ps
    unfolding check_object_def by (rule g) (use member in \<open>auto simp: image_iff\<close>, metis option.exhaust member)
  have arr: "check_array lib f s xs loc \<noteq> None" for xs
    unfolding check_array_def Let_def by (rule g) (use item in \<open>auto simp: image_iff\<close>, metis item)
  have "count_matches (\<lambda>x. f x v loc) xs \<noteq> None" if "elems (get s ''oneOf'') = Some xs" for xs
    using that elem [of _ "''oneOf''"] by (intro count) (simp add: sub_elems_def)
  moreover have "any_match (\<lambda>x. f x v loc) xs \<noteq> None" if "elems (get s ''anyOf'') = Some xs" for xs
    using that elem [of _ "''anyOf''"] by (intro any) (simp add: sub_elems_def)
  moreover have "None \<notin> set (map (\<lambda>x. f x v loc) (sub_elems s ''allOf''))"
  proof
    assume "None \<in> set (map (\<lambda>x. f x v loc) (sub_elems s ''allOf''))"
    then obtain x where "x \<in> set (sub_elems s ''allOf'')" "f x v loc = None" by auto
    then show False using elem [of x "''allOf''" v loc] by simp
  qed
  ultimately have comb: "check_combined lib f s v loc \<noteq> None"
    unfolding check_combined_def by (intro g) (use no [of v loc] in \<open>auto split: option.splits\<close>)
  have o: "(case v of JObj ps \<Rightarrow> check_object f s v ps loc | _ \<Rightarrow> Some []) \<noteq> None"
    by (cases v) (simp_all only: js.case obj option.distinct not_False_eq_True)
  have a: "(case v of JArr xs \<Rightarrow> check_array lib f s xs loc | _ \<Rightarrow> Some []) \<noteq> None"
    by (cases v) (simp_all only: js.case arr option.distinct not_False_eq_True)
  show ?thesis
  proof (cases "check_type lib s v loc = []")
    case True
    show ?thesis unfolding check_node_def Let_def True by (simp only: simp_thms if_False, rule g) (use o a comb in \<open>simp del: not_None_eq\<close>)
  next
    case False
    then show ?thesis by (simp add: check_node_def)
  qed
qed

lemma finite_fuel: "(\<And>t. t \<in> set ts \<Longrightarrow> \<exists>n. \<forall>v loc. validate_node n lib defs t v loc \<noteq> None) \<Longrightarrow>
   \<exists>n. \<forall>t \<in> set ts. \<forall>v loc. validate_node n lib defs t v loc \<noteq> None"
proof (induction ts)
  case (Cons t ts)
  obtain n where n: "\<forall>v loc. validate_node n lib defs t v loc \<noteq> None" using Cons.prems [of t] by auto
  obtain m where m: "\<forall>t \<in> set ts. \<forall>v loc. validate_node m lib defs t v loc \<noteq> None" using Cons by auto
  have "validate_node (max n m) lib defs x v loc \<noteq> None" if "x \<in> set (t # ts)" for x v loc
  proof (cases "x = t")
    case True
    then obtain r where "validate_node n lib defs x v loc = Some r" using n by blast
    from validate_fuel_mono [OF this] show ?thesis by simp
  next
    case False
    then have "x \<in> set ts" using that by simp
    then obtain r where "validate_node m lib defs x v loc = Some r" using m by blast
    from validate_fuel_mono [OF this] show ?thesis by simp
  qed
  then show ?case by blast
qed simp

lemma grounded_returns: "grounded defs s \<Longrightarrow> \<exists>n. \<forall>v loc. validate_node n lib defs s v loc \<noteq> None"
proof (induction rule: grounded.induct)
  case (no_schema s)
  then have "validate_node 1 lib defs s v loc \<noteq> None" for v loc by (cases s) simp_all
  then show ?case by blast
next
  case (dangling s r)
  then have "validate_node 1 lib defs s v loc \<noteq> None" for v loc by (cases s) simp_all
  then show ?case by blast
next
  case (reference s r t)
  then obtain n where n: "\<forall>v loc. validate_node n lib defs t v loc \<noteq> None" by blast
  have "validate_node (Suc n) lib defs s v loc \<noteq> None" for v loc
    using reference.hyps n by (cases s) (simp_all del: not_None_eq)
  then show ?case by blast
next
  case (composed s)
  obtain n where n: "\<forall>t \<in> set (subschemas s). \<forall>v loc. validate_node n lib defs t v loc \<noteq> None"
    using finite_fuel composed.IH by blast
  have "validate_node (Suc n) lib defs s v loc \<noteq> None" for v loc
    using composed.hyps(1) n node_returns [of s "validate_node n lib defs" lib v loc]
    by (cases s) (simp_all add: total_on_def del: not_None_eq)
  then show ?case by blast
qed

text \<open>C16. A compiled validator whose references do not run in circles returns on every value, with fuel that depends on the
  schema only, and from there on the result does not depend on the fuel.\<close>

theorem grounded_validation_returns:
  assumes "compile_validator lib name sd s = Inr va" and "grounded (definitions_of s) s"
  shows "\<exists>n. \<forall>v. \<exists>vs. \<forall>m. validate (n + m) lib va v = Some vs"
proof -
  have va: "root_schema va = s" using assms(1) by (auto simp: compile_validator_def split: if_splits option.splits)
  obtain n where n: "\<forall>v loc. validate_node n lib (definitions_of s) s v loc \<noteq> None" using grounded_returns [OF assms(2)] by blast
  have "\<exists>vs. \<forall>m. validate (n + m) lib va v = Some vs" for v
  proof -
    obtain vs where "validate_node n lib (definitions_of s) s v [] = Some vs" using n by blast
    then have "validate (n + m) lib va v = Some vs" for m using validate_fuel_mono [of n lib "definitions_of s" s v "[]" vs "n + m"]
      by (simp add: validate_def va)
    then show ?thesis by blast
  qed
  then show ?thesis by blast
qed

text \<open>A reference that resolves to itself compiles without an error, and then validation never returns, whatever the value.\<close>

lemma reference_cycle_never_returns:
  assumes "compile_validator lib name sd s = Inr va" and "str_at s ''$ref'' = Some r"
    and "resolve_ref (definitions_of s) r = Some t" and "str_at t ''$ref'' = Some r"
  shows "validate n lib va v = None"
proof -
  have va: "root_schema va = s" using assms(1) by (auto simp: compile_validator_def split: if_splits option.splits)
  have obj: "is_object s" "is_object t" using assms(2,4) by (cases s; simp add: str_at_def get_def; cases t; simp add: str_at_def get_def)+
  have "\<not> is_bool s" "\<not> is_bool t" using obj by (cases s; simp; cases t; simp)+
  then have unfold_s: "validate_node (Suc n) lib (definitions_of s) s v loc = validate_node n lib (definitions_of s) t v loc"
    and unfold_t: "validate_node (Suc n) lib (definitions_of s) t v loc = validate_node n lib (definitions_of s) t v loc" for n loc
    using obj assms(2-4) by (cases s; simp; cases t; simp)+
  have "validate_node n lib (definitions_of s) t v []  = None" for n by (induction n) (simp_all only: unfold_t validate_node.simps(1))
  then show ?thesis using unfold_s by (cases n) (simp_all only: validate_def va validate_node.simps(1))
qed

definition plain_lib :: lib where
  "plain_lib = \<lparr>num_str = (\<lambda>_. []), regex = (\<lambda>_. None), url_ok = (\<lambda>_ _. True), date_ok = (\<lambda>_. True)\<rparr>"

definition text_schema :: js where
  "text_schema = JObj [(''type'', JStr ''string'')]"

lemmas schema_reads = keywords_error_def ref_error_def str_at_def get_def members_def sub_members_def sub_elems_def elems_def
  supported_keywords_def

lemma compile_facts: "\<exists>va. compile_validator lib name sd text_schema = Inr va"
proof -
  have "assert_supported defs text_schema [] = None" for defs
    by (subst assert_supported.simps) (simp add: text_schema_def schema_reads)
  then show ?thesis by (simp add: compile_validator_def) (simp add: text_schema_def)
qed

theorem grounded_validation_returns_witness:
  "\<exists>n. \<forall>v. \<exists>vs. \<forall>m. validate (n + m) plain_lib (projr (compile_validator plain_lib ''c'' Request text_schema)) v = Some vs"
proof -
  have ref: "str_at text_schema ''$ref'' = None" and subs: "set (subschemas text_schema) = {JUndef}"
    by (simp_all add: text_schema_def str_at_def get_def subschemas_def sub_members_def sub_elems_def elems_def)
  have "grounded (definitions_of text_schema) t" if "t \<in> set (subschemas text_schema)" for t
    using that unfolding subs by (intro grounded.no_schema) simp
  with ref have "grounded (definitions_of text_schema) text_schema" by (rule grounded.composed)
  moreover obtain va where "compile_validator plain_lib ''c'' Request text_schema = Inr va" using compile_facts by blast
  ultimately show ?thesis using grounded_validation_returns [of plain_lib "''c''" Request text_schema va] by simp
qed

definition cyclic_schema :: js where
  "cyclic_schema = JObj [(''$ref'', JStr ''#/definitions/a''),
     (''definitions'', JObj [(''a'', JObj [(''$ref'', JStr ''#/definitions/a'')])])]"

section \<open>Simple types\<close>

datatype ty = Ty_null | Ty_bool | Ty_text | Ty_num | Ty_int | Ty_list ty | Ty_object "(string \<times> ty) list"

fun schema_of :: "ty \<Rightarrow> js" where
  "schema_of Ty_null = JObj [(''type'', JStr ''null'')]"
| "schema_of Ty_bool = JObj [(''type'', JStr ''boolean'')]"
| "schema_of Ty_text = JObj [(''type'', JStr ''string'')]"
| "schema_of Ty_num = JObj [(''type'', JStr ''number'')]"
| "schema_of Ty_int = JObj [(''type'', JStr ''integer'')]"
| "schema_of (Ty_list t) = JObj [(''type'', JStr ''array''), (''items'', schema_of t)]"
| "schema_of (Ty_object fs) = JObj [(''type'', JStr ''object''), (''properties'', JObj (map (\<lambda>(k, t). (k, schema_of t)) fs)),
     (''required'', JArr (map (\<lambda>(k, t). JStr k) fs)), (''additionalProperties'', JBool False)]"

text \<open>A value has an object type when it has exactly the fields of the type, each with a value of its type.\<close>

fun has_type :: "ty \<Rightarrow> js \<Rightarrow> bool" where
  "has_type Ty_null v = (v = JNull)"
| "has_type Ty_bool v = (\<exists>b. v = JBool b)"
| "has_type Ty_text v = (\<exists>s. v = JStr s)"
| "has_type Ty_num v = (\<exists>n. v = JNum n)"
| "has_type Ty_int v = (\<exists>i. v = JNum (of_int i))"
| "has_type (Ty_list t) v = (\<exists>xs. v = JArr xs \<and> (\<forall>x \<in> set xs. has_type t x))"
| "has_type (Ty_object fs) v = (\<exists>ps. v = JObj ps \<and> fst ` set ps = fst ` set fs \<and>
     (\<forall>(k, t) \<in> set fs. \<forall>(l, x) \<in> set ps. l = k \<longrightarrow> has_type t x))"

fun ty_ok :: "ty \<Rightarrow> bool" where
  "ty_ok (Ty_list t) = ty_ok t"
| "ty_ok (Ty_object fs) = (distinct (map fst fs) \<and> fst ` set fs \<inter> set inherited = {} \<and> (\<forall>(k, t) \<in> set fs. ty_ok t))"
| "ty_ok _ = True"

fun depth :: "ty \<Rightarrow> nat" where
  "depth (Ty_list t) = Suc (depth t)"
| "depth (Ty_object fs) = Suc (Max (insert 0 (set (map (\<lambda>(k, t). depth t) fs))))"
| "depth _ = 1"

definition bare :: "js \<Rightarrow> bool" where
  "bare s \<longleftrightarrow> (\<exists>ps. s = JObj ps \<and> fst ` set ps \<subseteq> {''type'', ''items'', ''properties'', ''required'', ''additionalProperties''})"

lemma get_absent: "s = JObj ps \<Longrightarrow> k \<notin> fst ` set ps \<Longrightarrow> get s k = JUndef"
  by (simp add: get_def jm_get_def map_of_eq_None_iff [THEN iffD2])

lemma bare_get: "bare s \<Longrightarrow> k \<notin> {''type'', ''items'', ''properties'', ''required'', ''additionalProperties''} \<Longrightarrow> get s k = JUndef"
proof -
  assume "bare s" "k \<notin> {''type'', ''items'', ''properties'', ''required'', ''additionalProperties''}"
  then obtain ps where "s = JObj ps" "k \<notin> fst ` set ps" unfolding bare_def by (elim exE conjE) (rule that, assumption, rule contra_subsetD)
  then show ?thesis by (rule get_absent)
qed

lemma bare_node:
  assumes "bare s"
  shows "check_node lib f s v loc =
    (if check_type lib s v loc \<noteq> [] then Some (check_type lib s v loc)
     else gather [(case v of JObj ps \<Rightarrow> check_object f s v ps loc | _ \<Rightarrow> Some []),
                  (case v of JArr xs \<Rightarrow> check_array lib f s xs loc | _ \<Rightarrow> Some [])])"
proof -
  have g: "get s ''const'' = JUndef" "get s ''enum'' = JUndef" "get s ''minLength'' = JUndef" "get s ''maxLength'' = JUndef"
    "get s ''pattern'' = JUndef" "get s ''format'' = JUndef" "get s ''minimum'' = JUndef" "get s ''maximum'' = JUndef"
    "get s ''exclusiveMinimum'' = JUndef" "get s ''exclusiveMaximum'' = JUndef" "get s ''oneOf'' = JUndef"
    "get s ''anyOf'' = JUndef" "get s ''allOf'' = JUndef" "get s ''not'' = JUndef"
    by (rule bare_get [OF assms], simp)+
  obtain ps where ps: "s = JObj ps" "fst ` set ps \<subseteq> {''type'', ''items'', ''properties'', ''required'', ''additionalProperties''}"
    using assms unfolding bare_def by (elim exE conjE)
  have "''const'' \<notin> fst ` set ps" by (rule contra_subsetD [OF ps(2)]) simp
  then have "\<not> has_own ''const'' s" by (simp add: has_own_def jm_has_def members_def ps(1))
  then have "check_values lib s v loc = []" by (simp add: check_values_def unless_def elems_def g)
  moreover have "check_string lib s x loc = []" for x by (simp add: check_string_def Let_def bound_def num_at_def str_at_def g)
  moreover have "check_number lib s n loc = []" for n by (simp add: check_number_def bound_def num_at_def g)
  moreover have "check_combined lib f s v loc = Some []" by (simp add: check_combined_def elems_def sub_elems_def g)
  ultimately show ?thesis by (simp add: check_node_def Let_def option.map_ident split: js.split option.split)
qed

lemma gather_skip [simp]: "gather (Some [] # rs) = gather rs"
  by (cases "gather rs") simp_all

lemma bare_array:
  assumes "bare s" "is_object (get s ''items'')" "elems (get s ''items'') = None"
  shows "check_array lib f s xs loc =
    gather (map (\<lambda>p. f (get s ''items'') (snd p) (loc @ ''/'' @ show_nat (fst p))) (zip [0..<length xs] xs))"
proof -
  have "get s ''minItems'' = JUndef" "get s ''maxItems'' = JUndef" "get s ''uniqueItems'' = JUndef"
    by (rule bare_get [OF assms(1)], simp)+
  moreover have "get s ''items'' \<noteq> JUndef" using assms(2) by auto
  ultimately show ?thesis using assms(3)
    by (simp add: check_array_def Let_def bound_def num_at_def del: gather.simps)
qed

definition decides :: "violations option \<Rightarrow> bool \<Rightarrow> bool" where
  "decides r b \<longleftrightarrow> (\<exists>vs. r = Some vs \<and> (vs = [] \<longleftrightarrow> b))"

lemma decides_gather:
  assumes "\<And>r. r \<in> set rs \<Longrightarrow> \<exists>b. decides r b"
  shows "decides (gather rs) (\<forall>r \<in> set rs. r = Some [])"
proof -
  have "None \<notin> set rs" using assms by (fastforce simp: decides_def)
  then obtain vs where vs: "gather rs = Some vs" using gather_Some by blast
  have "vs = [] \<longleftrightarrow> gather rs = Some []" using vs by simp
  then show ?thesis using vs gather_Nil [of rs] by (auto simp: decides_def)
qed

lemma decidesD: "decides r b \<Longrightarrow> r = Some [] \<longleftrightarrow> b"
  by (auto simp: decides_def)

lemma leaf_node:
  assumes "s = JObj [(''type'', JStr k)]" and "k \<notin> {''array'', ''object''}"
  shows "decides (check_node lib f s v loc) (matches_type (JStr k) v)"
proof -
  have b: "bare s" using assms(1) by (simp add: bare_def)
  have ty: "check_type lib s v loc = [] \<longleftrightarrow> matches_type (JStr k) v"
    using assms(1) by (simp add: check_type_def get_def types_of_def unless_def)
  show ?thesis
  proof (cases "matches_type (JStr k) v")
    case True
    then have "(\<forall>ps. v \<noteq> JObj ps) \<and> (\<forall>xs. v \<noteq> JArr xs)" using assms(2)
      by (cases v) (auto simp: matches_type_def split: if_splits)
    then show ?thesis using True ty by (cases v) (simp_all add: bare_node [OF b] decides_def)
  next
    case False
    then show ?thesis using ty by (simp add: bare_node [OF b] decides_def)
  qed
qed

lemma schema_shape: "is_object (schema_of t)" "\<not> is_bool (schema_of t)" "str_at (schema_of t) ''$ref'' = None"
  "bare (schema_of t)" "elems (schema_of t) = None"
  by (cases t; simp add: str_at_def get_def bare_def elems_def)+

lemma validate_schema:
  "validate_node (Suc n) lib defs (schema_of t) v loc = check_node lib (validate_node n lib defs) (schema_of t) v loc"
  using schema_shape [of t] by (cases "schema_of t") simp_all

lemma gather_one [simp]: "gather [r] = r"
  by (cases r) simp_all

lemma decides_map:
  assumes "\<And>x. x \<in> set xs \<Longrightarrow> decides (f x) (P x)"
  shows "decides (gather (map f xs)) (\<forall>x \<in> set xs. P x)"
proof -
  have "decides (gather (map f xs)) (\<forall>r \<in> set (map f xs). r = Some [])" by (rule decides_gather) (use assms in auto)
  moreover have "(\<forall>r \<in> set (map f xs). r = Some []) \<longleftrightarrow> (\<forall>x \<in> set xs. P x)" using decidesD [OF assms] by auto
  ultimately show ?thesis by simp
qed

lemma decides_conj: "decides r b \<Longrightarrow> decides (gather (Some vs # [r])) (vs = [] \<and> b)"
  by (auto simp: decides_def)

lemma decides_cons: "decides (gather rs) b \<Longrightarrow> decides (gather (Some vs # rs)) (vs = [] \<and> b)"
  by (auto simp: decides_def)

lemma zip_snd: "(\<forall>p \<in> set (zip [0..<length xs] xs). Q (snd p)) \<longleftrightarrow> (\<forall>x \<in> set xs. Q x)"
proof -
  have "map snd (zip [0..<length xs] xs) = xs" by simp
  then have "set xs = snd ` set (zip [0..<length xs] xs)" by (metis set_map)
  then show ?thesis by simp
qed

lemma typed_list:
  assumes "\<And>v loc. decides (f (schema_of t) v loc) (has_type t v)"
  shows "decides (check_node lib f (schema_of (Ty_list t)) v loc) (has_type (Ty_list t) v)"
proof -
  define s where "s = schema_of (Ty_list t)"
  have ty: "check_type lib s v loc = [] \<longleftrightarrow> (\<exists>xs. v = JArr xs)"
    by (cases v) (simp_all add: s_def check_type_def get_def types_of_def unless_def matches_type_def)
  have bare: "bare s" unfolding s_def by (rule schema_shape(4))
  have items: "get s ''items'' = schema_of t" by (simp add: s_def get_def)
  show ?thesis
  proof (cases v)
    case (JArr xs)
    have "decides (gather (map (\<lambda>p. f (schema_of t) (snd p) (loc @ ''/'' @ show_nat (fst p))) (zip [0..<length xs] xs)))
        (\<forall>p \<in> set (zip [0..<length xs] xs). has_type t (snd p))"
      by (rule decides_map) (rule assms)
    then have "decides (check_array lib f s xs loc) (\<forall>x \<in> set xs. has_type t x)"
      unfolding zip_snd using bare_array [OF bare, of lib f xs loc] schema_shape(1,5) by (simp add: items)
    moreover have "check_type lib s v loc = []" using ty JArr by blast
    ultimately show ?thesis by (simp add: bare_node [OF bare] s_def [symmetric] JArr del: schema_of.simps gather.simps(2))
  qed (use ty in \<open>simp_all add: bare_node [OF bare] s_def [symmetric] decides_def del: schema_of.simps\<close>)
qed

lemma unless_concat: "concat (map (\<lambda>k. unless (p k) (a k) (b k)) ks) = [] \<longleftrightarrow> (\<forall>k \<in> set ks. p k)"
  by (induction ks) (auto simp: unless_def)

lemma fields_iff:
  assumes "distinct (map fst fs)"
  shows "fst ` set fs \<subseteq> fst ` set ps \<and> (\<forall>p \<in> set ps. \<exists>t. map_of fs (fst p) = Some t \<and> P t (snd p)) \<longleftrightarrow>
    fst ` set ps = fst ` set fs \<and> (\<forall>(k, t) \<in> set fs. \<forall>(l, x) \<in> set ps. l = k \<longrightarrow> P t x)" (is "?l \<longleftrightarrow> ?r")
proof
  assume l: ?l
  have "fst p \<in> fst ` set fs" if mem: "p \<in> set ps" for p
  proof -
    obtain t where "map_of fs (fst p) = Some t" using bspec [OF conjunct2 [OF l] mem] by blast
    then have "(fst p, t) \<in> set fs" by (rule map_of_SomeD)
    then show ?thesis by (metis fst_conv image_eqI)
  qed
  moreover have "P t x" if "(k, t) \<in> set fs" "(k, x) \<in> set ps" for k t x
    using l that(2) map_of_is_SomeI [OF assms that(1)] by force
  ultimately show ?r using l by auto
next
  assume r: ?r
  have "\<exists>t. map_of fs (fst p) = Some t \<and> P t (snd p)" if "p \<in> set ps" for p
  proof -
    have "fst p \<in> fst ` set fs" using r that by blast
    then obtain t where t: "(fst p, t) \<in> set fs" by auto
    then have "P t (snd p)" using r that by (cases p) auto
    then show ?thesis using map_of_is_SomeI [OF assms t] by simp
  qed
  then show ?l using r by blast
qed

lemma typed_object:
  assumes ok: "ty_ok (Ty_object fs)" and f: "\<And>k t v loc. (k, t) \<in> set fs \<Longrightarrow> decides (f (schema_of t) v loc) (has_type t v)"
  shows "decides (check_node lib f (schema_of (Ty_object fs)) v loc) (has_type (Ty_object fs) v)"
proof -
  define s where "s = schema_of (Ty_object fs)"
  have bare: "bare s" unfolding s_def by (rule schema_shape(4))
  have ty: "check_type lib s v loc = [] \<longleftrightarrow> (\<exists>ps. v = JObj ps)"
    by (cases v) (simp_all add: s_def check_type_def get_def types_of_def unless_def matches_type_def)
  show ?thesis
  proof (cases v)
    case (JObj ps)
    have look: "jm_get k (sub_members s ''properties'') = map_option schema_of (map_of fs k)" for k
      by (simp add: s_def sub_members_def get_def members_def jm_get_def map_of_map)
    have add: "get s ''additionalProperties'' = JBool False" by (simp add: s_def get_def)
    let ?P = "\<lambda>p. \<exists>t. map_of fs (fst p) = Some t \<and> has_type t (snd p)"
    have member: "decides (check_member f s loc p) (?P p)" for p
    proof (cases "map_of fs (fst p)")
      case None
      then show ?thesis by (simp add: check_member_def look add decides_def)
    next
      case (Some t)
      then show ?thesis using f [OF map_of_SomeD [OF Some]] by (simp add: check_member_def look)
    qed
    have req: "elems (get s ''required'') = Some (map (\<lambda>(k, t). JStr k) fs)" by (simp add: s_def get_def elems_def)
    have "missing_keys s v loc = [] \<longleftrightarrow> (\<forall>k \<in> set (map (\<lambda>(k, t). JStr k) fs). has_key (js_str (\<lambda>_. []) k) v)"
      unfolding missing_keys_def req option.case unless_concat ..
    also have "\<dots> \<longleftrightarrow> (\<forall>k \<in> fst ` set fs. has_key k v)" by force
    also have "\<dots> \<longleftrightarrow> fst ` set fs \<subseteq> fst ` set ps"
      using ok by (auto simp: has_key_def has_own_def jm_has_def members_def JObj)
    finally have missing: "missing_keys s v loc = [] \<longleftrightarrow> fst ` set fs \<subseteq> fst ` set ps" .
    have "decides (gather (map (check_member f s loc) ps)) (\<forall>p \<in> set ps. ?P p)" by (rule decides_map) (rule member)
    from decides_cons [OF this] have obj: "decides (check_object f s v ps loc) (fst ` set fs \<subseteq> fst ` set ps \<and> (\<forall>p \<in> set ps. ?P p))"
      unfolding check_object_def missing [symmetric] .
    have dist: "distinct (map fst fs)" using ok by simp
    have "fst ` set fs \<subseteq> fst ` set ps \<and> (\<forall>p \<in> set ps. ?P p) \<longleftrightarrow> has_type (Ty_object fs) v"
      unfolding fields_iff [OF dist] by (simp add: JObj)
    with obj have "decides (check_object f s v ps loc) (has_type (Ty_object fs) v)" by simp
    moreover have "gather [r, Some []] = r" for r by (cases r) simp_all
    moreover have "check_type lib s v loc = []" using ty JObj by blast
    ultimately show ?thesis by (simp add: bare_node [OF bare] s_def [symmetric] JObj del: schema_of.simps has_type.simps)
  qed (use ty in \<open>simp_all add: bare_node [OF bare] s_def [symmetric] decides_def del: schema_of.simps\<close>)
qed

lemma leaf_type:
  "has_type Ty_null v \<longleftrightarrow> matches_type (JStr ''null'') v" "has_type Ty_bool v \<longleftrightarrow> matches_type (JStr ''boolean'') v"
  "has_type Ty_text v \<longleftrightarrow> matches_type (JStr ''string'') v" "has_type Ty_num v \<longleftrightarrow> matches_type (JStr ''number'') v"
  "has_type Ty_int v \<longleftrightarrow> matches_type (JStr ''integer'') v"
  by (cases v; simp add: matches_type_def; metis floor_of_int)+

lemma typed_leaf:
  "decides (check_node lib f (schema_of Ty_null) v loc) (matches_type (JStr ''null'') v)"
  "decides (check_node lib f (schema_of Ty_bool) v loc) (matches_type (JStr ''boolean'') v)"
  "decides (check_node lib f (schema_of Ty_text) v loc) (matches_type (JStr ''string'') v)"
  "decides (check_node lib f (schema_of Ty_num) v loc) (matches_type (JStr ''number'') v)"
  "decides (check_node lib f (schema_of Ty_int) v loc) (matches_type (JStr ''integer'') v)"
  by (rule leaf_node; simp)+

lemma typed_schema: "ty_ok t \<Longrightarrow> depth t \<le> n \<Longrightarrow> decides (validate_node n lib defs (schema_of t) v loc) (has_type t v)"
proof (induction t arbitrary: n v loc rule: schema_of.induct)
  case (6 t)
  then obtain m where m: "n = Suc m" "depth t \<le> m" by (cases n) auto
  then show ?case using 6 typed_list [of "validate_node m lib defs" t] by (simp only: m(1) validate_schema) simp
next
  case (7 fs)
  then obtain m where m: "n = Suc m" by (cases n) auto
  have "depth t \<le> m" if "(k, t) \<in> set fs" for k t
  proof -
    have "depth t \<le> Max (insert 0 (set (map (\<lambda>(k, t). depth t) fs)))" using that by (intro Max_ge) force+
    then show ?thesis using 7(3) m by (simp only: depth.simps)
  qed
  then have "decides (validate_node m lib defs (schema_of t) v loc) (has_type t v)" if "(k, t) \<in> set fs" for k t v loc
    using 7(1) [OF that refl] 7(2) that by auto
  from typed_object [OF 7(2) this] show ?case by (simp only: m validate_schema)
next
  case 1
  then obtain m where "n = Suc m" by (cases n) auto
  then show ?case unfolding leaf_type by (simp only: validate_schema typed_leaf)
next
  case 2
  then obtain m where "n = Suc m" by (cases n) auto
  then show ?case unfolding leaf_type by (simp only: validate_schema typed_leaf)
next
  case 3
  then obtain m where "n = Suc m" by (cases n) auto
  then show ?case unfolding leaf_type by (simp only: validate_schema typed_leaf)
next
  case 4
  then obtain m where "n = Suc m" by (cases n) auto
  then show ?case unfolding leaf_type by (simp only: validate_schema typed_leaf)
next
  case 5
  then obtain m where "n = Suc m" by (cases n) auto
  then show ?case unfolding leaf_type by (simp only: validate_schema typed_leaf)
qed

text \<open>C15. The validator is a sound and complete type checker for simple types: a validator compiled from the schema of a
  type returns on every value and accepts it exactly when the value has the type, the fields of an object type being named
  unlike anything objects inherit.\<close>

theorem typed_schema_decides:
  assumes "compile_validator lib name sd (schema_of t) = Inr va" and "ty_ok t" and "depth t \<le> fuel"
  shows "\<exists>vs. validate fuel lib va v = Some vs \<and> (vs = [] \<longleftrightarrow> has_type t v)"
proof -
  have "root_schema va = schema_of t" using assms(1) by (auto simp: compile_validator_def split: if_splits option.splits)
  then show ?thesis using typed_schema [OF assms(2,3)] by (simp add: validate_def decides_def)
qed

theorem typed_schema_decides_witness:
  "\<exists>vs. validate 1 plain_lib (projr (compile_validator plain_lib ''c'' Request (schema_of Ty_text))) (JStr ''a'') = Some vs \<and>
     (vs = [] \<longleftrightarrow> has_type Ty_text (JStr ''a''))"
proof -
  obtain va where va: "compile_validator plain_lib ''c'' Request (schema_of Ty_text) = Inr va"
    using compile_facts [of plain_lib "''c''" Request] by (auto simp: text_schema_def)
  from typed_schema_decides [OF va, of 1 "JStr ''a''"] show ?thesis by (simp only: va sum.sel) simp
qed

section \<open>Corners\<close>

text \<open>Names that objects inherit count as present, \<^verbatim>\<open>nullable\<close> changes nothing, and an empty array equals an empty object.\<close>

lemma inherited_is_never_missing:
  "missing_keys (JObj [(''required'', JArr [JStr ''toString''])]) v loc = []"
  by (simp add: missing_keys_def get_def elems_def unless_def has_key_def inherited_def)

lemma nullable_ignored:
  "check_type lib (JObj [(''type'', JStr ''string''), (''nullable'', JBool True)]) JNull loc \<noteq> []"
  by (simp add: check_type_def get_def types_of_def matches_type_def unless_def)

lemma empty_array_equals_object: "deep_equal (JArr []) (JObj [])"
  by (subst deep_equal.simps) (simp add: elems_def members_def)

end
