(* ===== verification/Permission.thy ===== *)
theory Permission imports Prelude begin

text \<open>
  Permissions of tool calls: the glob patterns of \<^verbatim>\<open>core/src/permission/glob.ts\<close>, the gate of
  \<^verbatim>\<open>core/src/permission/gate.ts\<close> and the rules a chat user gets from \<^verbatim>\<open>core/src/channels/permissions.ts\<close>.

  \<open>compile_glob\<close> writes the text of a regular expression as the code does; \<open>read_items\<close> is what \<^verbatim>\<open>new RegExp\<close> reads from
  such a text (\<open>None\<close> for a text outside the syntax the code uses) and \<open>re_match\<close> how it matches, without flags: the dot
  stands for any character but a line terminator.

  Shown: every pattern compiles; a pattern matches what its documentation says as long as the key has no line break; what
  the gate answers; that scoping a gate only takes permissions away; and that a line break in a key gets past deny rules.
\<close>

section \<open>Globs\<close>

definition glob_meta :: "char \<Rightarrow> bool" where
  "glob_meta c \<longleftrightarrow> c \<in> set ''.+^${}()|[]'' \<or> c = CHR 0x5C"

fun compile_body :: "string \<Rightarrow> string" where
  "compile_body [] = []"
| "compile_body [c] =
     (if c = CHR ''*'' then ''[^/]*''
      else if c = CHR ''?'' then ''[^/]''
      else if glob_meta c then [CHR 0x5C, c]
      else [c])"
| "compile_body (c # d # s) =
     (if c = CHR ''*'' then
        (if d = CHR ''*'' then ''.*'' @ compile_body s else ''[^/]*'' @ compile_body (d # s))
      else if c = CHR ''?'' then ''[^/]'' @ compile_body (d # s)
      else if glob_meta c then [CHR 0x5C, c] @ compile_body (d # s)
      else c # compile_body (d # s))"

definition compile_glob :: "string \<Rightarrow> string" where
  "compile_glob p = ''^'' @ compile_body p @ ''$''"

text \<open>The regular expressions of that form.\<close>

datatype atom = Dot | Not_slash | Lit char

type_synonym re_item = "atom \<times> bool"

definition line_break :: "char \<Rightarrow> bool" where
  "line_break c \<longleftrightarrow> code c = 10 \<or> code c = 13"

fun atom_fits :: "atom \<Rightarrow> char \<Rightarrow> bool" where
  "atom_fits Dot c = (\<not> line_break c)"
| "atom_fits Not_slash c = (c \<noteq> CHR ''/'')"
| "atom_fits (Lit d) c = (c = d)"

definition read_atom :: "string \<Rightarrow> (atom \<times> string) option" where
  "read_atom s =
     (case s of
        [] \<Rightarrow> None
      | c # r \<Rightarrow>
          if c = CHR ''.'' then Some (Dot, r)
          else if c = CHR 0x5C then
            (case r of [] \<Rightarrow> None | d # r' \<Rightarrow> if glob_meta d then Some (Lit d, r') else None)
          else if c = CHR ''['' then
            (if is_prefix_of ''^/]'' r then Some (Not_slash, drop 3 r) else None)
          else if glob_meta c \<or> c = CHR ''*'' \<or> c = CHR ''?'' then None
          else Some (Lit c, r))"

lemma read_atom_shorter: "read_atom s = Some (a, r) \<Longrightarrow> length r < length s"
  by (auto simp: read_atom_def split: list.splits if_splits)

function read_items :: "string \<Rightarrow> re_item list option" where
  "read_items s =
     (if s = [] then Some []
      else case read_atom s of
          None \<Rightarrow> None
        | Some (a, r) \<Rightarrow>
            (case r of
               c # r' \<Rightarrow> if c = CHR ''*'' then map_option (Cons (a, True)) (read_items r')
                         else map_option (Cons (a, False)) (read_items r)
             | [] \<Rightarrow> Some [(a, False)]))"
  by auto
termination
  by (relation "measure length") (auto dest!: read_atom_shorter)

declare read_items.simps [simp del]

definition read_regexp :: "string \<Rightarrow> re_item list option" where
  "read_regexp s =
     (if s \<noteq> [] \<and> hd s = CHR ''^'' \<and> tl s \<noteq> [] \<and> last s = CHR ''$'' then read_items (butlast (tl s)) else None)"

fun re_match :: "re_item list \<Rightarrow> string \<Rightarrow> bool" where
  "re_match [] s = (s = [])"
| "re_match ((a, star) # is) s =
     (if star then re_match is s \<or> (case s of [] \<Rightarrow> False | c # s' \<Rightarrow> atom_fits a c \<and> re_match ((a, star) # is) s')
      else (case s of [] \<Rightarrow> False | c # s' \<Rightarrow> atom_fits a c \<and> re_match is s'))"

text \<open>\<^verbatim>\<open>compileGlob(pattern).test(value)\<close>; \<open>None\<close> would be a pattern \<^verbatim>\<open>RegExp\<close> rejects.\<close>

definition glob_test :: "string \<Rightarrow> string \<Rightarrow> bool option" where
  "glob_test p v = map_option (\<lambda>is. re_match is v) (read_regexp (compile_glob p))"

definition glob_matches :: "string \<Rightarrow> string \<Rightarrow> bool" where
  "glob_matches p v = (glob_test p v = Some True)"

section \<open>What a pattern means\<close>

text \<open>The pieces of a pattern, and the runs of characters each of them stands for according to the comment in \<^verbatim>\<open>glob.ts\<close>.\<close>

datatype glob_piece = Any_run | Segment_run | One_char | Only char

fun glob_pieces :: "string \<Rightarrow> glob_piece list" where
  "glob_pieces [] = []"
| "glob_pieces [c] = [if c = CHR ''*'' then Segment_run else if c = CHR ''?'' then One_char else Only c]"
| "glob_pieces (c # d # s) =
     (if c = CHR ''*'' then (if d = CHR ''*'' then Any_run # glob_pieces s else Segment_run # glob_pieces (d # s))
      else (if c = CHR ''?'' then One_char else Only c) # glob_pieces (d # s))"

fun stands_for :: "glob_piece \<Rightarrow> string \<Rightarrow> bool" where
  "stands_for Any_run w = True"
| "stands_for Segment_run w = (CHR ''/'' \<notin> set w)"
| "stands_for One_char w = (\<exists>c. c \<noteq> CHR ''/'' \<and> w = [c])"
| "stands_for (Only d) w = (w = [d])"

definition glob_means :: "string \<Rightarrow> string \<Rightarrow> bool" where
  "glob_means p v \<longleftrightarrow> (\<exists>ws. v = concat ws \<and> list_all2 stands_for (glob_pieces p) ws)"

fun item_of :: "glob_piece \<Rightarrow> re_item" where
  "item_of Any_run = (Dot, True)"
| "item_of Segment_run = (Not_slash, True)"
| "item_of One_char = (Not_slash, False)"
| "item_of (Only c) = (Lit c, False)"

definition one_line :: "string \<Rightarrow> bool" where
  "one_line s \<longleftrightarrow> list_all (\<lambda>c. \<not> line_break c) s"

subsection \<open>Every pattern compiles\<close>

lemma compile_body_not_star:
  "compile_body p \<noteq> [] \<Longrightarrow> hd (compile_body p) \<noteq> CHR ''*''"
  by (induction p rule: compile_body.induct) (auto simp: glob_meta_def)

lemma read_items_atom:
  assumes "read_atom s = Some (a, r)" "s \<noteq> []" "r \<noteq> [] \<Longrightarrow> hd r \<noteq> CHR ''*''"
  shows "read_items s = map_option (Cons (a, False)) (read_items r)"
proof (cases r)
  case Nil
  have "read_items [] = Some []" by (subst read_items.simps) simp
  with assms Nil show ?thesis by (subst read_items.simps) simp
next
  case (Cons c r')
  with assms show ?thesis by (subst read_items.simps) simp
qed

lemma read_items_star:
  assumes "read_atom s = Some (a, CHR ''*'' # r)" "s \<noteq> []"
  shows "read_items s = map_option (Cons (a, True)) (read_items r)"
  using assms by (subst read_items.simps) simp

lemma read_items_Lit:
  assumes "c \<noteq> CHR ''*''" "c \<noteq> CHR ''?''" "r \<noteq> [] \<Longrightarrow> hd r \<noteq> CHR ''*''"
  shows "read_items ((if glob_meta c then [CHR 0x5C, c] else [c]) @ r) = map_option (Cons (Lit c, False)) (read_items r)"
proof (rule read_items_atom)
  show "read_atom ((if glob_meta c then [CHR 0x5C, c] else [c]) @ r) = Some (Lit c, r)"
    using assms by (auto simp: read_atom_def glob_meta_def)
qed (use assms in auto)

lemma read_compile_body: "read_items (compile_body p) = Some (map item_of (glob_pieces p))"
proof (induction p rule: compile_body.induct)
  case 1
  then show ?case by (subst read_items.simps) simp
next
  case (2 c)
  have nil: "read_items [] = Some []" by (subst read_items.simps) simp
  show ?case
    using read_items_star [of "''[^/]*''" Not_slash "[]"] read_items_atom [of "''[^/]''" Not_slash "[]"]
      read_items_Lit [of c "[]"] nil
    by (auto simp: read_atom_def)
next
  case (3 c d s)
  note IH = 3
  let ?r = "compile_body (d # s)"
  have no_star: "?r \<noteq> [] \<Longrightarrow> hd ?r \<noteq> CHR ''*''" by (rule compile_body_not_star)
  have dot: "read_items (''.*'' @ compile_body s) = map_option (Cons (Dot, True)) (read_items (compile_body s))"
    by (rule read_items_star) (simp_all add: read_atom_def)
  have seg: "read_items (''[^/]*'' @ ?r) = map_option (Cons (Not_slash, True)) (read_items ?r)"
    by (rule read_items_star) (simp_all add: read_atom_def)
  have one: "read_items (''[^/]'' @ ?r) = map_option (Cons (Not_slash, False)) (read_items ?r)"
    by (rule read_items_atom) (use no_star in \<open>simp_all add: read_atom_def\<close>)
  consider "c = CHR ''*''" "d = CHR ''*''" | "c = CHR ''*''" "d \<noteq> CHR ''*''" | "c = CHR ''?''"
    | "c \<noteq> CHR ''*''" "c \<noteq> CHR ''?''" by blast
  then show ?case
  proof cases
    case 1
    with IH(1) dot show ?thesis by simp
  next
    case 2
    with IH(2) seg show ?thesis by simp
  next
    case 3
    with IH(3) one show ?thesis by simp
  next
    case 4
    note lit = read_items_Lit [of c ?r, OF 4 no_star]
    show ?thesis
    proof (cases "glob_meta c")
      case True
      with 4 IH(4) lit show ?thesis by simp
    next
      case False
      with 4 IH(5) lit show ?thesis by simp
    qed
  qed
qed

lemma read_compile_glob: "read_regexp (compile_glob p) = Some (map item_of (glob_pieces p))"
  by (simp add: read_regexp_def compile_glob_def read_compile_body butlast_append)

lemma glob_matches_items: "glob_matches p v = re_match (map item_of (glob_pieces p)) v"
  by (simp add: glob_matches_def glob_test_def read_compile_glob)

subsection \<open>Meaning of a compiled pattern\<close>

fun item_fits :: "re_item \<Rightarrow> string \<Rightarrow> bool" where
  "item_fits (a, star) w = (if star then list_all (atom_fits a) w else (\<exists>c. atom_fits a c \<and> w = [c]))"

definition item_lang :: "re_item list \<Rightarrow> string set" where
  "item_lang is = {concat ws |ws. list_all2 item_fits is ws}"

lemma item_lang_Nil: "item_lang [] = {[]}"
  by (auto simp: item_lang_def)

lemma item_lang_Cons: "item_lang (i # is) = {w @ v |w v. item_fits i w \<and> v \<in> item_lang is}"
proof (rule set_eqI, rule iffI)
  fix u assume "u \<in> item_lang (i # is)"
  then obtain w ws where "u = w @ concat ws" "item_fits i w" "list_all2 item_fits is ws"
    unfolding item_lang_def by (auto simp: list_all2_Cons1)
  then show "u \<in> {w @ v |w v. item_fits i w \<and> v \<in> item_lang is}"
    unfolding item_lang_def by blast
next
  fix u assume "u \<in> {w @ v |w v. item_fits i w \<and> v \<in> item_lang is}"
  then obtain w ws where "u = w @ concat ws" "item_fits i w" "list_all2 item_fits is ws"
    unfolding item_lang_def by blast
  then have "u = concat (w # ws)" "list_all2 item_fits (i # is) (w # ws)" by simp_all
  then show "u \<in> item_lang (i # is)" unfolding item_lang_def by blast
qed

lemma item_lang_single: "v \<in> item_lang ((a, False) # is) \<longleftrightarrow> (\<exists>c s. v = c # s \<and> atom_fits a c \<and> s \<in> item_lang is)"
  by (simp add: item_lang_Cons) (metis append_Cons append_Nil)

lemma item_lang_star:
  "v \<in> item_lang ((a, True) # is) \<longleftrightarrow>
     v \<in> item_lang is \<or> (\<exists>c s. v = c # s \<and> atom_fits a c \<and> s \<in> item_lang ((a, True) # is))"
  (is "_ = ?r")
proof
  assume "v \<in> item_lang ((a, True) # is)"
  then obtain w u where w: "v = w @ u" "list_all (atom_fits a) w" "u \<in> item_lang is"
    by (auto simp: item_lang_Cons)
  show ?r
  proof (cases w)
    case Nil
    with w show ?thesis by simp
  next
    case (Cons c w')
    with w have "w' @ u \<in> item_lang ((a, True) # is)" "v = c # (w' @ u)" "atom_fits a c"
      by (auto simp: item_lang_Cons)
    then show ?thesis by blast
  qed
next
  assume ?r
  then show "v \<in> item_lang ((a, True) # is)"
  proof
    assume "v \<in> item_lang is"
    then show ?thesis by (simp add: item_lang_Cons) (metis append_Nil list.pred_inject(1))
  next
    assume "\<exists>c s. v = c # s \<and> atom_fits a c \<and> s \<in> item_lang ((a, True) # is)"
    then obtain c w u where "v = (c # w) @ u" "list_all (atom_fits a) (c # w)" "u \<in> item_lang is"
      by (auto simp: item_lang_Cons)
    then show ?thesis unfolding item_lang_Cons item_fits.simps by (simp only: if_True) blast
  qed
qed

lemma re_match_lang: "re_match is v \<longleftrightarrow> v \<in> item_lang is"
proof (induction "is" v rule: re_match.induct)
  case (1 s)
  then show ?case by (simp add: item_lang_Nil)
next
  case (2 a star "is" s)
  show ?case
  proof (cases star)
    case False
    with 2(3) show ?thesis by (cases s) (simp_all add: item_lang_single)
  next
    case True
    then show ?thesis
      using 2(1) 2(2) item_lang_star [of s a "is"] by (cases s) simp_all
  qed
qed

lemma item_fits_piece: "one_line w \<Longrightarrow> item_fits (item_of q) w = stands_for q w"
  by (cases q) (auto simp: one_line_def list_all_iff)

lemma one_line_concat: "one_line (concat ws) \<longleftrightarrow> list_all one_line ws"
  by (auto simp: one_line_def list_all_iff)

lemma fits_pieces:
  "list_all one_line ws \<Longrightarrow> list_all2 item_fits (map item_of qs) ws = list_all2 stands_for qs ws"
proof (induction ws arbitrary: qs)
  case (Cons w ws)
  then show ?case by (cases qs) (simp_all add: item_fits_piece)
qed simp

text \<open>On one line, a pattern matches exactly what its documentation says.\<close>

lemma glob_matches_means: "one_line v \<Longrightarrow> glob_matches p v \<longleftrightarrow> glob_means p v"
  unfolding glob_matches_items re_match_lang glob_means_def item_lang_def mem_Collect_eq
  by (metis fits_pieces one_line_concat)

section \<open>The gate\<close>

datatype permission_mode = Default | Plan | Bypass | Auto

datatype verdict = Allow | Deny

record permission_rule =
  pattern :: string
  decision :: verdict

datatype outcome = Allowed | Denied | Prompted

record permission_decision =
  outcome :: outcome
  matched_rule :: "permission_rule option"
  decision_reason :: "string option"

record gate =
  gate_mode :: permission_mode
  gate_rules :: "permission_rule list"
  escalate_after :: int
  denials :: nat

definition create_permission_gate :: "permission_mode \<Rightarrow> permission_rule list \<Rightarrow> int option \<Rightarrow> gate" where
  "create_permission_gate m rs esc =
     \<lparr>gate_mode = m, gate_rules = rs, escalate_after = (case esc of None \<Rightarrow> 3 | Some n \<Rightarrow> n), denials = 0\<rparr>"

fun find_match :: "permission_rule list \<Rightarrow> verdict \<Rightarrow> string \<Rightarrow> permission_rule option" where
  "find_match [] d v = None"
| "find_match (r # rs) d v =
     (if decision r = d \<and> glob_matches (pattern r) v then Some r else find_match rs d v)"

definition allow_by_rule :: "permission_rule \<Rightarrow> permission_decision" where
  "allow_by_rule r = \<lparr>outcome = Allowed, matched_rule = Some r, decision_reason = None\<rparr>"

definition decide :: "outcome \<Rightarrow> string \<Rightarrow> permission_decision" where
  "decide out why = \<lparr>outcome = out, matched_rule = None, decision_reason = Some why\<rparr>"

definition check :: "gate \<Rightarrow> string \<Rightarrow> string \<Rightarrow> bool \<Rightarrow> permission_decision" where
  "check g tool key read_only =
     (let target = tool @ '':'' @ key
      in case find_match (gate_rules g) Deny target of
           Some r \<Rightarrow> \<lparr>outcome = Denied, matched_rule = Some r, decision_reason = Some ''matched deny rule''\<rparr>
         | None \<Rightarrow>
             (let allow_rule = find_match (gate_rules g) Allow target
              in case gate_mode g of
                   Bypass \<Rightarrow> (case allow_rule of Some r \<Rightarrow> allow_by_rule r | None \<Rightarrow> decide Allowed ''bypass mode'')
                 | Plan \<Rightarrow>
                     if read_only then
                       (case allow_rule of Some r \<Rightarrow> allow_by_rule r | None \<Rightarrow> decide Prompted ''plan mode: read-only tool'')
                     else decide Denied ''plan mode: writes are disabled''
                 | _ \<Rightarrow> (case allow_rule of Some r \<Rightarrow> allow_by_rule r | None \<Rightarrow> decide Prompted ''no matching rule'')))"

definition record_denial :: "gate \<Rightarrow> gate" where
  "record_denial g = g\<lparr>denials := denials g + 1\<rparr>"

definition scope :: "gate \<Rightarrow> permission_rule list \<Rightarrow> gate" where
  "scope g allow_subset =
     create_permission_gate (gate_mode g)
       (filter (\<lambda>r. decision r = Deny) (gate_rules g) @ filter (\<lambda>r. decision r = Allow) allow_subset)
       (Some (escalate_after g))"

definition should_escalate :: "gate \<Rightarrow> int option \<Rightarrow> bool" where
  "should_escalate g threshold = ((case threshold of None \<Rightarrow> 3 | Some n \<Rightarrow> n) \<le> int (denials g))"

subsection \<open>What the gate answers\<close>

definition rule_hits :: "permission_rule list \<Rightarrow> verdict \<Rightarrow> string \<Rightarrow> bool" where
  "rule_hits rs d v \<longleftrightarrow> list_ex (\<lambda>r. decision r = d \<and> glob_matches (pattern r) v) rs"

lemma find_match_hits: "find_match rs d v = None \<longleftrightarrow> \<not> rule_hits rs d v"
  by (induction rs) (auto simp: rule_hits_def)

lemma rule_hits_append: "rule_hits (rs @ ts) d v \<longleftrightarrow> rule_hits rs d v \<or> rule_hits ts d v"
  by (simp add: rule_hits_def)

lemma rule_hits_filter: "rule_hits (filter (\<lambda>r. decision r = d') rs) d v \<longleftrightarrow> d = d' \<and> rule_hits rs d v"
  by (auto simp: rule_hits_def list_ex_iff)

lemma rule_hits_mono: "set rs \<subseteq> set ts \<Longrightarrow> rule_hits rs d v \<Longrightarrow> rule_hits ts d v"
  by (auto simp: rule_hits_def list_ex_iff)

lemma check_outcome:
  "outcome (check g tool key ro) =
     (if rule_hits (gate_rules g) Deny (tool @ '':'' @ key) \<or> gate_mode g = Plan \<and> \<not> ro then Denied
      else if gate_mode g = Bypass \<or> rule_hits (gate_rules g) Allow (tool @ '':'' @ key) then Allowed
      else Prompted)"
  using find_match_hits [of "gate_rules g" Deny "tool @ '':'' @ key"]
    find_match_hits [of "gate_rules g" Allow "tool @ '':'' @ key"]
  by (auto simp: check_def Let_def decide_def allow_by_rule_def
      split: option.splits permission_mode.splits)

lemma check_cong:
  "gate_rules g = gate_rules g' \<Longrightarrow> gate_mode g = gate_mode g' \<Longrightarrow> check g tool key ro = check g' tool key ro"
  by (simp only: check_def)

lemma check_record_denial [simp]: "check (record_denial g) tool key ro = check g tool key ro"
  by (rule check_cong) (simp_all add: record_denial_def)

fun rank :: "outcome \<Rightarrow> nat" where
  "rank Denied = 0"
| "rank Prompted = 1"
| "rank Allowed = 2"

lemma scope_rules:
  "gate_rules (scope g ss) = filter (\<lambda>r. decision r = Deny) (gate_rules g) @ filter (\<lambda>r. decision r = Allow) ss"
  "gate_mode (scope g ss) = gate_mode g" "escalate_after (scope g ss) = escalate_after g" "denials (scope g ss) = 0"
  by (simp_all add: scope_def create_permission_gate_def)

lemma scope_denies: "rule_hits (gate_rules (scope g ss)) Deny v = rule_hits (gate_rules g) Deny v"
  by (auto simp: scope_rules rule_hits_append rule_hits_filter)

lemma scope_allows: "rule_hits (gate_rules (scope g ss)) Allow v = rule_hits ss Allow v"
  by (auto simp: scope_rules rule_hits_append rule_hits_filter)

definition rule_means :: "permission_rule list \<Rightarrow> verdict \<Rightarrow> string \<Rightarrow> bool" where
  "rule_means rs d v \<longleftrightarrow> (\<exists>r \<in> set rs. decision r = d \<and> glob_means (pattern r) v)"

lemma rule_hits_means: "one_line v \<Longrightarrow> rule_hits rs d v = rule_means rs d v"
  by (simp add: rule_hits_def rule_means_def list_ex_iff glob_matches_means)

subsection \<open>Plain text before a wildcard\<close>

definition plain :: "string \<Rightarrow> bool" where
  "plain s \<longleftrightarrow> list_all (\<lambda>c. c \<noteq> CHR ''*'' \<and> c \<noteq> CHR ''?'') s"

lemma pieces_plain: "plain s \<Longrightarrow> glob_pieces (s @ q) = map Only s @ glob_pieces q"
proof (induction s)
  case (Cons c s)
  then have c: "c \<noteq> CHR ''*''" "c \<noteq> CHR ''?''" and s: "plain s" by (simp_all add: plain_def)
  show ?case
  proof (cases "s @ q")
    case Nil
    with c show ?thesis by simp
  next
    case (Cons d r)
    with c Cons.IH [OF s] show ?thesis by simp
  qed
qed simp

lemma re_match_lits: "re_match (map (\<lambda>c. (Lit c, False)) s @ is) (s @ v) = re_match is v"
  by (induction s) simp_all

lemma glob_plain: "plain s \<Longrightarrow> glob_matches (s @ q) (s @ v) = re_match (map item_of (glob_pieces q)) v"
  by (simp add: glob_matches_items pieces_plain comp_def re_match_lits)

lemma re_match_dots: "re_match [(Dot, True)] v = one_line v"
  by (induction v) (auto simp: one_line_def)

lemma plain_append [simp]: "plain (s @ t) \<longleftrightarrow> plain s \<and> plain t"
  by (simp add: plain_def)

lemma run_rule_matches: "plain s \<Longrightarrow> glob_matches (s @ ''**'') (s @ v) = one_line v"
  by (simp add: glob_plain re_match_dots del: re_match.simps)

text \<open>Rules written \<^verbatim>\<open>Tool(key)\<close>, as the documents of the repository write them, match no call of the tool.\<close>

lemma parenthesised_rule_inert: "plain t \<Longrightarrow> \<not> glob_matches (t @ ''('' @ q) (t @ '':'' @ k)"
proof -
  assume "plain t"
  moreover have "glob_pieces (''('' @ q) = Only (CHR ''('') # glob_pieces q" by (cases q) simp_all
  ultimately show ?thesis by (simp add: glob_plain)
qed

section \<open>Rules of a chat user\<close>

record user_override =
  user_pattern :: string
  ov_allow :: "string list option"
  ov_deny :: "string list option"
  ov_mode :: "permission_mode option"

record channel_permissions =
  ch_mode :: permission_mode
  ch_allow :: "string list option"
  ch_deny :: "string list option"
  user_overrides :: "user_override list"

text \<open>The list of overrides sorted by descending length of the pattern; equal lengths keep their order.\<close>

definition find_override :: "string \<Rightarrow> user_override list \<Rightarrow> user_override option" where
  "find_override user ovs =
     find (\<lambda>ov. glob_matches (user_pattern ov) user) (sort_key (\<lambda>ov. - int (length (user_pattern ov))) ovs)"

definition resolve_for_channel :: "string option \<Rightarrow> channel_permissions option \<Rightarrow> permission_mode \<times> permission_rule list" where
  "resolve_for_channel user cfg =
     (case cfg of
        None \<Rightarrow> (Default, [])
      | Some c \<Rightarrow>
          (let ov = (case user of None \<Rightarrow> None | Some u \<Rightarrow> find_override u (user_overrides c));
               m = (case Option.bind ov ov_mode of Some m \<Rightarrow> m | None \<Rightarrow> ch_mode c);
               base = (case ch_deny c of None \<Rightarrow> [] | Some ps \<Rightarrow> ps);
               extra = (case Option.bind ov ov_deny of None \<Rightarrow> [] | Some ps \<Rightarrow> ps);
               allows = (case Option.bind ov ov_allow of Some ps \<Rightarrow> ps
                         | None \<Rightarrow> (case ch_allow c of Some ps \<Rightarrow> ps | None \<Rightarrow> []))
           in (m, map (\<lambda>q. \<lparr>pattern = q, decision = Deny\<rparr>) (uniq (base @ extra)) @
                  map (\<lambda>q. \<lparr>pattern = q, decision = Allow\<rparr>) allows)))"

record enroll_entry =
  en_pattern :: string
  en_agent_user :: string
  en_channel :: "string option"

text \<open>\<^verbatim>\<open>createAllowListEnroller\<close>: the agent user of the first entry that matches channel and user.\<close>

fun match_allow_list :: "string \<Rightarrow> string \<Rightarrow> enroll_entry list \<Rightarrow> string option" where
  "match_allow_list channel user [] = None"
| "match_allow_list channel user (e # es) =
     (if en_channel e \<noteq> None \<and> en_channel e \<noteq> Some channel then match_allow_list channel user es
      else if \<not> glob_matches (en_pattern e) user then match_allow_list channel user es
      else Some (en_agent_user e))"

section \<open>Properties\<close>

text \<open>C17. What the gate answers for a call whose key is one line, with patterns read the way their documentation explains
  them: a deny rule wins in every mode, plan mode denies every tool that writes, an allow rule or bypass mode allows, and
  everything else is put to the user.\<close>

theorem gate_decides:
  assumes "one_line (tool @ '':'' @ key)"
  shows "outcome (check g tool key ro) =
     (if rule_means (gate_rules g) Deny (tool @ '':'' @ key) \<or> gate_mode g = Plan \<and> \<not> ro then Denied
      else if gate_mode g = Bypass \<or> rule_means (gate_rules g) Allow (tool @ '':'' @ key) then Allowed
      else Prompted)"
  by (simp only: check_outcome rule_hits_means [OF assms])

theorem gate_decides_witness:
  "outcome (check (create_permission_gate Bypass [\<lparr>pattern = ''Bash:rm **'', decision = Deny\<rparr>] None) ''Bash'' ''rm -rf /'' False)
     = Denied"
proof -
  have "one_line (''Bash'' @ '':'' @ ''rm -rf /'')" by (simp add: one_line_def line_break_def)
  from gate_decides [OF this, of "create_permission_gate Bypass [\<lparr>pattern = ''Bash:rm **'', decision = Deny\<rparr>] None" False]
  show ?thesis
    using run_rule_matches [of "''Bash:rm ''" "''-rf /''"] rule_hits_means [OF \<open>one_line _\<close>, of "[\<lparr>pattern = ''Bash:rm **'', decision = Deny\<rparr>]" Deny]
    by (simp add: create_permission_gate_def rule_hits_def plain_def one_line_def line_break_def)
qed

text \<open>C18. The gate of a sub-agent never permits more than its parent: when the allow rules handed down are among those of the
  parent, every answer of the child is at most as permissive, where denying is below asking and asking below allowing.\<close>

theorem scope_only_narrows:
  assumes "set (filter (\<lambda>r. decision r = Allow) ss) \<subseteq> set (gate_rules g)"
  shows "rank (outcome (check (scope g ss) tool key ro)) \<le> rank (outcome (check g tool key ro))"
proof -
  have "rule_hits (gate_rules g) Allow v" if "rule_hits ss Allow v" for v
    using rule_hits_mono [OF assms] that by (simp add: rule_hits_filter)
  then show ?thesis by (auto simp: check_outcome scope_denies scope_allows scope_rules(2))
qed

theorem scope_only_narrows_witness:
  "rank (outcome (check (scope (create_permission_gate Auto [\<lparr>pattern = ''Read:**'', decision = Allow\<rparr>] None) [])
      ''Read'' ''/a'' True)) \<le> rank (outcome (check (create_permission_gate Auto [\<lparr>pattern = ''Read:**'', decision = Allow\<rparr>] None)
      ''Read'' ''/a'' True))"
  by (rule scope_only_narrows) simp

text \<open>A rule that denies every call of a tool denies exactly the calls whose key is one line: in bypass mode, a call with a
  line break anywhere in its key is allowed, although the pattern is documented to match any run of characters.\<close>

lemma line_break_evades_deny:
  assumes "plain tool"
  shows "outcome (check (create_permission_gate Bypass [\<lparr>pattern = tool @ '':**'', decision = Deny\<rparr>] n) tool key ro)
     = (if one_line key then Denied else Allowed)"
  using run_rule_matches [of "tool @ '':''" key] assms
  by (simp add: check_outcome create_permission_gate_def rule_hits_def plain_def)

end
