(* ===== verification/Quota.thy ===== *)
theory Quota imports Prelude begin

text \<open>
  The quota tracker of a tenant, \<^verbatim>\<open>core/src/tenancy/quota.ts\<close>: two gauges (active sessions, concurrent tool calls), a
  counter of inbound events per wall-clock second, and the spend of a UTC day. A breach throws \<open>Quota_exceeded\<close> and sends a
  \<^verbatim>\<open>quota_exceeded\<close> record to the audit sink; \<open>q_breaches\<close> lists the records sent.

  Shown: no counter ever passes its limit or zero; events accepted in one second; and that an amount that breaches the daily
  cap is not counted, so the cap does not close.
\<close>

datatype quota_key = Max_active_sessions | Max_concurrent_tool_calls | Max_event_ingress | Daily_token_usd

record tenant_quotas =
  max_active_sessions :: "rat option"
  max_concurrent_tool_calls :: "rat option"
  max_event_ingress_per_sec :: "rat option"
  daily_token_usd :: "rat option"

datatype quota_error = Quota_exceeded (err_tenant: string) (err_quota: quota_key) (err_limit: rat) (err_observed: rat)

record breach =
  br_ts :: int
  br_tenant :: string
  br_quota :: quota_key
  br_limit :: rat
  br_observed :: rat

record tracker =
  q_tenant :: string
  q_quotas :: tenant_quotas
  active_sessions :: nat
  tool_calls :: nat
  ingress_second :: int
  ingress_count :: nat
  spend_day :: int
  spend_total :: rat
  q_breaches :: "breach list"

definition start_of_utc_day :: "int \<Rightarrow> int" where
  "start_of_utc_day ms = ms - ms mod 86400000"

definition create_quota_tracker :: "string \<Rightarrow> tenant_quotas \<Rightarrow> int \<Rightarrow> tracker" where
  "create_quota_tracker t qs now =
     \<lparr>q_tenant = t, q_quotas = qs, active_sessions = 0, tool_calls = 0, ingress_second = now div 1000, ingress_count = 0,
      spend_day = start_of_utc_day now, spend_total = 0, q_breaches = []\<rparr>"

definition emit_breach :: "int \<Rightarrow> quota_key \<Rightarrow> rat \<Rightarrow> rat \<Rightarrow> tracker \<Rightarrow> tracker" where
  "emit_breach now k cap obs q =
     q\<lparr>q_breaches := q_breaches q @
         [\<lparr>br_ts = now, br_tenant = q_tenant q, br_quota = k, br_limit = cap, br_observed = obs\<rparr>]\<rparr>"

text \<open>\<^verbatim>\<open>tripIfExceeded\<close>: what it throws, and the tracker with the record it sent.\<close>

definition trip_if_exceeded :: "int \<Rightarrow> quota_key \<Rightarrow> rat option \<Rightarrow> rat \<Rightarrow> tracker \<Rightarrow> quota_error option \<times> tracker" where
  "trip_if_exceeded now k cap obs q =
     (case cap of
        None \<Rightarrow> (None, q)
      | Some l \<Rightarrow> if l < obs then (Some (Quota_exceeded (q_tenant q) k l obs), emit_breach now k l obs q) else (None, q))"

definition acquire_session :: "int \<Rightarrow> tracker \<Rightarrow> quota_error option \<times> tracker" where
  "acquire_session now q =
     (let n = active_sessions q + 1
      in case trip_if_exceeded now Max_active_sessions (max_active_sessions (q_quotas q)) (of_nat n) q of
           (Some e, q') \<Rightarrow> (Some e, q')
         | (None, q') \<Rightarrow> (None, q'\<lparr>active_sessions := n\<rparr>))"

definition release_session :: "tracker \<Rightarrow> tracker" where
  "release_session q = (if 0 < active_sessions q then q\<lparr>active_sessions := active_sessions q - 1\<rparr> else q)"

definition acquire_tool_call :: "int \<Rightarrow> tracker \<Rightarrow> quota_error option \<times> tracker" where
  "acquire_tool_call now q =
     (let n = tool_calls q + 1
      in case trip_if_exceeded now Max_concurrent_tool_calls (max_concurrent_tool_calls (q_quotas q)) (of_nat n) q of
           (Some e, q') \<Rightarrow> (Some e, q')
         | (None, q') \<Rightarrow> (None, q'\<lparr>tool_calls := n\<rparr>))"

definition release_tool_call :: "tracker \<Rightarrow> tracker" where
  "release_tool_call q = (if 0 < tool_calls q then q\<lparr>tool_calls := tool_calls q - 1\<rparr> else q)"

definition track_ingress :: "int \<Rightarrow> tracker \<Rightarrow> quota_error option \<times> tracker" where
  "track_ingress now q =
     (let sec = now div 1000;
          q1 = (if sec \<noteq> ingress_second q then q\<lparr>ingress_second := sec, ingress_count := 0\<rparr> else q);
          n = ingress_count q1 + 1
      in case trip_if_exceeded now Max_event_ingress (max_event_ingress_per_sec (q_quotas q1)) (of_nat n) q1 of
           (Some e, q') \<Rightarrow> (Some e, q')
         | (None, q') \<Rightarrow> (None, q'\<lparr>ingress_count := n\<rparr>))"

definition add_token_spend :: "int \<Rightarrow> rat \<Rightarrow> tracker \<Rightarrow> quota_error option \<times> tracker" where
  "add_token_spend now amount q =
     (if amount \<le> 0 then (None, q)
      else
        (let day = start_of_utc_day now;
             q1 = (if day \<noteq> spend_day q then q\<lparr>spend_day := day, spend_total := 0\<rparr> else q);
             n = spend_total q1 + amount
         in case trip_if_exceeded now Daily_token_usd (daily_token_usd (q_quotas q1)) n q1 of
              (Some e, q') \<Rightarrow> (Some e, q')
            | (None, q') \<Rightarrow> (None, q'\<lparr>spend_total := n\<rparr>)))"

record quota_snapshot =
  sn_sessions :: nat
  sn_tool_calls :: nat
  sn_ingress :: nat
  sn_usd :: rat

definition snapshot :: "tracker \<Rightarrow> quota_snapshot" where
  "snapshot q = \<lparr>sn_sessions = active_sessions q, sn_tool_calls = tool_calls q, sn_ingress = ingress_count q,
     sn_usd = spend_total q\<rparr>"

section \<open>Uses of a tracker\<close>

datatype quota_call =
    Acquire_session | Release_session | Acquire_tool_call | Release_tool_call | Track_ingress | Add_spend rat

fun call_quota :: "tracker \<Rightarrow> int \<times> quota_call \<Rightarrow> quota_error option \<times> tracker" where
  "call_quota q (now, Acquire_session) = acquire_session now q"
| "call_quota q (now, Release_session) = (None, release_session q)"
| "call_quota q (now, Acquire_tool_call) = acquire_tool_call now q"
| "call_quota q (now, Release_tool_call) = (None, release_tool_call q)"
| "call_quota q (now, Track_ingress) = track_ingress now q"
| "call_quota q (now, Add_spend a) = add_token_spend now a q"

definition quota_step :: "tracker \<Rightarrow> int \<times> quota_call \<Rightarrow> tracker" where
  "quota_step q c = snd (call_quota q c)"

definition within_cap :: "rat \<Rightarrow> rat option \<Rightarrow> bool" where
  "within_cap x cap \<longleftrightarrow> x = 0 \<or> (case cap of None \<Rightarrow> True | Some l \<Rightarrow> x \<le> l)"

definition quota_ok :: "tracker \<Rightarrow> bool" where
  "quota_ok q \<longleftrightarrow>
     within_cap (of_nat (active_sessions q)) (max_active_sessions (q_quotas q)) \<and>
     within_cap (of_nat (tool_calls q)) (max_concurrent_tool_calls (q_quotas q)) \<and>
     within_cap (of_nat (ingress_count q)) (max_event_ingress_per_sec (q_quotas q)) \<and>
     within_cap (spend_total q) (daily_token_usd (q_quotas q)) \<and> 0 \<le> spend_total q"

lemma within_cap_0 [simp]: "within_cap 0 cap"
  by (simp add: within_cap_def)

lemma within_cap_less: "within_cap (of_nat n) cap \<Longrightarrow> within_cap (of_nat (n - 1)) cap"
  by (auto simp: within_cap_def split: option.splits)

lemma trip_passes:
  "trip_if_exceeded now k cap obs q = (None, q') \<longleftrightarrow> q' = q \<and> (\<forall>l. cap = Some l \<longrightarrow> obs \<le> l)"
  by (auto simp: trip_if_exceeded_def split: option.splits)

lemma trip_throws:
  "trip_if_exceeded now k cap obs q = (Some e, q') \<longleftrightarrow>
     (\<exists>l. cap = Some l \<and> l < obs \<and> e = Quota_exceeded (q_tenant q) k l obs \<and> q' = emit_breach now k l obs q)"
  by (auto simp: trip_if_exceeded_def split: option.splits)

lemma quota_ok_breach [simp]: "quota_ok (emit_breach now k l obs q) = quota_ok q"
  by (simp add: quota_ok_def emit_breach_def)

lemma within_cap_passed: "(\<forall>l. cap = Some l \<longrightarrow> x \<le> l) \<Longrightarrow> within_cap x cap"
  by (simp add: within_cap_def split: option.splits)

lemma quota_step_ok: "quota_ok q \<Longrightarrow> quota_ok (quota_step q c)"
proof -
  assume ok: "quota_ok q"
  obtain now op where c: "c = (now, op)" by (cases c)
  show ?thesis
  proof (cases op)
    case Acquire_session
    with ok show ?thesis
      by (auto simp: quota_step_def c acquire_session_def Let_def trip_passes trip_throws within_cap_passed
          quota_ok_def [of "_\<lparr>active_sessions := _\<rparr>"] split: prod.splits option.splits)
        (auto simp: quota_ok_def)
  next
    case Acquire_tool_call
    with ok show ?thesis
      by (auto simp: quota_step_def c acquire_tool_call_def Let_def trip_passes trip_throws within_cap_passed
          quota_ok_def [of "_\<lparr>tool_calls := _\<rparr>"] split: prod.splits option.splits)
        (auto simp: quota_ok_def)
  next
    case Release_session
    with ok show ?thesis
      using within_cap_less [of "active_sessions q"]
      by (auto simp: quota_step_def c release_session_def quota_ok_def simp del: of_nat_diff)
  next
    case Release_tool_call
    with ok show ?thesis
      using within_cap_less [of "tool_calls q"]
      by (auto simp: quota_step_def c release_tool_call_def quota_ok_def simp del: of_nat_diff)
  next
    case Track_ingress
    with ok show ?thesis
      by (auto simp: quota_step_def c track_ingress_def Let_def trip_passes trip_throws within_cap_passed
          quota_ok_def [of "_\<lparr>ingress_count := _\<rparr>"] split: prod.splits option.splits if_splits)
        (auto simp: quota_ok_def)
  next
    case (Add_spend a)
    with ok show ?thesis
      by (auto simp: quota_step_def c add_token_spend_def Let_def trip_passes trip_throws within_cap_passed
          quota_ok_def [of "_\<lparr>spend_total := _\<rparr>"] split: prod.splits option.splits if_splits)
        (auto simp: quota_ok_def)
  qed
qed

interpretation quota: step_invariant quota_step quota_ok
  by unfold_locales (rule quota_step_ok)

section \<open>Events of one second\<close>

fun accepted_ingress :: "tracker \<Rightarrow> int list \<Rightarrow> int list" where
  "accepted_ingress q [] = []"
| "accepted_ingress q (t # ts) =
     (case track_ingress t q of
        (None, q') \<Rightarrow> t # accepted_ingress q' ts
      | (Some e, q') \<Rightarrow> accepted_ingress q' ts)"

definition in_second :: "int \<Rightarrow> int list \<Rightarrow> nat" where
  "in_second s ts = length (filter (\<lambda>t. t div 1000 = s) ts)"

definition used_of :: "int \<Rightarrow> tracker \<Rightarrow> rat" where
  "used_of s q = (if s = ingress_second q then of_nat (ingress_count q) else 0)"

lemma track_ingress_cases:
  assumes "track_ingress t q = (r, q')" "max_event_ingress_per_sec (q_quotas q) = Some l" "ingress_second q \<le> t div 1000"
    "of_nat (ingress_count q) \<le> max 0 l"
  shows "ingress_second q' = t div 1000" "q_quotas q' = q_quotas q" "of_nat (ingress_count q') \<le> max 0 l"
    "r = None \<Longrightarrow> of_nat (ingress_count q') = used_of (t div 1000) q + 1"
    "r \<noteq> None \<Longrightarrow> of_nat (ingress_count q') = used_of (t div 1000) q"
  using assms
  by (auto simp: track_ingress_def Let_def trip_if_exceeded_def emit_breach_def used_of_def
      split: if_splits)

lemma accepted_bound:
  assumes "sorted (ingress_second q # map (\<lambda>t. t div 1000) ts)" "max_event_ingress_per_sec (q_quotas q) = Some l"
    "of_nat (ingress_count q) \<le> max 0 l"
  shows "of_nat (in_second s (accepted_ingress q ts)) + used_of s q \<le> max 0 l"
  using assms
proof (induction ts arbitrary: q)
  case Nil
  then show ?case by (simp add: in_second_def used_of_def)
next
  case (Cons t ts)
  obtain r q' where step: "track_ingress t q = (r, q')" by fastforce
  have le: "ingress_second q \<le> t div 1000" using Cons.prems(1) by simp
  note c = track_ingress_cases [OF step Cons.prems(2) le Cons.prems(3)]
  have rest: "of_nat (in_second s (accepted_ingress q' ts)) + used_of s q' \<le> max 0 l"
    by (rule Cons.IH) (use Cons.prems c in simp_all)
  have past: "in_second s (accepted_ingress q' ts) = 0" if "s < t div 1000" for q'
  proof -
    have "set (accepted_ingress q' us) \<subseteq> set us" for us
    proof (induction us arbitrary: q')
      case (Cons u us)
      then show ?case by (auto split: prod.splits option.splits)
    qed simp
    then show ?thesis
      using that Cons.prems(1) unfolding in_second_def by (fastforce simp: filter_empty_conv)
  qed
  show ?case
  proof (cases r)
    case None
    have "in_second s (accepted_ingress q (t # ts)) = (if t div 1000 = s then 1 else 0) + in_second s (accepted_ingress q' ts)"
      using step None by (simp add: in_second_def)
    moreover have "used_of s q' = (if t div 1000 = s then used_of s q + 1 else 0)"
      using c(1) c(4) [OF None] by (auto simp: used_of_def)
    ultimately show ?thesis
      using rest past [of q'] le Cons.prems(3) c(1)
      by (cases "t div 1000 = s"; cases "s = ingress_second q"; cases "s < t div 1000") (auto simp: used_of_def)
  next
    case (Some e)
    have "in_second s (accepted_ingress q (t # ts)) = in_second s (accepted_ingress q' ts)"
      using step Some by simp
    moreover have "used_of s q' = (if t div 1000 = s then used_of s q else 0)"
      using c(1) c(5) Some by (auto simp: used_of_def)
    ultimately show ?thesis
      using rest past [of q'] le Cons.prems(3) c(1)
      by (cases "t div 1000 = s"; cases "s = ingress_second q"; cases "s < t div 1000") (auto simp: used_of_def)
  qed
qed

section \<open>Spend that breaches the cap\<close>

lemma breaching_spend:
  assumes "daily_token_usd (q_quotas q) = Some l" "start_of_utc_day now = spend_day q" "0 < a" "l < spend_total q + a"
  shows "add_token_spend now a q =
     (Some (Quota_exceeded (q_tenant q) Daily_token_usd l (spend_total q + a)),
      emit_breach now Daily_token_usd l (spend_total q + a) q)"
  using assms by (simp add: add_token_spend_def Let_def trip_if_exceeded_def)

lemma emit_breach_keeps [simp]:
  "q_quotas (emit_breach now k l obs q) = q_quotas q" "spend_total (emit_breach now k l obs q) = spend_total q"
  "spend_day (emit_breach now k l obs q) = spend_day q" "snapshot (emit_breach now k l obs q) = snapshot q"
  "q_tenant (emit_breach now k l obs q) = q_tenant q" "tool_calls (emit_breach now k l obs q) = tool_calls q"
  by (simp_all add: emit_breach_def snapshot_def)

lemma breaching_spends:
  assumes "daily_token_usd (q_quotas q) = Some l" "start_of_utc_day now = spend_day q" "0 < a" "l < spend_total q + a"
  shows "let q' = run quota_step q (replicate n (now, Add_spend a))
         in q_quotas q' = q_quotas q \<and> spend_total q' = spend_total q \<and> spend_day q' = spend_day q \<and> snapshot q' = snapshot q"
  using assms
proof (induction n arbitrary: q)
  case (Suc n)
  then show ?case
    using Suc.IH [of "emit_breach now Daily_token_usd l (spend_total q + a) q"]
    by (simp add: quota_step_def breaching_spend Let_def)
qed (simp add: Let_def)

section \<open>Properties\<close>


text \<open>With a clock that does not go back, the tracker accepts in any one second of the wall clock at most as many events as
  the limit says.\<close>

lemma ingress_per_second:
  assumes "sorted (now # ts)" "max_event_ingress_per_sec qs = Some l"
  shows "of_nat (in_second s (accepted_ingress (create_quota_tracker t qs now) ts)) \<le> max 0 l"
proof -
  let ?q = "create_quota_tracker t qs now"
  have "sorted (map (\<lambda>t. t div 1000) (now # ts))"
    using assms(1) by (simp add: sorted_map sorted_wrt_map monoD) (auto intro!: zdiv_mono1 elim: sorted_wrt_mono_rel [rotated])
  then have "of_nat (in_second s (accepted_ingress ?q ts)) + used_of s ?q \<le> max 0 l"
    by (intro accepted_bound) (simp_all add: create_quota_tracker_def assms(2))
  then show ?thesis by (simp add: used_of_def create_quota_tracker_def split: if_splits)
qed

text \<open>The daily spend cap does not close: calls whose cost passes the cap are charged by the provider but not added to the
  total, so after any number of them the tracker is where it was and still admits every call that fits under the cap.\<close>

lemma spend_cap_does_not_close:
  assumes "daily_token_usd (q_quotas q) = Some l" "start_of_utc_day now = spend_day q" "0 < a" "l < spend_total q + a"
  shows "let q' = run quota_step q (replicate n (now, Add_spend a))
         in snapshot q' = snapshot q \<and> fst (add_token_spend now a q') \<noteq> None \<and>
            (fst (add_token_spend now b q') = None \<longleftrightarrow> b \<le> 0 \<or> spend_total q + b \<le> l)"
proof -
  define q' where "q' = run quota_step q (replicate n (now, Add_spend a))"
  have q': "q_quotas q' = q_quotas q" "spend_total q' = spend_total q" "spend_day q' = spend_day q" "snapshot q' = snapshot q"
    using breaching_spends [OF assms, of n] by (simp_all add: q'_def Let_def)
  have "fst (add_token_spend now a q') \<noteq> None"
    using breaching_spend [of q' l now a] assms q' by simp
  moreover have "fst (add_token_spend now b q') = None \<longleftrightarrow> b \<le> 0 \<or> spend_total q + b \<le> l"
    using assms q' by (auto simp: add_token_spend_def Let_def trip_if_exceeded_def split: if_splits)
  ultimately show ?thesis using q' by (simp add: Let_def q'_def [symmetric])
qed

end
