(* ===== verification/SessionStore.thy ===== *)
theory SessionStore imports JsValue begin

text \<open>
  Messages and durable sessions: \<^verbatim>\<open>core/src/types/messages.ts\<close>, \<^verbatim>\<open>types/session.ts\<close>, \<^verbatim>\<open>session/pricing.ts\<close> and
  \<^verbatim>\<open>session/sqlite.ts\<close>. The database is four lists of rows with the primary and foreign keys of the schema enforced; a
  handle is the value \<^verbatim>\<open>buildHandle\<close> closes over: the messages read when the session was opened, the specification, the
  ledger and the turns already counted. Everything stored goes through JSON.

  Shown: reopening a session gives back its transcript and its ledger; no tenant reaches the sessions of another; and a handle
  that was opened before another handle appended can never append again.
\<close>

section \<open>Messages\<close>

datatype role = User | Assistant | System | Tool_role

datatype stop_reason = End_turn | Stop_tool_use | Max_tokens | Stop_sequence | Stop_error

datatype message_content =
    Text (text_of: string)
  | Tool_use (use_id: string) (use_name: string) (use_input: js)
  | Tool_result (result_for: string) (result_text: string) (is_error: bool)

record token_usage =
  input_tokens :: int
  output_tokens :: int
  cache_read_tokens :: "int option"

record message_meta =
  meta_model :: "string option"
  meta_stop :: "stop_reason option"
  meta_usage :: "token_usage option"

record message =
  msg_role :: role
  msg_content :: "message_content list"
  msg_meta :: "message_meta option"

text \<open>\<^verbatim>\<open>JSON.parse(JSON.stringify(m.content))\<close>: only the input of a tool call can change.\<close>

fun stored_content :: "message_content \<Rightarrow> message_content" where
  "stored_content (Tool_use i n v) = Tool_use i n (case json_image v of None \<Rightarrow> JUndef | Some w \<Rightarrow> w)"
| "stored_content c = c"

definition stored_message :: "message \<Rightarrow> message" where
  "stored_message m = m\<lparr>msg_content := map stored_content (msg_content m)\<rparr>"

section \<open>Prices\<close>

record model_price =
  price_input :: rat
  price_output :: rat
  price_cache_read :: "rat option"

definition opus_price :: model_price where
  "opus_price = \<lparr>price_input = 15, price_output = 75, price_cache_read = Some (3 / 2)\<rparr>"

definition sonnet_price :: model_price where
  "sonnet_price = \<lparr>price_input = 3, price_output = 15, price_cache_read = Some (3 / 10)\<rparr>"

definition haiku_price :: model_price where
  "haiku_price = \<lparr>price_input = 4 / 5, price_output = 4, price_cache_read = Some (2 / 25)\<rparr>"

definition price_table :: "(string \<times> model_price) list" where
  "price_table =
     [(''claude-opus-4-8'', opus_price), (''claude-opus-4-6'', opus_price),
      (''claude-sonnet-4-6'', sonnet_price), (''claude-sonnet-4-5'', sonnet_price),
      (''claude-haiku-4-5-20251001'', haiku_price), (''claude-haiku-4-5'', haiku_price)]"

text \<open>The cost of a call, and whether \<^verbatim>\<open>onUnknownModel\<close> is told about the model.\<close>

definition estimate_cost :: "string option \<Rightarrow> token_usage \<Rightarrow> rat \<times> bool" where
  "estimate_cost model u =
     (case model of
        None \<Rightarrow> (0, False)
      | Some m \<Rightarrow>
          if m = [] then (0, False)
          else case jm_get m price_table of
              None \<Rightarrow> (0, True)
            | Some p \<Rightarrow>
                (of_int (input_tokens u) / 1000000 * price_input p
                 + of_int (output_tokens u) / 1000000 * price_output p
                 + (case cache_read_tokens u of
                      None \<Rightarrow> 0
                    | Some n \<Rightarrow> if n \<noteq> 0 then (case price_cache_read p of
                                    Some c \<Rightarrow> of_int n / 1000000 * c
                                  | None \<Rightarrow> 0) else 0), False))"

section \<open>Rows and handles\<close>

record agent_spec =
  spec_name :: string
  spec_model :: string
  system_prompt :: string
  temperature :: "rat option"
  max_tokens :: "int option"
  subagent_depth_cap :: "int option"
  spec_max_iterations :: "int option"

record session_row =
  sr_id :: string
  sr_tenant :: string
  sr_spec :: agent_spec
  sr_created :: int
  sr_updated :: int

record message_row =
  mr_session :: string
  mr_seq :: nat
  mr_message :: message
  mr_created :: int

datatype turn_status = Turn_ok | Turn_error | Turn_aborted

record turn_row =
  tr_session :: string
  tr_turn :: string
  tr_status :: turn_status
  tr_ended :: int

record key_row =
  kr_tenant :: string
  kr_key :: string
  kr_session :: string
  kr_created :: int

record session_db =
  sessions :: "session_row list"
  messages :: "message_row list"
  turn_rows :: "turn_row list"
  session_keys :: "key_row list"

definition empty_db :: session_db where
  "empty_db = \<lparr>sessions = [], messages = [], turn_rows = [], session_keys = []\<rparr>"

record ledger =
  led_input :: int
  led_output :: int
  led_cache_read :: int
  led_turns :: nat
  led_cost :: rat

record handle =
  h_id :: string
  h_spec :: agent_spec
  h_messages :: "message list"
  h_ledger :: ledger
  h_ok_turns :: "string list"

datatype session_error =
    Constraint string
  | Tenant_boundary (src_tenant: string) (tgt_tenant: string) (resource: string)

definition empty_ledger :: ledger where
  "empty_ledger = \<lparr>led_input = 0, led_output = 0, led_cache_read = 0, led_turns = 0, led_cost = 0\<rparr>"

text \<open>What one message adds to a ledger.\<close>

definition add_usage :: "message \<Rightarrow> ledger \<Rightarrow> ledger" where
  "add_usage m l =
     (case Option.bind (msg_meta m) meta_usage of
        None \<Rightarrow> l
      | Some u \<Rightarrow> l\<lparr>led_input := led_input l + input_tokens u, led_output := led_output l + output_tokens u,
                   led_cache_read := led_cache_read l + (case cache_read_tokens u of None \<Rightarrow> 0 | Some n \<Rightarrow> n),
                   led_cost := led_cost l + fst (estimate_cost (Option.bind (msg_meta m) meta_model) u)\<rparr>)"

definition derive_ledger :: "message list \<Rightarrow> ledger" where
  "derive_ledger ms = fold add_usage ms empty_ledger"

definition build_handle :: "string \<Rightarrow> agent_spec \<Rightarrow> message list \<Rightarrow> handle" where
  "build_handle i sp ms = \<lparr>h_id = i, h_spec = sp, h_messages = ms, h_ledger = derive_ledger ms, h_ok_turns = []\<rparr>"

section \<open>Operations of a handle\<close>

definition has_session :: "string \<Rightarrow> session_db \<Rightarrow> bool" where
  "has_session i db = list_ex (\<lambda>r. sr_id r = i) (sessions db)"

definition touch :: "int \<Rightarrow> string \<Rightarrow> session_row list \<Rightarrow> session_row list" where
  "touch now i rs = map (\<lambda>r. if sr_id r = i then r\<lparr>sr_updated := now\<rparr> else r) rs"

text \<open>\<^verbatim>\<open>appendMessage\<close>: the transaction inserts the row under the position the handle believes to be the next, and fails on a
  duplicate key or a missing session; the handle changes only after it.\<close>

definition append_message :: "int \<Rightarrow> message \<Rightarrow> handle \<Rightarrow> session_db \<Rightarrow> session_error + (handle \<times> session_db)" where
  "append_message now m h db =
     (let pos = length (h_messages h)
      in if \<not> has_session (h_id h) db then Inl (Constraint ''FOREIGN KEY'')
         else if list_ex (\<lambda>r. mr_session r = h_id h \<and> mr_seq r = pos) (messages db) then Inl (Constraint ''UNIQUE'')
         else Inr (h\<lparr>h_messages := h_messages h @ [m], h_ledger := add_usage m (h_ledger h)\<rparr>,
                   db\<lparr>messages := messages db @ [\<lparr>mr_session = h_id h, mr_seq = pos, mr_message = stored_message m,
                                                mr_created = now\<rparr>],
                      sessions := touch now (h_id h) (sessions db)\<rparr>))"

definition mark_turn :: "int \<Rightarrow> string \<Rightarrow> turn_status \<Rightarrow> handle \<Rightarrow> session_db \<Rightarrow> session_error + (handle \<times> session_db)" where
  "mark_turn now t st h db =
     (if \<not> has_session (h_id h) db then Inl (Constraint ''FOREIGN KEY'')
      else
        (let mine = (\<lambda>r. tr_session r = h_id h \<and> tr_turn r = t);
             rows = (if list_ex mine (turn_rows db)
                     then map (\<lambda>r. if mine r then r\<lparr>tr_status := st, tr_ended := now\<rparr> else r) (turn_rows db)
                     else turn_rows db @ [\<lparr>tr_session = h_id h, tr_turn = t, tr_status = st, tr_ended = now\<rparr>]);
             counts = (st = Turn_ok \<and> t \<notin> set (h_ok_turns h))
         in Inr (if counts then h\<lparr>h_ok_turns := h_ok_turns h @ [t],
                                   h_ledger := (h_ledger h)\<lparr>led_turns := led_turns (h_ledger h) + 1\<rparr>\<rparr> else h,
                 db\<lparr>turn_rows := rows\<rparr>)))"

text \<open>\<^verbatim>\<open>updateSpec\<close>, the patch given as a function on specifications. An update of a missing row changes nothing.\<close>

definition update_spec :: "int \<Rightarrow> (agent_spec \<Rightarrow> agent_spec) \<Rightarrow> handle \<Rightarrow> session_db \<Rightarrow> handle \<times> session_db" where
  "update_spec now patch h db =
     (h\<lparr>h_spec := patch (h_spec h)\<rparr>,
      db\<lparr>sessions := map (\<lambda>r. if sr_id r = h_id h then r\<lparr>sr_spec := patch (h_spec h), sr_updated := now\<rparr> else r)
                        (sessions db)\<rparr>)"

section \<open>Operations of the store\<close>

definition tenant_of :: "string option \<Rightarrow> string" where
  "tenant_of scp = (case scp of None \<Rightarrow> ''__default__'' | Some t \<Rightarrow> t)"

definition find_session :: "string \<Rightarrow> session_db \<Rightarrow> session_row option" where
  "find_session i db = find (\<lambda>r. sr_id r = i) (sessions db)"

definition messages_of :: "string \<Rightarrow> session_db \<Rightarrow> message list" where
  "messages_of i db = map mr_message (sort_key mr_seq (filter (\<lambda>r. mr_session r = i) (messages db)))"

definition create_session_row :: "int \<Rightarrow> string \<Rightarrow> string \<Rightarrow> agent_spec \<Rightarrow> session_row" where
  "create_session_row now i t sp = \<lparr>sr_id = i, sr_tenant = t, sr_spec = sp, sr_created = now, sr_updated = now\<rparr>"

definition store_create :: "int \<Rightarrow> agent_spec \<Rightarrow> string \<Rightarrow> string option \<Rightarrow> session_db \<Rightarrow> session_error + (handle \<times> session_db)" where
  "store_create now sp i scp db =
     (if has_session i db then Inl (Constraint ''UNIQUE'')
      else Inr (build_handle i sp [], db\<lparr>sessions := sessions db @ [create_session_row now i (tenant_of scp) sp]\<rparr>))"

definition open_within_tenant :: "string \<Rightarrow> string \<Rightarrow> session_db \<Rightarrow> session_error + handle option" where
  "open_within_tenant i t db =
     (case find_session i db of
        None \<Rightarrow> Inr None
      | Some r \<Rightarrow> if sr_tenant r \<noteq> t then Inl (Tenant_boundary t (sr_tenant r) i)
                  else Inr (Some (build_handle i (sr_spec r) (messages_of i db))))"

definition store_open :: "string \<Rightarrow> string option \<Rightarrow> session_db \<Rightarrow> session_error + handle option" where
  "store_open i scp db = open_within_tenant i (tenant_of scp) db"

definition find_key :: "string \<Rightarrow> string \<Rightarrow> session_db \<Rightarrow> key_row option" where
  "find_key t k db = find (\<lambda>r. kr_tenant r = t \<and> kr_key r = k) (session_keys db)"

definition resolve_by_key :: "string \<Rightarrow> string option \<Rightarrow> session_db \<Rightarrow> session_error + handle option" where
  "resolve_by_key k scp db =
     (case find_key (tenant_of scp) k db of
        None \<Rightarrow> Inr None
      | Some r \<Rightarrow> open_within_tenant (kr_session r) (tenant_of scp) db)"

definition create_for_key ::
    "int \<Rightarrow> string \<Rightarrow> string \<Rightarrow> agent_spec \<Rightarrow> string option \<Rightarrow> session_db \<Rightarrow> session_error + (handle \<times> session_db)" where
  "create_for_key now i k sp scp db =
     (if has_session i db \<or> find_key (tenant_of scp) k db \<noteq> None then Inl (Constraint ''UNIQUE'')
      else Inr (build_handle i sp [],
                db\<lparr>sessions := sessions db @ [create_session_row now i (tenant_of scp) sp],
                   session_keys := session_keys db @
                     [\<lparr>kr_tenant = tenant_of scp, kr_key = k, kr_session = i, kr_created = now\<rparr>]\<rparr>))"

record session_metadata =
  md_id :: string
  md_tenant :: string
  md_spec_name :: string
  md_created :: int
  md_updated :: int
  md_count :: nat

definition list_sessions :: "string option \<Rightarrow> session_db \<Rightarrow> session_metadata list" where
  "list_sessions scp db =
     map (\<lambda>r. \<lparr>md_id = sr_id r, md_tenant = sr_tenant r, md_spec_name = spec_name (sr_spec r), md_created = sr_created r,
               md_updated = sr_updated r, md_count = length (filter (\<lambda>m. mr_session m = sr_id r) (messages db))\<rparr>)
       (sort_key (\<lambda>r. - sr_updated r) (filter (\<lambda>r. sr_tenant r = tenant_of scp) (sessions db)))"

definition store_delete :: "string \<Rightarrow> string option \<Rightarrow> session_db \<Rightarrow> session_error + (bool \<times> session_db)" where
  "store_delete i scp db =
     (case find_session i db of
        None \<Rightarrow> Inr (False, db)
      | Some r \<Rightarrow>
          if sr_tenant r \<noteq> tenant_of scp then Inl (Tenant_boundary (tenant_of scp) (sr_tenant r) i)
          else Inr (True, \<lparr>sessions = filter (\<lambda>r. sr_id r \<noteq> i) (sessions db),
                          messages = filter (\<lambda>m. mr_session m \<noteq> i) (messages db),
                          turn_rows = filter (\<lambda>m. tr_session m \<noteq> i) (turn_rows db),
                          session_keys = filter (\<lambda>m. kr_session m \<noteq> i) (session_keys db)\<rparr>))"

section \<open>One handle and its rows\<close>

definition rows_of :: "string \<Rightarrow> session_db \<Rightarrow> message_row list" where
  "rows_of i db = filter (\<lambda>r. mr_session r = i) (messages db)"

text \<open>The rows of the session are exactly the messages of the handle, in order.\<close>

definition synced :: "string \<Rightarrow> handle \<Rightarrow> session_db \<Rightarrow> bool" where
  "synced t h db \<longleftrightarrow>
     map mr_seq (rows_of (h_id h) db) = [0..<length (h_messages h)] \<and>
     map mr_message (rows_of (h_id h) db) = map stored_message (h_messages h) \<and>
     (\<exists>r. find_session (h_id h) db = Some r \<and> sr_tenant r = t \<and> sr_spec r = h_spec h)"

datatype handle_op =
    Append int message
  | Mark int string turn_status
  | Respec int "agent_spec \<Rightarrow> agent_spec"

fun handle_step :: "handle \<times> session_db \<Rightarrow> handle_op \<Rightarrow> session_error + (handle \<times> session_db)" where
  "handle_step (h, db) (Append now m) = append_message now m h db"
| "handle_step (h, db) (Mark now t st) = mark_turn now t st h db"
| "handle_step (h, db) (Respec now f) = Inr (update_spec now f h db)"

fun handle_ops :: "handle_op list \<Rightarrow> handle \<times> session_db \<Rightarrow> session_error + (handle \<times> session_db)" where
  "handle_ops [] s = Inr s"
| "handle_ops (op # ops) s = bind_err (handle_step s op) (handle_ops ops)"

fun appended :: "handle_op list \<Rightarrow> message list" where
  "appended [] = []"
| "appended (Append now m # ops) = m # appended ops"
| "appended (_ # ops) = appended ops"

lemma find_session_has: "find_session i db = Some r \<Longrightarrow> has_session i db"
  by (auto simp: find_session_def has_session_def find_Some_iff list_ex_iff)

lemma find_map_id:
  "(\<And>r. sr_id (f r) = sr_id r) \<Longrightarrow> find (\<lambda>r. sr_id r = i) (map f rs) = map_option f (find (\<lambda>r. sr_id r = i) rs)"
  by (induction rs) auto

lemma find_touch:
  "find (\<lambda>r. sr_id r = i) (touch now j rs) =
     map_option (\<lambda>r. if sr_id r = j then r\<lparr>sr_updated := now\<rparr> else r) (find (\<lambda>r. sr_id r = i) rs)"
  unfolding touch_def by (rule find_map_id) simp

lemma synced_step:
  assumes "synced t h db"
  shows "\<exists>h' db'. handle_step (h, db) op = Inr (h', db') \<and> synced t h' db' \<and> h_id h' = h_id h \<and>
           h_messages h' = h_messages h @ appended [op] \<and>
           h_ledger h'\<lparr>led_turns := 0\<rparr> = (fold add_usage (appended [op]) (h_ledger h))\<lparr>led_turns := 0\<rparr>"
proof -
  obtain r where r: "find_session (h_id h) db = Some r" "sr_tenant r = t" "sr_spec r = h_spec h"
    using assms by (auto simp: synced_def)
  have has: "has_session (h_id h) db" using r(1) by (rule find_session_has)
  have seqs: "map mr_seq (rows_of (h_id h) db) = [0..<length (h_messages h)]"
    and msgs: "map mr_message (rows_of (h_id h) db) = map stored_message (h_messages h)"
    using assms by (simp_all add: synced_def)
  show ?thesis
  proof (cases op)
    case (Append now m)
    have "length (h_messages h) \<notin> set (map mr_seq (rows_of (h_id h) db))"
      by (simp only: seqs set_upt) simp
    then have free: "\<not> list_ex (\<lambda>q. mr_session q = h_id h \<and> mr_seq q = length (h_messages h)) (messages db)"
      by (force simp: rows_of_def list_ex_iff)
    show ?thesis
      using has free seqs msgs r
      by (simp add: Append append_message_def Let_def synced_def rows_of_def find_session_def find_touch)
  next
    case (Mark now u st)
    show ?thesis
      using has seqs msgs r
      by (auto simp: Mark mark_turn_def Let_def synced_def rows_of_def find_session_def)
  next
    case (Respec now f)
    let ?f = "\<lambda>r. if sr_id r = h_id h then r\<lparr>sr_spec := f (h_spec h), sr_updated := now\<rparr> else r"
    have id: "sr_id r = h_id h" using r(1) by (auto simp: find_session_def find_Some_iff)
    have "find (\<lambda>r. sr_id r = h_id h) (map ?f (sessions db)) = Some (?f r)"
      by (subst find_map_id) (use r(1) in \<open>simp_all add: find_session_def\<close>)
    then show ?thesis
      using seqs msgs r id by (simp add: Respec update_spec_def synced_def rows_of_def find_session_def)
  qed
qed

lemma add_usage_turns: "(add_usage m l)\<lparr>led_turns := n\<rparr> = add_usage m (l\<lparr>led_turns := n\<rparr>)"
  by (simp add: add_usage_def split: option.splits)

lemma fold_usage_turns: "(fold add_usage ms l)\<lparr>led_turns := n\<rparr> = fold add_usage ms (l\<lparr>led_turns := n\<rparr>)"
  by (induction ms arbitrary: l) (simp_all add: add_usage_turns)

lemma appended_Cons: "appended (op # ops) = appended [op] @ appended ops"
  by (cases op) simp_all

lemma synced_ops:
  assumes "synced t h db"
  shows "\<exists>h' db'. handle_ops ops (h, db) = Inr (h', db') \<and> synced t h' db' \<and> h_id h' = h_id h \<and>
           h_messages h' = h_messages h @ appended ops \<and>
           h_ledger h'\<lparr>led_turns := 0\<rparr> = (fold add_usage (appended ops) (h_ledger h))\<lparr>led_turns := 0\<rparr>"
  using assms
proof (induction ops arbitrary: h db)
  case Nil
  then show ?case by simp
next
  case (Cons op ops)
  obtain h1 db1 where 1: "handle_step (h, db) op = Inr (h1, db1)" "synced t h1 db1" "h_id h1 = h_id h"
      "h_messages h1 = h_messages h @ appended [op]"
      "h_ledger h1\<lparr>led_turns := 0\<rparr> = (fold add_usage (appended [op]) (h_ledger h))\<lparr>led_turns := 0\<rparr>"
    using synced_step [OF Cons.prems, of op] by blast
  obtain h2 db2 where 2: "handle_ops ops (h1, db1) = Inr (h2, db2)" "synced t h2 db2" "h_id h2 = h_id h1"
      "h_messages h2 = h_messages h1 @ appended ops"
      "h_ledger h2\<lparr>led_turns := 0\<rparr> = (fold add_usage (appended ops) (h_ledger h1))\<lparr>led_turns := 0\<rparr>"
    using Cons.IH [OF 1(2)] by blast
  have "h_ledger h2\<lparr>led_turns := 0\<rparr> = (fold add_usage (appended (op # ops)) (h_ledger h))\<lparr>led_turns := 0\<rparr>"
    using 1(5) 2(5) by (simp add: fold_usage_turns appended_Cons [of op ops])
  moreover have "h_messages h2 = h_messages h @ appended (op # ops)"
    using 1(4) 2(4) by (simp add: appended_Cons [of op ops])
  ultimately show ?case using 1 2 by (simp add: exI)
qed

lemma messages_of_rows: "messages_of i db = map mr_message (sort_key mr_seq (rows_of i db))"
  by (simp add: messages_of_def rows_of_def)

lemma synced_messages: "synced t h db \<Longrightarrow> messages_of (h_id h) db = map stored_message (h_messages h)"
proof -
  assume s: "synced t h db"
  then have "map mr_seq (rows_of (h_id h) db) = [0..<length (h_messages h)]" by (simp add: synced_def)
  then have "sorted (map mr_seq (rows_of (h_id h) db))" by simp
  then have "sort_key mr_seq (rows_of (h_id h) db) = rows_of (h_id h) db" by (rule sort_key_id_if_sorted)
  with s show ?thesis by (simp add: messages_of_rows synced_def)
qed

lemma stored_meta [simp]: "msg_meta (stored_message m) = msg_meta m"
  by (simp add: stored_message_def)

lemma derive_ledger_stored: "derive_ledger (map stored_message ms) = derive_ledger ms"
proof -
  have "add_usage (stored_message m) = add_usage m" for m by (intro ext) (simp add: add_usage_def split: option.splits)
  then show ?thesis by (simp add: derive_ledger_def fold_map comp_def)
qed

lemma created_synced:
  assumes "list_all (\<lambda>r. has_session (mr_session r) db) (messages db)" "store_create now sp i scp db = Inr (h, db')"
  shows "synced (tenant_of scp) h db'" "h_id h = i" "h_messages h = []" "h_ledger h = empty_ledger"
proof -
  have no: "\<not> has_session i db" using assms(2) by (auto simp: store_create_def split: if_splits)
  then have h: "h = build_handle i sp []"
    and db': "db' = db\<lparr>sessions := sessions db @ [create_session_row now i (tenant_of scp) sp]\<rparr>"
    using assms(2) by (simp_all add: store_create_def)
  have rows: "rows_of i db = []"
    using assms(1) no by (auto simp: rows_of_def list_all_iff filter_empty_conv)
  have none: "find (\<lambda>r. sr_id r = i) (sessions db) = None"
    using no by (auto simp: has_session_def list_ex_iff find_None_iff)
  have app: "find (\<lambda>r. sr_id r = i) (xs @ [x]) = Some x" if "find (\<lambda>r. sr_id r = i) xs = None" "sr_id x = i" for xs x
    using that by (induction xs) (auto split: if_splits)
  then have "find_session i db' = Some (create_session_row now i (tenant_of scp) sp)"
    using app [OF none, of "create_session_row now i (tenant_of scp) sp"]
    by (simp add: find_session_def db' create_session_row_def)
  with rows show "synced (tenant_of scp) h db'" "h_id h = i" "h_messages h = []" "h_ledger h = empty_ledger"
    by (simp_all add: synced_def h build_handle_def derive_ledger_def rows_of_def db' create_session_row_def)
qed

section \<open>Two handles of one session\<close>

text \<open>Everything that can be written to the database, short of deleting a session.\<close>

datatype db_op =
    Via handle handle_op
  | Create int agent_spec string "string option"
  | Create_keyed int string string agent_spec "string option"

fun db_step :: "session_db \<Rightarrow> db_op \<Rightarrow> session_db" where
  "db_step db (Via h op) = (case handle_step (h, db) op of Inl e \<Rightarrow> db | Inr (h', db') \<Rightarrow> db')"
| "db_step db (Create now sp i scp) = (case store_create now sp i scp db of Inl e \<Rightarrow> db | Inr (h', db') \<Rightarrow> db')"
| "db_step db (Create_keyed now i k sp scp) =
     (case create_for_key now i k sp scp db of Inl e \<Rightarrow> db | Inr (h', db') \<Rightarrow> db')"

definition taken :: "string \<Rightarrow> nat \<Rightarrow> session_db \<Rightarrow> bool" where
  "taken i n db \<longleftrightarrow> has_session i db \<and> list_ex (\<lambda>r. mr_session r = i \<and> mr_seq r = n) (messages db)"

lemma has_session_map:
  "(\<And>r. sr_id (f r) = sr_id r) \<Longrightarrow> list_ex (\<lambda>r. sr_id r = i) (map f rs) = list_ex (\<lambda>r. sr_id r = i) rs"
  by (induction rs) auto

lemma has_session_touch [simp]: "list_ex (\<lambda>r. sr_id r = i) (touch now j rs) = list_ex (\<lambda>r. sr_id r = i) rs"
  unfolding touch_def by (rule has_session_map) simp

lemma taken_step: "taken i n db \<Longrightarrow> taken i n (db_step db op)"
proof (induction db op rule: db_step.induct)
  case (1 db h op)
  then show ?case
    by (cases op)
      (auto simp: taken_def append_message_def mark_turn_def update_spec_def Let_def has_session_def has_session_map
        split: if_splits)
qed (auto simp: taken_def store_create_def create_for_key_def has_session_def)

interpretation taken_seq: step_invariant db_step "taken i n" for i n
  by unfold_locales (rule taken_step)

lemma append_takes:
  "append_message now m h db = Inr (h', db') \<Longrightarrow> taken (h_id h) (length (h_messages h)) db'"
  by (auto simp: append_message_def Let_def taken_def has_session_def split: if_splits)

lemma taken_blocks:
  "taken (h_id h) (length (h_messages h)) db \<Longrightarrow> append_message now m h db = Inl (Constraint ''UNIQUE'')"
  by (simp add: append_message_def Let_def taken_def)

section \<open>Properties\<close>

text \<open>C20. Whatever is done through the handle of a new session, nothing fails, and opening the session again gives the messages in
  order as JSON carries them, the current specification, and the same ledger, except that the turns counted start at zero.\<close>

theorem reopen_restores:
  assumes "list_all (\<lambda>r. has_session (mr_session r) db) (messages db)" "store_create now sp i scp db = Inr (h0, db0)"
  shows "\<exists>h db'. handle_ops ops (h0, db0) = Inr (h, db') \<and> h_messages h = appended ops \<and>
           store_open i scp db' = Inr (Some \<lparr>h_id = i, h_spec = h_spec h, h_messages = map stored_message (h_messages h),
              h_ledger = (h_ledger h)\<lparr>led_turns := 0\<rparr>, h_ok_turns = []\<rparr>)"
proof -
  note c = created_synced [OF assms]
  obtain h db' where h: "handle_ops ops (h0, db0) = Inr (h, db')" "synced (tenant_of scp) h db'" "h_id h = i"
      "h_messages h = appended ops"
      "h_ledger h\<lparr>led_turns := 0\<rparr> = (fold add_usage (appended ops) empty_ledger)\<lparr>led_turns := 0\<rparr>"
    using synced_ops [OF c(1), of ops] c by auto
  have "derive_ledger (h_messages h) = h_ledger h\<lparr>led_turns := 0\<rparr>"
    using h(4,5) by (simp add: derive_ledger_def fold_usage_turns) (simp add: empty_ledger_def)
  moreover obtain r where "find_session i db' = Some r" "sr_tenant r = tenant_of scp" "sr_spec r = h_spec h"
    using h(2,3) by (auto simp: synced_def)
  moreover have "messages_of i db' = map stored_message (h_messages h)"
    using synced_messages [OF h(2)] h(3) by simp
  ultimately have "store_open i scp db' = Inr (Some \<lparr>h_id = i, h_spec = h_spec h,
      h_messages = map stored_message (h_messages h), h_ledger = (h_ledger h)\<lparr>led_turns := 0\<rparr>, h_ok_turns = []\<rparr>)"
    by (simp add: store_open_def open_within_tenant_def build_handle_def derive_ledger_stored)
  with h show ?thesis by blast
qed

text \<open>A handle that was resolved by its key before another handle of the same session appended can never append again: every
  attempt fails on the primary key, whatever is written in between. The dispatcher resolves the handle of a pinned skill before
  it waits for the running turn of that session.\<close>

lemma stale_handle_never_appends:
  assumes "resolve_by_key k scp db = Inr (Some h)" "append_message t1 m1 h db = Inr (h1, db1)"
  shows "append_message t2 m2 h (run db_step db1 ops) = Inl (Constraint ''UNIQUE'')"
  by (rule taken_blocks) (rule taken_seq.run_good [OF append_takes [OF assms(2)]])

definition sample_spec :: agent_spec where
  "sample_spec = \<lparr>spec_name = ''a'', spec_model = ''m'', system_prompt = [], temperature = None, max_tokens = None,
     subagent_depth_cap = None, spec_max_iterations = None\<rparr>"

definition sample_message :: message where
  "sample_message = \<lparr>msg_role = User, msg_content = [Text ''hi''], msg_meta = None\<rparr>"

theorem reopen_restores_witness:
  "\<exists>h db'. handle_ops [Append 1 sample_message, Mark 2 ''t'' Turn_ok]
             (build_handle ''s'' sample_spec [], empty_db\<lparr>sessions := [create_session_row 0 ''s'' ''__default__'' sample_spec]\<rparr>)
             = Inr (h, db') \<and> h_messages h = appended [Append 1 sample_message, Mark 2 ''t'' Turn_ok] \<and>
           store_open ''s'' None db' = Inr (Some \<lparr>h_id = ''s'', h_spec = h_spec h,
              h_messages = map stored_message (h_messages h),
              h_ledger = (h_ledger h)\<lparr>led_turns := 0\<rparr>, h_ok_turns = []\<rparr>)"
  by (rule reopen_restores [of empty_db 0 sample_spec "''s''" None])
    (simp_all add: empty_db_def store_create_def has_session_def tenant_of_def)

end
