(* ===== verification/Mailbox.thy ===== *)
theory Mailbox imports EventTypes begin

text \<open>
  The mailbox between agents, \<^verbatim>\<open>core/src/events/mailbox.ts\<close>: the rows of its table, in insertion order, and the cache of
  depths. \<open>send\<close> takes the random id and the clock as arguments and returns the event for the live bus. A stable sort by
  \<^verbatim>\<open>queued_at\<close> stands for \<^verbatim>\<open>ORDER BY\<close>.

  Shown: the mailbox behaves as one queue per agent, the cached depth included, and each message is handed out once.
\<close>

record mail_row =
  mb_id :: string
  mb_to :: string
  mb_from :: string
  mb_payload :: "js option"
  mb_queued :: int
  mb_drained :: "int option"

record mailbox =
  mail_rows :: "mail_row list"
  depth_cache :: "(string, nat) jmap"
  mail_ttl :: int

definition create_mailbox :: "mail_row list \<Rightarrow> int option \<Rightarrow> mailbox" where
  "create_mailbox rows ttl =
     \<lparr>mail_rows = rows, depth_cache = [], mail_ttl = (case ttl of None \<Rightarrow> 7 * 24 * 60 * 60 * 1000 | Some t \<Rightarrow> t)\<rparr>"

definition is_pending :: "string \<Rightarrow> mail_row \<Rightarrow> bool" where
  "is_pending a r \<longleftrightarrow> mb_to r = a \<and> mb_drained r = None"

definition select_pending :: "string \<Rightarrow> mailbox \<Rightarrow> mail_row list" where
  "select_pending a m = sort_key mb_queued (filter (is_pending a) (mail_rows m))"

definition inc_depth :: "string \<Rightarrow> (string, nat) jmap \<Rightarrow> (string, nat) jmap" where
  "inc_depth a c = jm_set a ((case jm_get a c of None \<Rightarrow> 0 | Some n \<Rightarrow> n) + 1) c"

definition reset_depth :: "string \<Rightarrow> (string, nat) jmap \<Rightarrow> (string, nat) jmap" where
  "reset_depth a c = jm_set a 0 c"

text \<open>\<^verbatim>\<open>resolveDepth\<close>: the depth, and the mailbox with it in the cache.\<close>

definition resolve_depth :: "string \<Rightarrow> mailbox \<Rightarrow> nat \<times> mailbox" where
  "resolve_depth a m =
     (case jm_get a (depth_cache m) of
        Some n \<Rightarrow> (n, m)
      | None \<Rightarrow>
          (let n = length (filter (is_pending a) (mail_rows m))
           in (n, m\<lparr>depth_cache := jm_set a n (depth_cache m)\<rparr>)))"

text \<open>A column \<^verbatim>\<open>payload_json\<close> as it is written and read: \<^verbatim>\<open>undefined\<close> is a null column, read as \<^verbatim>\<open>null\<close>.\<close>

definition payload_column :: "js \<Rightarrow> js option" where
  "payload_column v = (if v = JUndef then None else json_image v)"

definition mail_event :: "string \<Rightarrow> string \<Rightarrow> int \<Rightarrow> js \<Rightarrow> agent_event" where
  "mail_event i from queued payload =
     \<lparr>ev_id = i, ev_source = SMailbox from, ev_target = TBroadcast, ev_kind = Mailbox_message, ev_timestamp = queued,
      ev_payload = payload, ev_auth = AInternal, ev_meta = Some (empty_meta\<lparr>idempotency_key := Some i\<rparr>)\<rparr>"

definition row_to_event :: "mail_row \<Rightarrow> agent_event" where
  "row_to_event r = mail_event (mb_id r) (mb_from r) (mb_queued r) (case mb_payload r of None \<Rightarrow> JNull | Some v \<Rightarrow> v)"

definition send :: "string \<Rightarrow> int \<Rightarrow> string \<Rightarrow> js \<Rightarrow> string \<Rightarrow> mailbox \<Rightarrow> string + (agent_event \<times> mailbox)" where
  "send i now to payload from m =
     (if to = [] then Inl ''mailbox.send: toAgent is required''
      else if from = [] then Inl ''mailbox.send: fromAgent is required''
      else if list_ex (\<lambda>r. mb_id r = i) (mail_rows m) then Inl ''UNIQUE''
      else Inr (mail_event i from now (if nullish payload then JNull else payload),
                m\<lparr>mail_rows := mail_rows m @
                     [\<lparr>mb_id = i, mb_to = to, mb_from = from, mb_payload = payload_column payload, mb_queued = now,
                       mb_drained = None\<rparr>],
                  depth_cache := inc_depth to (depth_cache m)\<rparr>))"

definition drain_for :: "int \<Rightarrow> string \<Rightarrow> mailbox \<Rightarrow> agent_event list \<times> mailbox" where
  "drain_for now a m =
     (let rows = select_pending a m
      in if rows = [] then ([], m)
         else (map row_to_event rows,
               m\<lparr>mail_rows := map (\<lambda>r. if is_pending a r then r\<lparr>mb_drained := Some now\<rparr> else r) (mail_rows m),
                 depth_cache := reset_depth a (depth_cache m)\<rparr>))"

definition mail_vacuum :: "int \<Rightarrow> int option \<Rightarrow> mailbox \<Rightarrow> nat \<times> mailbox" where
  "mail_vacuum now older m =
     (let cutoff = now - (case older of None \<Rightarrow> mail_ttl m | Some t \<Rightarrow> t);
          gone = (\<lambda>r. case mb_drained r of None \<Rightarrow> False | Some d \<Rightarrow> d < cutoff)
      in (length (filter gone (mail_rows m)), m\<lparr>mail_rows := filter (\<lambda>r. \<not> gone r) (mail_rows m)\<rparr>))"

section \<open>One queue per agent\<close>

text \<open>What a mailbox promises: a queue of events for every agent, which draining empties.\<close>

datatype mail_op =
    Send string string js string
  | Drain string
  | Depth string
  | Vacuum "int option"

datatype mail_answer = Sent | Refused | Got "agent_event list" | Pending nat | Swept

definition mail_step :: "mailbox \<Rightarrow> int \<times> mail_op \<Rightarrow> mailbox \<times> mail_answer" where
  "mail_step m c =
     (case c of (now, op) \<Rightarrow>
       (case op of
          Send i to payload from \<Rightarrow>
            (case send i now to payload from m of Inl e \<Rightarrow> (m, Refused) | Inr (e, m') \<Rightarrow> (m', Sent))
        | Drain a \<Rightarrow> (case drain_for now a m of (es, m') \<Rightarrow> (m', Got es))
        | Depth a \<Rightarrow> (case resolve_depth a m of (n, m') \<Rightarrow> (m', Pending n))
        | Vacuum t \<Rightarrow> (snd (mail_vacuum now t m), Swept)))"

type_synonym queues = "string \<Rightarrow> agent_event list"

definition queue_step :: "queues \<Rightarrow> int \<times> mail_op \<Rightarrow> queues \<times> mail_answer" where
  "queue_step q c =
     (case c of (now, op) \<Rightarrow>
       (case op of
          Send i to payload from \<Rightarrow>
            if to = [] \<or> from = [] then (q, Refused)
            else (q(to := q to @ [mail_event i from now (case json_image payload of None \<Rightarrow> JNull | Some v \<Rightarrow> v)]), Sent)
        | Drain a \<Rightarrow> (q(a := []), Got (q a))
        | Depth a \<Rightarrow> (q, Pending (length (q a)))
        | Vacuum t \<Rightarrow> (q, Swept)))"

fun answers :: "('s \<Rightarrow> 'i \<Rightarrow> 's \<times> 'o) \<Rightarrow> 's \<Rightarrow> 'i list \<Rightarrow> 'o list" where
  "answers f s [] = []"
| "answers f s (i # is) = (case f s i of (s', out) \<Rightarrow> out # answers f s' is)"

text \<open>Two machines that answer alike, step by step.\<close>

locale simulation =
  fixes conc :: "'s \<Rightarrow> 'i \<Rightarrow> 's \<times> 'o"
    and abst :: "'a \<Rightarrow> 'i \<Rightarrow> 'a \<times> 'o"
    and sim :: "'i list \<Rightarrow> 's \<Rightarrow> 'a \<Rightarrow> bool"
  assumes sim_step: "sim (i # is) s a \<Longrightarrow> conc s i = (s', o1) \<Longrightarrow> abst a i = (a', o2) \<Longrightarrow> o1 = o2 \<and> sim is s' a'"
begin

lemma same_answers: "sim is s a \<Longrightarrow> answers conc s is = answers abst a is"
proof (induction "is" arbitrary: s a)
  case (Cons i "is")
  obtain s' o1 a' o2 where "conc s i = (s', o1)" "abst a i = (a', o2)" by (meson surj_pair)
  with Cons sim_step [OF Cons.prems] show ?case by auto
qed simp

end

definition queues_of :: "mailbox \<Rightarrow> queues" where
  "queues_of m a = map row_to_event (filter (is_pending a) (mail_rows m))"

text \<open>A cached depth is the number of pending rows, and an agent without a cached depth has none.\<close>

definition depths_ok :: "mailbox \<Rightarrow> bool" where
  "depths_ok m \<longleftrightarrow>
     (\<forall>a. length (filter (is_pending a) (mail_rows m)) = (case jm_get a (depth_cache m) of None \<Rightarrow> 0 | Some n \<Rightarrow> n))"

fun sent_ids :: "(int \<times> mail_op) list \<Rightarrow> string list" where
  "sent_ids [] = []"
| "sent_ids ((now, Send i to payload from) # cs) = i # sent_ids cs"
| "sent_ids (_ # cs) = sent_ids cs"

text \<open>What the rest of a run may assume: the clock does not go back and the ids to come are new.\<close>

definition mail_sim :: "(int \<times> mail_op) list \<Rightarrow> mailbox \<Rightarrow> queues \<Rightarrow> bool" where
  "mail_sim cs m q \<longleftrightarrow>
     sorted (map mb_queued (mail_rows m) @ map fst cs) \<and> distinct (sent_ids cs) \<and>
     set (sent_ids cs) \<inter> set (map mb_id (mail_rows m)) = {} \<and> depths_ok m \<and> q = queues_of m"

lemma select_sorted: "sorted (map mb_queued (mail_rows m)) \<Longrightarrow> select_pending a m = filter (is_pending a) (mail_rows m)"
  unfolding select_pending_def by (rule sort_key_id_if_sorted) (rule sorted_filter)

lemma depths_okD: "depths_ok m \<Longrightarrow>
    length (filter (is_pending a) (mail_rows m)) = (case jm_get a (depth_cache m) of None \<Rightarrow> 0 | Some n \<Rightarrow> n)"
  by (simp add: depths_ok_def)

lemma sim_send:
  assumes "mail_sim ((now, Send i to payload from) # cs) m q" "to \<noteq> []" "from \<noteq> []"
  shows "\<exists>e m'. send i now to payload from m = Inr (e, m') \<and>
           mail_sim cs m' (q(to := q to @ [mail_event i from now (case json_image payload of None \<Rightarrow> JNull | Some v \<Rightarrow> v)]))"
proof -
  let ?r = "\<lparr>mb_id = i, mb_to = to, mb_from = from, mb_payload = payload_column payload, mb_queued = now, mb_drained = None\<rparr>"
  let ?m = "m\<lparr>mail_rows := mail_rows m @ [?r], depth_cache := inc_depth to (depth_cache m)\<rparr>"
  have srt: "sorted (map mb_queued (mail_rows m) @ now # map fst cs)" and new: "i \<notin> set (map mb_id (mail_rows m))"
    and ids: "distinct (sent_ids cs)" "i \<notin> set (sent_ids cs)" "set (sent_ids cs) \<inter> set (map mb_id (mail_rows m)) = {}"
    and ok: "depths_ok m" and q: "q = queues_of m"
    using assms(1) by (auto simp: mail_sim_def)
  have "send i now to payload from m = Inr (mail_event i from now (if nullish payload then JNull else payload), ?m)"
    using assms(2,3) new by (auto simp: send_def list_ex_iff)
  moreover have ev: "row_to_event ?r = mail_event i from now (case json_image payload of None \<Rightarrow> JNull | Some v \<Rightarrow> v)"
    by (simp add: row_to_event_def payload_column_def)
  define m' where "m' = ?m"
  have rows: "mail_rows m' = mail_rows m @ [?r]" and cache: "depth_cache m' = inc_depth to (depth_cache m)"
    by (simp_all add: m'_def)
  have pend: "filter (is_pending a) (mail_rows m') = filter (is_pending a) (mail_rows m) @ (if a = to then [?r] else [])" for a
    unfolding rows by (simp add: is_pending_def)
  have "queues_of m' = q(to := q to @ [mail_event i from now (case json_image payload of None \<Rightarrow> JNull | Some v \<Rightarrow> v)])"
    by (rule ext) (simp add: queues_of_def q pend ev)
  moreover have "depths_ok m'"
    unfolding depths_ok_def pend cache inc_depth_def using depths_okD [OF ok] by simp
  moreover have "sorted (map mb_queued (mail_rows m') @ map fst cs)" unfolding rows using srt by simp
  moreover have "set (sent_ids cs) \<inter> set (map mb_id (mail_rows m')) = {}" unfolding rows using ids by simp
  ultimately show ?thesis using ids(1) by (simp add: mail_sim_def m'_def)
qed

lemma sim_drain:
  assumes "mail_sim ((now, Drain a) # cs) m q" "drain_for now a m = (es, m')"
  shows "es = q a \<and> mail_sim cs m' (q(a := []))"
proof -
  let ?f = "\<lambda>r. if is_pending a r then r\<lparr>mb_drained := Some now\<rparr> else r"
  have srt: "sorted (map mb_queued (mail_rows m))" "sorted (map mb_queued (mail_rows m) @ map fst cs)" and ok: "depths_ok m"
    and ids: "distinct (sent_ids cs)" "set (sent_ids cs) \<inter> set (map mb_id (mail_rows m)) = {}" and q: "q = queues_of m"
    using assms(1) by (auto simp: mail_sim_def sorted_append)
  have sel: "select_pending a m = filter (is_pending a) (mail_rows m)" by (rule select_sorted [OF srt(1)])
  have f1: "is_pending b r \<Longrightarrow> a \<noteq> b \<Longrightarrow> \<not> is_pending a r" for b r by (simp add: is_pending_def)
  have f2: "is_pending b (r\<lparr>mb_drained := Some now\<rparr>) = False" for b and r :: mail_row by (simp add: is_pending_def)
  have pend: "filter (is_pending b) (map ?f rs) = (if a = b then [] else filter (is_pending b) rs)" for b rs
    by (induction rs) (use f1 f2 in auto)
  have same: "map mb_queued (map ?f rs) = map mb_queued rs" "map mb_id (map ?f rs) = map mb_id rs" for rs
    by (induction rs) auto
  show ?thesis
  proof (cases "filter (is_pending a) (mail_rows m) = []")
    case True
    then have "es = []" "m' = m" using assms(2) sel by (simp_all add: drain_for_def Let_def)
    moreover have "q a = []" using True by (simp add: q queues_of_def)
    moreover have "q(a := []) = q" using \<open>q a = []\<close> by (rule fun_upd_idem)
    ultimately show ?thesis using srt ok ids q by (simp add: mail_sim_def)
  next
    case False
    then have es: "es = q a"
      and m': "m' = m\<lparr>mail_rows := map ?f (mail_rows m), depth_cache := reset_depth a (depth_cache m)\<rparr>"
      using assms(2) sel by (auto simp: drain_for_def Let_def q queues_of_def)
    have rows: "mail_rows m' = map ?f (mail_rows m)" by (simp add: m')
    have "queues_of m' = q(a := [])"
      by (rule ext) (simp only: queues_of_def q rows pend, simp add: queues_of_def)
    moreover have "depths_ok m'"
      unfolding depths_ok_def rows pend using depths_okD [OF ok] by (simp add: m' reset_depth_def)
    moreover have "sorted (map mb_queued (mail_rows m') @ map fst cs)" using srt by (simp only: rows same)
    moreover have "set (sent_ids cs) \<inter> set (map mb_id (mail_rows m')) = {}" using ids by (simp only: rows same)
    ultimately show ?thesis using ids(1) es by (simp add: mail_sim_def)
  qed
qed

lemma sim_vacuum: "mail_sim ((now, Vacuum t) # cs) m q \<Longrightarrow> mail_sim cs (snd (mail_vacuum now t m)) q"
proof -
  assume sim: "mail_sim ((now, Vacuum t) # cs) m q"
  define gone where "gone = (\<lambda>r :: mail_row. case mb_drained r of None \<Rightarrow> False
      | Some d \<Rightarrow> d < now - (case t of None \<Rightarrow> mail_ttl m | Some u \<Rightarrow> u))"
  have m': "snd (mail_vacuum now t m) = m\<lparr>mail_rows := filter (\<lambda>r. \<not> gone r) (mail_rows m)\<rparr>"
    by (simp add: mail_vacuum_def Let_def gone_def)
  have "is_pending a r \<Longrightarrow> \<not> gone r" for a r by (simp add: is_pending_def gone_def)
  then have pend: "filter (is_pending a) (filter (\<lambda>r. \<not> gone r) rs) = filter (is_pending a) rs" for a rs
    by (induction rs) auto
  define m1 where "m1 = snd (mail_vacuum now t m)"
  have rows: "mail_rows m1 = filter (\<lambda>r. \<not> gone r) (mail_rows m)" and cache: "depth_cache m1 = depth_cache m"
    by (simp_all add: m1_def m')
  have "queues_of m1 = queues_of m" by (rule ext) (simp only: queues_of_def rows pend)
  moreover have "depths_ok m1 = depths_ok m" by (simp only: depths_ok_def rows pend cache)
  ultimately show ?thesis
    using sim unfolding m1_def [symmetric] mail_sim_def rows by (auto simp: sorted_append sorted_filter)
qed

lemma sim_depth:
  assumes "mail_sim ((now, Depth a) # cs) m q" "resolve_depth a m = (n, m')"
  shows "n = length (q a) \<and> mail_sim cs m' q"
proof -
  have ok: "depths_ok m" and q: "q = queues_of m" using assms(1) by (auto simp: mail_sim_def)
  have count: "length (filter (is_pending b) (mail_rows m)) = (case jm_get b (depth_cache m) of None \<Rightarrow> 0 | Some n \<Rightarrow> n)" for b
    by (rule depths_okD [OF ok])
  have n: "n = length (filter (is_pending a) (mail_rows m))" and rows: "mail_rows m' = mail_rows m"
    using assms(2) count [of a] by (auto simp: resolve_depth_def Let_def split: option.splits)
  have "jm_get b (depth_cache m') = (if b = a then Some n else jm_get b (depth_cache m))" for b
    using assms(2) by (auto simp: resolve_depth_def Let_def split: option.splits)
  then have d: "depths_ok m'" using count n by (simp add: depths_ok_def rows)
  have "queues_of m' = queues_of m" by (rule ext) (simp add: queues_of_def rows)
  with n rows d show ?thesis using assms(1) by (simp add: mail_sim_def queues_of_def sorted_append)
qed

lemma mail_sim_step:
  assumes "mail_sim (c # cs) m q" "mail_step m c = (m', o1)" "queue_step q c = (q', o2)"
  shows "o1 = o2 \<and> mail_sim cs m' q'"
proof -
  obtain now op where c: "c = (now, op)" by (cases c)
  show ?thesis
  proof (cases op)
    case (Send i to payload frm)
    show ?thesis
    proof (cases "to = [] \<or> frm = []")
      case True
      then have "m' = m" "o1 = Refused" "q' = q" "o2 = Refused"
        using assms(2,3) by (cases "to = []"; auto simp: c Send mail_step_def queue_step_def send_def)+
      moreover have "mail_sim cs m q" using assms(1) by (auto simp: c Send mail_sim_def sorted_append)
      ultimately show ?thesis by simp
    next
      case False
      then show ?thesis
        using sim_send [OF assms(1) [unfolded c Send]] assms(2,3) by (auto simp: c Send mail_step_def queue_step_def)
    qed
  next
    case (Drain a)
    then show ?thesis
      using sim_drain [OF assms(1) [unfolded c Drain]] assms(2,3)
      by (auto simp: c mail_step_def queue_step_def split: prod.splits)
  next
    case (Depth a)
    then show ?thesis
      using sim_depth [OF assms(1) [unfolded c Depth]] assms(2,3)
      by (auto simp: c mail_step_def queue_step_def split: prod.splits)
  next
    case (Vacuum t)
    then show ?thesis
      using sim_vacuum [OF assms(1) [unfolded c Vacuum]] assms(2,3) by (auto simp: c mail_step_def queue_step_def)
  qed
qed

interpretation mail: simulation mail_step queue_step mail_sim
  by unfold_locales (rule mail_sim_step)

section \<open>Properties\<close>

text \<open>C21. A mailbox that starts empty answers every sequence of sends, drains, depth queries and vacuums as one queue per agent
  does: a drain hands out, once and in order, what was sent to the agent since its last drain, and the depth is its number,
  as long as the clock does not go back and ids are not reused.\<close>

theorem mailbox_is_queues:
  assumes "sorted (map fst calls)" "distinct (sent_ids calls)"
  shows "answers mail_step (create_mailbox [] ttl) calls = answers queue_step (\<lambda>a. []) calls"
  by (rule mail.same_answers)
    (use assms in \<open>auto simp: mail_sim_def create_mailbox_def depths_ok_def queues_of_def\<close>)

theorem mailbox_is_queues_witness:
  "answers mail_step (create_mailbox [] None)
     [(1, Send ''i'' ''bob'' (JNum 7) ''al''), (1, Send ''j'' ''bob'' JUndef ''al''), (2, Depth ''bob''), (3, Drain ''bob'')] =
   answers queue_step (\<lambda>a. [])
     [(1, Send ''i'' ''bob'' (JNum 7) ''al''), (1, Send ''j'' ''bob'' JUndef ''al''), (2, Depth ''bob''), (3, Drain ''bob'')]"
  by (rule mailbox_is_queues) simp_all

text \<open>After a restart with messages waiting, the first message sent to an agent makes its depth one, whatever the number of
  messages that are really pending: the cache starts empty and counts from zero.\<close>

lemma depth_wrong_after_restart:
  assumes "send i now to payload from (create_mailbox rows ttl) = Inr (e, m)"
  shows "fst (resolve_depth to m) = 1 \<and>
         length (filter (is_pending to) (mail_rows m)) = Suc (length (filter (is_pending to) rows))"
  using assms by (auto simp: send_def create_mailbox_def resolve_depth_def inc_depth_def is_pending_def split: if_splits)

definition old_mail :: "string \<Rightarrow> mail_row" where
  "old_mail i = \<lparr>mb_id = i, mb_to = ''bob'', mb_from = ''al'', mb_payload = None, mb_queued = 0, mb_drained = None\<rparr>"

end
