(* ===== verification/Hooks.thy ===== *)
theory Hooks imports Prelude begin

text \<open>
  The hook registry, \<^verbatim>\<open>core/src/hooks/registry.ts\<close>: subscribers per hook point, in the order they subscribed, and how a
  point is fired. A subscriber is a function on a payload and the state of the world, which it may change; \<open>sub_ref\<close> is its
  identity, by which it is found again to unsubscribe. Subscribers that change the registry they are called from are not
  modelled.

  Shown: an after hook cannot fail and reaches every subscriber; a before hook stops at the first subscriber that answers or
  throws.
\<close>

datatype hook_point =
    Turn_start | Turn_end | Tool_before | Tool_after | Skill_before | Skill_after | Compact_before | Event_before | Event_after

fun is_before_hook_point :: "hook_point \<Rightarrow> bool" where
  "is_before_hook_point Tool_before = True"
| "is_before_hook_point Skill_before = True"
| "is_before_hook_point Compact_before = True"
| "is_before_hook_point Event_before = True"
| "is_before_hook_point _ = False"

type_synonym ('w, 'p, 'r) hook_fun = "'p \<Rightarrow> 'w \<Rightarrow> (string + 'r option) \<times> 'w"

record ('w, 'p, 'r) subscriber =
  sub_ref :: nat
  sub_call :: "('w, 'p, 'r) hook_fun"

type_synonym ('w, 'p, 'r) hook_registry = "(hook_point, ('w, 'p, 'r) subscriber list) jmap"

definition list_for :: "hook_point \<Rightarrow> ('w, 'p, 'r) hook_registry \<Rightarrow> ('w, 'p, 'r) subscriber list" where
  "list_for p reg = (case jm_get p reg of None \<Rightarrow> [] | Some ss \<Rightarrow> ss)"

definition hook_on :: "hook_point \<Rightarrow> ('w, 'p, 'r) subscriber \<Rightarrow> ('w, 'p, 'r) hook_registry \<Rightarrow> ('w, 'p, 'r) hook_registry" where
  "hook_on p s reg = jm_set p (list_for p reg @ [s]) reg"

fun remove_first :: "nat \<Rightarrow> ('w, 'p, 'r) subscriber list \<Rightarrow> ('w, 'p, 'r) subscriber list" where
  "remove_first n [] = []"
| "remove_first n (s # ss) = (if sub_ref s = n then ss else s # remove_first n ss)"

text \<open>The function \<^verbatim>\<open>on\<close> returns: it takes the first entry of the same subscriber out.\<close>

definition hook_off :: "hook_point \<Rightarrow> nat \<Rightarrow> ('w, 'p, 'r) hook_registry \<Rightarrow> ('w, 'p, 'r) hook_registry" where
  "hook_off p n reg = (case jm_get p reg of None \<Rightarrow> reg | Some ss \<Rightarrow> jm_set p (remove_first n ss) reg)"

fun fire_list :: "bool \<Rightarrow> ('w, 'p, 'r) subscriber list \<Rightarrow> 'p \<Rightarrow> 'r option \<Rightarrow> 'w \<Rightarrow> (string + 'r option) \<times> 'w" where
  "fire_list before [] p res w = (Inr res, w)"
| "fire_list before (s # ss) p res w =
     (case sub_call s p w of
        (Inr None, w') \<Rightarrow> fire_list before ss p res w'
      | (Inr (Some r), w') \<Rightarrow>
          (case res of
             Some r0 \<Rightarrow> fire_list before ss p (Some r0) w'
           | None \<Rightarrow> if before then (Inr (Some r), w') else fire_list before ss p (Some r) w')
      | (Inl e, w') \<Rightarrow> if before then (Inl e, w') else fire_list before ss p res w')"

definition fire :: "('w, 'p, 'r) hook_registry \<Rightarrow> hook_point \<Rightarrow> 'p \<Rightarrow> 'w \<Rightarrow> (string + 'r option) \<times> 'w" where
  "fire reg p x w = fire_list (is_before_hook_point p) (list_for p reg) x None w"

definition hook_points :: "('w, 'p, 'r) hook_registry \<Rightarrow> hook_point list" where
  "hook_points reg = map fst (filter (\<lambda>e. snd e \<noteq> []) reg)"

definition hook_count :: "hook_point \<Rightarrow> ('w, 'p, 'r) hook_registry \<Rightarrow> nat" where
  "hook_count p reg = length (list_for p reg)"

section \<open>The callback bag of the first phase\<close>

record ('w, 'p, 'r) loop_hooks =
  on_turn_start :: "('w, 'p, 'r) hook_fun option"
  on_turn_end :: "('w, 'p, 'r) hook_fun option"
  on_tool_before :: "('w, 'p, 'r) hook_fun option"
  on_tool_after :: "('w, 'p, 'r) hook_fun option"
  on_compact_before :: "('w, 'p, 'r) hook_fun option"

text \<open>An observer: its answer is ignored.\<close>

definition observe :: "('w, 'p, 'r) hook_fun \<Rightarrow> ('w, 'p, 'r) hook_fun" where
  "observe f x w = (case f x w of (Inl e, w') \<Rightarrow> (Inl e, w') | (Inr r, w') \<Rightarrow> (Inr None, w'))"

fun bind_some :: "(hook_point \<times> ('w, 'p, 'r) hook_fun option) list \<Rightarrow> nat \<Rightarrow> ('w, 'p, 'r) hook_registry \<Rightarrow>
    (hook_point \<times> nat) list \<times> ('w, 'p, 'r) hook_registry" where
  "bind_some [] n reg = ([], reg)"
| "bind_some ((p, None) # cs) n reg = bind_some cs n reg"
| "bind_some ((p, Some f) # cs) n reg =
     (case bind_some cs (n + 1) (hook_on p \<lparr>sub_ref = n, sub_call = f\<rparr> reg) of (offs, reg') \<Rightarrow> ((p, n) # offs, reg'))"

definition bind_loop_hooks :: "('w, 'p, 'r) loop_hooks \<Rightarrow> nat \<Rightarrow> ('w, 'p, 'r) hook_registry \<Rightarrow>
    (hook_point \<times> nat) list \<times> ('w, 'p, 'r) hook_registry" where
  "bind_loop_hooks hs n reg =
     bind_some [(Turn_start, on_turn_start hs), (Turn_end, on_turn_end hs), (Tool_before, on_tool_before hs),
                (Tool_after, on_tool_after hs), (Compact_before, map_option observe (on_compact_before hs))] n reg"

section \<open>Firing\<close>

lemma fire_after_total: "\<exists>r. fire_list False ss x res w = (Inr r, fold (\<lambda>s w. snd (sub_call s x w)) ss w)"
proof (induction ss arbitrary: res w)
  case (Cons s ss)
  show ?case
  proof (cases "sub_call s x w")
    case (Pair r w')
    then show ?thesis
      using Cons.IH [of res w'] Cons.IH [of "Some _" w']
      by (auto split: sum.splits option.splits)
  qed
qed simp

lemma fire_after:
  "\<not> is_before_hook_point p \<Longrightarrow>
     \<exists>r. fire reg p x w = (Inr r, fold (\<lambda>s w. snd (sub_call s x w)) (list_for p reg) w)"
  using fire_after_total [of "list_for p reg" x None w] by (simp add: fire_def)

text \<open>A subscriber without an opinion.\<close>

definition silent :: "('w, 'p, 'r) subscriber \<Rightarrow> 'p \<Rightarrow> 'w \<Rightarrow> bool" where
  "silent s x w \<longleftrightarrow> fst (sub_call s x w) = Inr None"

lemma fire_before_Cons:
  "fire_list True (s # ss) x None w =
     (if silent s x w then fire_list True ss x None (snd (sub_call s x w)) else sub_call s x w)"
  by (auto simp: silent_def split: prod.splits sum.splits option.splits)

lemma list_for_on: "list_for q (hook_on p s reg) = (if q = p then list_for p reg @ [s] else list_for q reg)"
  by (simp add: list_for_def hook_on_def)

lemma list_for_off: "list_for q (hook_off p n reg) = (if q = p then remove_first n (list_for p reg) else list_for q reg)"
  by (simp add: list_for_def hook_off_def split: option.splits)

lemma remove_first_append: "n \<notin> set (map sub_ref ss) \<Longrightarrow> remove_first n (ss @ [s]) = (if sub_ref s = n then ss else ss @ [s])"
  by (induction ss) auto

text \<open>Unsubscribing takes back what subscribing did.\<close>

lemma off_on: "sub_ref s \<notin> set (map sub_ref (list_for p reg)) \<Longrightarrow> list_for q (hook_off p (sub_ref s) (hook_on p s reg)) = list_for q reg"
  by (simp add: list_for_on list_for_off remove_first_append del: set_map)

end
