(* ===== verification/EngineTurns.thy ===== *)
theory EngineTurns imports Engine begin

text \<open>
  What holds of a turn of \<open>Engine\<close>. The first part carries a condition on the world and on the list of acts through every
  step of a turn, given that the functions of the host keep the condition (\<open>env_keeps\<close>); the properties follow by choosing
  conditions.
\<close>

section \<open>Conditions that the host keeps\<close>

definition env_keeps :: "'x engine_env \<Rightarrow> ('x world \<Rightarrow> bool) \<Rightarrow> bool" where
  "env_keeps env P \<longleftrightarrow>
     (\<forall>rq. pres P (e_provider env rq)) \<and>
     (\<forall>p. \<forall>s \<in> set (list_for p (e_hooks env)). \<forall>x. pres P (sub_call s x)) \<and>
     (\<forall>ask. e_prompter env = Some ask \<longrightarrow> (\<forall>p d. pres P (ask p d))) \<and>
     (\<forall>pub. e_publish env = Some pub \<longrightarrow> (\<forall>e. pres P (pub e))) \<and>
     (\<forall>acquire. e_tool_limit env = Some acquire \<longrightarrow> (\<forall>t cx. pres P (acquire t cx))) \<and>
     (\<forall>t \<in> set (e_tools env). \<forall>v cx. pres P (t_execute t v cx))"

definition holds :: "('x world \<Rightarrow> bool) \<Rightarrow> (act list \<Rightarrow> bool) \<Rightarrow> 'x run \<Rightarrow> bool" where
  "holds P Q r \<longleftrightarrow> P (r_world r) \<and> Q (r_acts r)"

text \<open>The condition survives the host, a denial, and the acts that are no calls.\<close>

definition steady :: "'x engine_env \<Rightarrow> ('x world \<Rightarrow> bool) \<Rightarrow> (act list \<Rightarrow> bool) \<Rightarrow> bool" where
  "steady env P Q \<longleftrightarrow>
     env_keeps env P \<and> (\<forall>w. P w \<longrightarrow> P (w\<lparr>w_gate := record_denial (w_gate w)\<rparr>)) \<and>
     (\<forall>as e. Q as \<longrightarrow> Q (as @ [Published e])) \<and> (\<forall>as n x. Q as \<longrightarrow> Q (as @ [Counted n x])) \<and>
     (\<forall>as n x. Q as \<longrightarrow> Q (as @ [Observed n x]))"

lemma steady_env: "steady env P Q \<Longrightarrow> env_keeps env P"
  by (simp add: steady_def)

lemma pres_fire_list: "(\<And>s. s \<in> set ss \<Longrightarrow> pres P (sub_call s x)) \<Longrightarrow> P w \<Longrightarrow> P (snd (fire_list b ss x res w))"
proof (induction ss arbitrary: res w)
  case (Cons s ss)
  have "P (snd (sub_call s x w))" using Cons.prems presD by (metis list.set_intros(1))
  then show ?case
    using Cons.IH Cons.prems(1) by (auto split: prod.splits sum.splits option.splits)
qed simp

lemma pres_fire: "env_keeps env P \<Longrightarrow> pres P (fire (e_hooks env) p x)"
  by (rule presI) (simp add: fire_def env_keeps_def pres_fire_list)

lemma pres_on_world: "pres P f \<Longrightarrow> pres (holds P Q) (on_world f)"
  by (auto simp: pres_def holds_def on_world_def split: prod.splits)

lemma pres_world_read: "(\<And>w. P w \<Longrightarrow> P (snd (f w))) \<Longrightarrow> pres (holds P Q) (on_world f)"
  by (rule pres_on_world) (simp add: pres_def)

lemma pres_act: "(\<And>as. Q as \<Longrightarrow> Q (as @ [a])) \<Longrightarrow> pres (holds P Q) (act a)"
  unfolding act_def by (rule pres_modify) (simp add: holds_def)

lemma pres_count: "steady env P Q \<Longrightarrow> pres (holds P Q) (count_metric env n x)"
  unfolding count_metric_def by (intro pres_intros pres_act) (simp add: steady_def)

lemma pres_hook: "steady env P Q \<Longrightarrow> pres (holds P Q) (fire_hook env p x)"
  unfolding fire_hook_def by (rule pres_on_world) (rule pres_fire [OF steady_env])

lemma pres_deny: "steady env P Q \<Longrightarrow> pres (holds P Q) deny_call"
  unfolding deny_call_def by (rule pres_modify) (simp add: holds_def steady_def)

lemma pres_publish: "steady env P Q \<Longrightarrow> pres (holds P Q) (publish_event env c i k v)"
proof (rule presI)
  fix r assume st: "steady env P Q" and r: "holds P Q r"
  show "holds P Q (snd (publish_event env c i k v r))"
  proof (cases "e_publish env")
    case None
    with r show ?thesis by (simp add: publish_event_def ret_def)
  next
    case (Some pub)
    have "pres P (pub e)" for e using st Some by (simp add: steady_def env_keeps_def)
    then have "pres (holds P Q) (catch (chain (act (Published e)) (\<lambda>_. on_world (pub e))) (\<lambda>_. ret ()))" for e
      using st by (intro pres_intros pres_act pres_on_world) (simp_all add: steady_def)
    from presD [OF this r] Some show ?thesis by (simp add: publish_event_def Let_def)
  qed
qed

lemma pres_await: "steady env P Q \<Longrightarrow> pres (holds P Q) (await_rate_limit env t cx)"
  unfolding await_rate_limit_def
  by (auto simp: steady_def env_keeps_def split: option.split intro!: pres_intros pres_on_world)

section \<open>Through the tool calls of an answer\<close>

definition may_run :: "'x engine_env \<Rightarrow> permission_decision \<Rightarrow> bool" where
  "may_run env d \<longleftrightarrow> outcome d = Allowed \<or> outcome d = Prompted \<and> e_prompter env \<noteq> None"

lemma tool_map_in:
  "e \<in> set (foldl (\<lambda>m t. jm_set (t_name t) t m) m ts) \<Longrightarrow> snd e \<in> set ts \<or> e \<in> set m"
proof (induction ts arbitrary: m)
  case (Cons t ts)
  from Cons.prems have "snd e \<in> set ts \<or> e \<in> set (jm_set (t_name t) t m)" by (intro Cons.IH) simp
  then show ?case using set_jm_set_subset [of "t_name t" t m] by auto
qed simp

lemma find_tool_in: "find_tool env n = Some t \<Longrightarrow> t \<in> set (e_tools env)"
  unfolding find_tool_def using tool_map_in [of "(n, t)" "[]" "e_tools env"] by (auto dest: jm_get_SomeD)

lemma decide_call_result:
  "decide_call env t p r = (Inr (d, b), r') \<Longrightarrow> d = check (w_gate (r_world r)) (t_name t) (pc_key p) (tool_readonly t) \<and>
     (outcome d \<noteq> Denied \<and> b \<longrightarrow> may_run env d)"
  by (auto simp: decide_call_def Let_def ret_def chain_def may_run_def split: if_splits option.splits prod.splits sum.splits)

lemma pres_decide: "steady env P Q \<Longrightarrow> pres (holds P Q) (decide_call env t p)"
proof (rule presI)
  fix r assume st: "steady env P Q" and r: "holds P Q r"
  have ask: "pres (holds P Q) (chain (on_world (ask p d)) (\<lambda>b. ret (d, b)))" if "e_prompter env = Some ask" for ask d
    using st that by (intro pres_intros pres_on_world) (simp add: steady_def env_keeps_def)
  show "holds P Q (snd (decide_call env t p r))"
    using r presD [OF ask r] by (auto simp: decide_call_def Let_def ret_def split: option.split)
qed

lemma pres_check_and_run:
  assumes st: "steady env P Q"
    and run: "\<And>w. P w \<Longrightarrow> may_run env (check (w_gate w) (t_name t) (pc_key p) (tool_readonly t)) \<Longrightarrow>
                pres (holds P Q) (run_allowed env c inp t p)"
  shows "pres (holds P Q) (check_and_run env c inp t p)"
proof (rule presI)
  fix r assume r: "holds P Q r"
  obtain v r1 where v: "decide_call env t p r = (v, r1)" by fastforce
  have r1: "holds P Q r1" using presD [OF pres_decide [OF st] r, of t p] v by simp
  show "holds P Q (snd (check_and_run env c inp t p r))"
  proof (cases v)
    case (Inl e)
    with v r1 show ?thesis by (simp add: check_and_run_def chain_def)
  next
    case (Inr db)
    obtain d b where db: "db = (d, b)" by (cases db)
    note d = decide_call_result [OF v [unfolded Inr db]]
    show ?thesis
    proof (cases "outcome d = Denied \<or> \<not> b")
      case True
      have "pres (holds P Q) (chain deny_call (\<lambda>_ r. ret (x, should_escalate (w_gate (r_world r)) None) r))" for x
        by (rule pres_chain [OF pres_deny [OF st]]) (simp add: pres_def ret_def)
      from presD [OF this r1] True v show ?thesis
        by (simp add: check_and_run_def chain_def [of "decide_call env t p"] Inr db)
    next
      case False
      have "pres (holds P Q) (run_allowed env c inp t p)"
        using run [of "r_world r"] r d False by (auto simp: holds_def)
      then have "pres (holds P Q) (chain (run_allowed env c inp t p) (\<lambda>res. ret (res, False)))" by (intro pres_intros)
      from presD [OF this r1] False v show ?thesis
        by (simp add: check_and_run_def chain_def [of "decide_call env t p"] Inr db)
    qed
  qed
qed

text \<open>A condition on the tools that the permitted calls have to keep.\<close>

definition calls_keep :: "'x engine_env \<Rightarrow> ('x world \<Rightarrow> bool) \<Rightarrow> (act list \<Rightarrow> bool) \<Rightarrow> bool" where
  "calls_keep env P Q \<longleftrightarrow>
     (\<forall>c inp t p w. t \<in> set (e_tools env) \<longrightarrow> P w \<longrightarrow>
        may_run env (check (w_gate w) (t_name t) (pc_key p) (tool_readonly t)) \<longrightarrow>
        pres (holds P Q) (run_allowed env c inp t p))"

lemma pres_run_block:
  assumes "steady env P Q" "calls_keep env P Q"
  shows "pres (holds P Q) (run_block env c inp b)"
proof -
  have "pres (holds P Q) (check_and_run env c inp t p)" if "find_tool env n = Some t" for n t p
    using assms find_tool_in [OF that] by (intro pres_check_and_run) (auto simp: calls_keep_def)
  then show ?thesis
    unfolding run_block_def Let_def
    by (auto split: option.split sum.split intro!: pres_intros pres_hook [OF assms(1)])
qed

lemma pres_run_blocks:
  assumes "steady env P Q" "calls_keep env P Q"
  shows "pres (holds P Q) (run_blocks env c inp bs esc ab acc)"
proof (rule presI)
  fix r assume "holds P Q r"
  then show "holds P Q (snd (run_blocks env c inp bs esc ab acc r))"
  proof (induction bs arbitrary: esc ab acc r)
    case (Cons b bs)
    have "holds P Q (snd (run_block env c inp b r))" by (rule presD [OF pres_run_block [OF assms] Cons.prems])
    then show ?case
      using Cons by (auto simp: chain_def split: prod.splits sum.splits)
  qed (simp add: ret_def)
qed

text \<open>A condition that does not speak of the quotas is kept by every permitted call whose act it allows.\<close>

lemma pres_run_allowed:
  assumes st: "steady env P Q" and quota: "\<And>w q. P w \<Longrightarrow> P (w\<lparr>w_quota := q\<rparr>)" and t: "t \<in> set (e_tools env)"
    and ran: "\<And>as. Q as \<Longrightarrow> Q (as @ [Ran_tool (t_name t) (pc_key p) (pc_input p) (tool_readonly t)])"
  shows "pres (holds P Q) (run_allowed env c inp t p)"
proof -
  have tool: "pres P (t_execute t v cx)" for v cx using st t by (simp add: steady_def env_keeps_def)
  have acq: "pres (holds P Q) (acquire_slot env)"
    using quota by (auto simp: pres_def holds_def acquire_slot_def split: option.splits prod.splits)
  have exec: "pres (holds P Q) (execute_call env t p cx)" for cx
    unfolding execute_call_def
    by (rule pres_always) (auto intro!: pres_intros pres_act ran pres_on_world tool simp: holds_def give_back_slot_def quota)
  show ?thesis
    unfolding run_allowed_def
    by (auto intro!: pres_chain acq pres_option pres_deny [OF st] pres_await [OF st] exec pres_hook [OF st] pres_ret
        split: prod.split)
qed

section \<open>Through a turn\<close>

definition turn_keeps :: "'x engine_env \<Rightarrow> ('x world \<Rightarrow> bool) \<Rightarrow> (act list \<Rightarrow> bool) \<Rightarrow> bool" where
  "turn_keeps env P Q \<longleftrightarrow>
     steady env P Q \<and> calls_keep env P Q \<and>
     (\<forall>w h db. P w \<longrightarrow> P (w\<lparr>w_handle := h, w_db := db\<rparr>)) \<and> (\<forall>w m. P w \<longrightarrow> P (w\<lparr>w_mail := Some m\<rparr>)) \<and>
     (\<forall>w q x. P w \<longrightarrow> w_quota w = Some q \<longrightarrow> P (w\<lparr>w_quota := Some (snd (add_token_spend (w_now w) x q))\<rparr>))"

lemma turn_keepsD:
  assumes "turn_keeps env P Q"
  shows "steady env P Q" "calls_keep env P Q" "P w \<Longrightarrow> P (w\<lparr>w_handle := h, w_db := db\<rparr>)" "P w \<Longrightarrow> P (w\<lparr>w_mail := Some m\<rparr>)"
    "P w \<Longrightarrow> w_quota w = Some q \<Longrightarrow> P (w\<lparr>w_quota := Some (snd (add_token_spend (w_now w) x q))\<rparr>)"
  using assms by (simp_all add: turn_keeps_def)

lemma pres_append: "turn_keeps env P Q \<Longrightarrow> pres (holds P Q) (session_append m)"
  unfolding session_append_def by (rule pres_world_read) (auto dest: turn_keepsD(3) split: sum.split prod.split)

lemma pres_mark: "turn_keeps env P Q \<Longrightarrow> pres (holds P Q) (session_mark t st)"
  unfolding session_mark_def by (rule pres_world_read) (auto dest: turn_keepsD(3) split: sum.split prod.split)

lemma pres_account:
  assumes "steady env P Q"
  shows "pres (holds P Q) (account env rs)"
proof (rule presI)
  fix r assume r: "holds P Q r"
  note c = pres_count [OF assms]
  have "pres (holds P Q) (chain (if u then count_metric env n1 1 else ret ()) (\<lambda>_.
      chain (count_metric env n2 1) (\<lambda>_. chain (count_metric env n3 x3) (\<lambda>_. chain (count_metric env n4 x4) (\<lambda>_.
      chain (if 0 < cost then count_metric env n5 cost else ret ()) (\<lambda>_. ret cost))))))" for u n1 n2 n3 x3 n4 x4 cost n5
    by (intro pres_intros c)
  from presD [OF this r] show "holds P Q (snd (account env rs r))"
    by (simp add: account_def Let_def split: prod.split)
qed

lemma pres_record_answer: "turn_keeps env P Q \<Longrightarrow> pres (holds P Q) (record_answer rs)"
  unfolding record_answer_def by (intro pres_chain pres_modify pres_append) (simp_all add: holds_def)

lemma pres_charge_gen:
  assumes st: "steady env P Q"
    and quota: "\<And>w q x. P w \<Longrightarrow> w_quota w = Some q \<Longrightarrow> P (w\<lparr>w_quota := Some (snd (add_token_spend (w_now w) x q))\<rparr>)"
  shows "pres (holds P Q) (charge env cost)"
proof (rule presI)
  fix r assume r: "holds P Q r"
  show "holds P Q (snd (charge env cost r))"
  proof (cases "w_quota (r_world r)")
    case None
    with r show ?thesis by (simp add: charge_def ret_def)
  next
    case (Some q)
    obtain e q' where q': "add_token_spend (w_now (r_world r)) cost q = (e, q')" by fastforce
    define r1 where "r1 = r\<lparr>r_world := (r_world r)\<lparr>w_quota := Some q'\<rparr>\<rparr>"
    have r1: "holds P Q r1"
      using quota [OF _ Some, of cost] r q' by (simp add: holds_def r1_def)
    have k: "pres (holds P Q) (if b then ret False else chain (count_metric env n 1) (\<lambda>_. ret True))" for b n
      by (intro pres_intros pres_count [OF st])
    show ?thesis
    proof (cases "0 < cost")
      case True
      then have "charge env cost r =
          (if e = None then ret False
           else chain (count_metric env ''declaragent.provider.spend_capped_total'' 1) (\<lambda>_. ret True)) r1"
        by (simp add: charge_def Some q' chain_def [of "modify _"] modify_def r1_def)
      then show ?thesis using presD [OF k r1] by metis
    next
      case False
      with Some r show ?thesis by (simp add: charge_def ret_def)
    qed
  qed
qed

lemma pres_charge: "turn_keeps env P Q \<Longrightarrow> pres (holds P Q) (charge env cost)"
  by (rule pres_charge_gen) (auto dest: turn_keepsD(1,5))

lemma pres_tool_round: "turn_keeps env P Q \<Longrightarrow> pres (holds P Q) (tool_round env c inp uses)"
  unfolding tool_round_def
  by (auto intro!: pres_chain pres_run_blocks pres_append pres_ret dest: turn_keepsD(1,2) split: prod.split)
    (auto simp: pres_def ret_def)

lemma pres_call_llm:
  assumes "steady env P Q" "\<And>as rq. Q as \<Longrightarrow> Q (as @ [Called_llm rq])"
  shows "pres (holds P Q) (call_llm env)"
proof (rule presI)
  fix r assume r: "holds P Q r"
  then have r1: "holds P Q (r\<lparr>r_iters := r_iters r + 1\<rparr>)" by (simp add: holds_def)
  have "pres P (e_provider env rq)" for rq using assms(1) by (simp add: steady_def env_keeps_def)
  then have "pres (holds P Q) (chain (act (Called_llm rq)) (\<lambda>_. catch (on_world (e_provider env rq)) (\<lambda>e.
      chain (count_metric env n 1) (\<lambda>_. throw e))))" for rq n
    by (intro pres_intros pres_act pres_on_world pres_count assms)
  from presD [OF this r1] show "holds P Q (snd (call_llm env r))" by (simp add: call_llm_def Let_def)
qed

text \<open>An iteration after its LLM call, and a whole one.\<close>

definition after_call :: "'x engine_env \<Rightarrow> turn_context \<Rightarrow> run_input \<Rightarrow> llm_response \<Rightarrow> ('x run, run_stop option) prog" where
  "after_call env c inp rs =
     chain (account env rs) (\<lambda>cost. chain (record_answer rs) (\<lambda>_. chain (charge env cost) (\<lambda>capped.
       if capped then ret (Some R_quota_exceeded)
       else if rs_stop rs \<noteq> Stop_tool_use then ret (Some (if rs_stop rs = Stop_error then R_error else R_end_turn))
       else tool_round env c inp (filter is_tool_use (rs_content rs)))))"

lemma iteration_after: "iteration env c inp = chain (call_llm env) (after_call env c inp)"
  unfolding iteration_def after_call_def by (rule arg_cong [where f = "chain (call_llm env)"]) (rule ext, rule refl)

lemma pres_after_call: "turn_keeps env P Q \<Longrightarrow> pres (holds P Q) (after_call env c inp rs)"
  unfolding after_call_def
  by (intro pres_chain pres_if pres_ret pres_tool_round pres_charge pres_record_answer pres_account) (auto dest: turn_keepsD(1))

lemma pres_run_loop:
  assumes t: "turn_keeps env P Q" and q: "\<And>as rq. Q as \<Longrightarrow> Q (as @ [Called_llm rq])"
  shows "pres (holds P Q) (run_loop n env c inp)"
proof (induction n)
  case 0
  show ?case by (simp add: pres_def ret_def)
next
  case (Suc n)
  have "pres (holds P Q) (iteration env c inp)"
    unfolding iteration_after by (intro pres_chain pres_call_llm pres_after_call turn_keepsD(1) [OF t] t q)
  then have step: "pres (holds P Q) (chain (iteration env c inp)
      (\<lambda>s. case s of Some st \<Rightarrow> ret (Some st) | None \<Rightarrow> run_loop n env c inp))"
    by (intro pres_chain pres_option pres_ret Suc.IH)
  show ?case by (rule presI) (simp add: ret_def presD [OF step])
qed

lemma pres_append_events: "turn_keeps env P Q \<Longrightarrow> pres (holds P Q) (append_events env es)"
  by (induction es) (auto intro!: pres_intros pres_append split: sum.split)

lemma pres_inject_mail: "turn_keeps env P Q \<Longrightarrow> pres (holds P Q) (inject_mail env)"
  unfolding inject_mail_def take_mail_def
  by (intro pres_catch pres_chain pres_world_read pres_append_events pres_ret)
    (auto dest: turn_keepsD(4) split: option.split prod.split)

lemma pres_finish_gen:
  assumes st: "steady env P Q" and mark: "\<And>t s. pres (holds P Q) (session_mark t s)"
  shows "pres (holds P Q) (finish_turn env c stop err)"
proof (rule presI)
  fix r assume r: "holds P Q r"
  have obs: "pres (holds P Q) (act (Observed n x))" for n x using st by (intro pres_act) (simp add: steady_def)
  have "pres (holds P Q) (chain (if e_metrics env then act (Observed n1 x1) else ret ()) (\<lambda>_.
      chain (if b2 then count_metric env n2 1 else ret ()) (\<lambda>_. chain (session_mark (tc_turn c) s3) (\<lambda>_.
      chain (fire_hook env Turn_end x4) (\<lambda>_. chain (case last of None \<Rightarrow> ret ()
        | Some m \<Rightarrow> chain (let t = extract_assistant_text (msg_content m)
             in if t \<noteq> [] then publish_event env c i5 Assistant_message (message_payload c t) else ret ()) (\<lambda>_.
             publish_event env c i6 Assistant_final (x6 m))) (\<lambda>_. ret res))))))" for n1 x1 b2 n2 s3 x4 last i5 i6 x6 res
    unfolding Let_def
    by (intro pres_intros obs pres_count [OF st] mark pres_hook [OF st] pres_publish [OF st])
  note final = presD [OF this r, unfolded Let_def]
  show "holds P Q (snd (finish_turn env c stop err r))"
    unfolding finish_turn_def Let_def by (rule final)
qed

lemma pres_finish: "turn_keeps env P Q \<Longrightarrow> pres (holds P Q) (finish_turn env c stop err)"
  by (rule pres_finish_gen) (auto dest: turn_keepsD(1) intro: pres_mark)

lemma pres_run_agent:
  assumes t: "turn_keeps env P Q" and q: "\<And>as rq. Q as \<Longrightarrow> Q (as @ [Called_llm rq])"
  shows "pres (holds P Q) (run_agent env inp)"
proof (rule presI)
  fix r assume r: "holds P Q r"
  note st = turn_keepsD(1) [OF t]
  have body: "pres (holds P Q) (turn_body n env c inp)" for n c
    unfolding turn_body_def by (intro pres_intros pres_run_loop [OF t q])
  have "pres (holds P Q) (chain (fire_hook env Turn_start x1) (\<lambda>_. chain (publish_event env c i2 Turn_started x2) (\<lambda>_.
      chain (inject_mail env) (\<lambda>_. chain (session_append m) (\<lambda>_. chain (turn_body n env c inp) (\<lambda>(stop, err).
      finish_turn env c stop err))))))" for x1 c i2 x2 m n
    by (auto intro!: pres_chain pres_hook [OF st] pres_publish [OF st] pres_inject_mail [OF t] pres_append [OF t] body
        pres_finish [OF t] split: prod.split)
  from presD [OF this r] r show "holds P Q (snd (run_agent env inp r))" by (simp add: run_agent_def Let_def ret_def)
qed

section \<open>Denied calls\<close>

definition same_rules :: "gate \<Rightarrow> 'x world \<Rightarrow> bool" where
  "same_rules g w \<longleftrightarrow> gate_rules (w_gate w) = gate_rules g \<and> gate_mode (w_gate w) = gate_mode g"

definition runs_permitted :: "'x engine_env \<Rightarrow> gate \<Rightarrow> act list \<Rightarrow> bool" where
  "runs_permitted env g as \<longleftrightarrow> (\<forall>t k v ro. Ran_tool t k v ro \<in> set as \<longrightarrow> may_run env (check g t k ro))"

lemma permitted_snoc: "runs_permitted env g (as @ [a]) \<longleftrightarrow>
    runs_permitted env g as \<and> (\<forall>t k v ro. a = Ran_tool t k v ro \<longrightarrow> may_run env (check g t k ro))"
  by (auto simp: runs_permitted_def)

lemma permitted_turn_keeps:
  assumes "env_keeps env (same_rules g)"
  shows "turn_keeps env (same_rules g) (runs_permitted env g)"
proof -
  have st: "steady env (same_rules g) (runs_permitted env g)"
    using assms by (auto simp: steady_def permitted_snoc same_rules_def record_denial_def)
  have "pres (holds (same_rules g) (runs_permitted env g)) (run_allowed env c inp t p)"
    if "t \<in> set (e_tools env)" "same_rules g w" "may_run env (check (w_gate w) (t_name t) (pc_key p) (tool_readonly t))" for c inp t p w
  proof (rule pres_run_allowed [OF st])
    have "check (w_gate w) (t_name t) (pc_key p) (tool_readonly t) = check g (t_name t) (pc_key p) (tool_readonly t)"
      by (rule check_cong) (use that(2) in \<open>simp_all add: same_rules_def\<close>)
    then show "runs_permitted env g (as @ [Ran_tool (t_name t) (pc_key p) (pc_input p) (tool_readonly t)])"
      if "runs_permitted env g as" for as
      using that \<open>may_run env _\<close> by (simp add: permitted_snoc)
  qed (use that in \<open>simp_all add: same_rules_def\<close>)
  then have "calls_keep env (same_rules g) (runs_permitted env g)" unfolding calls_keep_def by blast
  with st show ?thesis by (simp add: turn_keeps_def same_rules_def)
qed

section \<open>Quota slots\<close>

definition slots :: "'x world \<Rightarrow> nat option" where
  "slots w = map_option tool_calls (w_quota w)"

definition slots_are :: "nat option \<Rightarrow> 'x world \<Rightarrow> bool" where
  "slots_are n w \<longleftrightarrow> slots w = n"

lemma spend_keeps_slots: "tool_calls (snd (add_token_spend now a q)) = tool_calls q"
  by (auto simp: add_token_spend_def Let_def trip_if_exceeded_def emit_breach_def split: option.splits)

lemma acquire_slot_slots:
  "acquire_slot env r = (v, r1) \<Longrightarrow> \<exists>b. v = Inr b \<and>
     slots (r_world r1) = (if b = None then map_option Suc (slots (r_world r)) else slots (r_world r))"
  by (auto simp: acquire_slot_def slots_def acquire_tool_call_def Let_def trip_if_exceeded_def emit_breach_def
      split: option.splits if_splits prod.splits)

lemma give_back_slots: "slots (r_world r) = map_option Suc n \<Longrightarrow> slots (r_world (give_back_slot r)) = n"
  by (cases "w_quota (r_world r)"; cases n) (auto simp: slots_def give_back_slot_def release_tool_call_def)

lemma slots_steady: "env_keeps env (slots_are n) \<Longrightarrow> steady env (slots_are n) (\<lambda>as. True)"
  by (simp add: steady_def slots_are_def slots_def)

lemma slots_run_allowed:
  assumes env: "\<And>n. env_keeps env (slots_are n)" and t: "t \<in> set (e_tools env)"
  shows "pres (holds (slots_are n) (\<lambda>as. True)) (run_allowed env c inp t p)"
proof (rule presI)
  fix r :: "'a run"
  let ?H = "\<lambda>n. holds (slots_are n) (\<lambda>as. True) :: 'a run \<Rightarrow> bool"
  assume r: "?H n r"
  note st = slots_steady [OF env]
  obtain v r1 where v: "acquire_slot env r = (v, r1)" by fastforce
  obtain b where b: "v = Inr b" "slots (r_world r1) = (if b = None then map_option Suc n else n)"
    using acquire_slot_slots [OF v] r by (auto simp: holds_def slots_are_def)
  have tool: "pres (slots_are m) (t_execute t x cx)" for m x cx
    using env [of m] t by (simp add: env_keeps_def)
  have exec: "?H n (snd (execute_call env t p cx r2))" if r2: "?H (map_option Suc n) r2" for cx r2
  proof -
    have "pres (?H (map_option Suc n)) (chain (act (Ran_tool (t_name t) (pc_key p) (pc_input p) (tool_readonly t))) (\<lambda>_.
             chain (on_world (t_execute t (pc_input p) cx)) (\<lambda>es. ret (drain_events es JUndef None))))"
      by (intro pres_intros pres_act pres_on_world tool)
    from presD [OF this r2] show ?thesis
      by (auto simp: execute_call_def always_def holds_def slots_are_def give_back_slots split: prod.split)
  qed
  show "?H n (snd (run_allowed env c inp t p r))"
  proof (cases b)
    case None
    then have r1: "?H (map_option Suc n) r1" using b by (simp add: holds_def slots_are_def)
    let ?cx = "tool_ctx env c inp"
    obtain v2 r2 where v2: "await_rate_limit env t ?cx r1 = (v2, r2)" by fastforce
    have r2: "?H (map_option Suc n) r2" using presD [OF pres_await [OF st] r1, of t ?cx] v2 by simp
    have v2': "v2 = Inr ()"
      using v2 by (auto simp: await_rate_limit_def ret_def catch_def split: option.splits prod.splits sum.splits)
    obtain v3 r3 where v3: "execute_call env t p ?cx r2 = (v3, r3)" by fastforce
    have r3: "?H n r3" using exec [OF r2, of ?cx] v3 by simp
    have fin: "pres (?H n) (case x of (out, err) \<Rightarrow>
        chain (fire_hook env Tool_after (Tool_after_of \<lparr>cc_call = p, cc_output = out, cc_error = err\<rparr> c)) (\<lambda>_. ret (f x)))"
      for x and f :: "_ \<Rightarrow> message_content"
      by (auto intro!: pres_intros pres_hook [OF st] split: prod.split)
    show ?thesis
    proof (cases v3)
      case (Inl e)
      then show ?thesis
        using None b v v2 v2' v3 r3 by (simp add: run_allowed_def chain_def)
    next
      case (Inr x)
      have "run_allowed env c inp t p r =
          (case x of (out, err) \<Rightarrow>
             chain (fire_hook env Tool_after (Tool_after_of \<lparr>cc_call = p, cc_output = out, cc_error = err\<rparr> c))
              (\<lambda>_. ret ((\<lambda>(out, err). case err of
                  Some e \<Rightarrow> error_tool_result (pc_id p) (te_message e) (te_code e)
                | None \<Rightarrow> output_result env (pc_id p) out) x))) r3"
        using None b v v2 v2' v3 Inr
        by (simp add: run_allowed_def chain_def [of "acquire_slot env"] chain_def [of "await_rate_limit _ _ _"]
            chain_def [of "execute_call _ _ _ _"] split: prod.split)
      then show ?thesis by (simp only:) (rule presD [OF fin r3])
    qed
  next
    case (Some msg)
    then have r1: "?H n r1" using b by (simp add: holds_def slots_are_def)
    have "pres (?H n) (chain deny_call (\<lambda>_. ret (error_tool_result (pc_id p) msg (Some ''EQUOTA''))))"
      by (intro pres_intros pres_deny [OF st])
    from presD [OF this r1] Some b v show ?thesis by (simp add: run_allowed_def chain_def [of "acquire_slot env"])
  qed
qed

lemma slots_turn_keeps:
  assumes "\<And>n. env_keeps env (slots_are n)"
  shows "turn_keeps env (slots_are n) (\<lambda>as. True)"
proof -
  have "calls_keep env (slots_are n) (\<lambda>as. True)"
    unfolding calls_keep_def using slots_run_allowed [OF assms] by blast
  then show ?thesis
    using slots_steady [OF assms] by (auto simp: turn_keeps_def slots_are_def slots_def spend_keeps_slots)
qed

section \<open>Calls of the provider\<close>

definition llm_calls :: "act list \<Rightarrow> nat" where
  "llm_calls as = length (filter (\<lambda>a. case a of Called_llm rq \<Rightarrow> True | _ \<Rightarrow> False) as)"

lemma llm_calls_snoc: "llm_calls (as @ [a]) = llm_calls as + (case a of Called_llm rq \<Rightarrow> 1 | _ \<Rightarrow> 0)"
  by (simp add: llm_calls_def split: act.split)

definition calls_are :: "nat \<Rightarrow> act list \<Rightarrow> bool" where
  "calls_are k as \<longleftrightarrow> llm_calls as = k"

lemma trivial_env: "env_keeps env (\<lambda>w. True)"
  by (simp add: env_keeps_def pres_def)

lemma calls_turn_keeps: "turn_keeps env (\<lambda>w. True) (calls_are k)"
proof -
  have st: "steady env (\<lambda>w. True) (calls_are k)"
    by (simp add: steady_def trivial_env calls_are_def llm_calls_snoc)
  have "calls_keep env (\<lambda>w. True) (calls_are k)"
    unfolding calls_keep_def by (auto intro!: pres_run_allowed [OF st] simp: calls_are_def llm_calls_snoc)
  with st show ?thesis by (simp add: turn_keeps_def)
qed

abbreviation calls_of :: "'x run \<Rightarrow> nat" where
  "calls_of r \<equiv> llm_calls (r_acts r)"

lemma calls_kept: "(\<And>k. pres (holds (\<lambda>w. True) (calls_are k)) m) \<Longrightarrow> calls_of (snd (m r)) = calls_of r"
  using presD [of "holds (\<lambda>w. True) (calls_are (calls_of r))" m r] by (simp add: holds_def calls_are_def)

lemma call_llm_calls: "calls_of (snd (call_llm env r)) = calls_of r + 1"
proof -
  have st: "steady env (\<lambda>w. True) (calls_are k)" for k by (rule turn_keepsD(1) [OF calls_turn_keeps])
  have rest: "pres (holds (\<lambda>w. True) (calls_are k)) (catch (on_world (e_provider env rq)) (\<lambda>e.
      chain (count_metric env n 1) (\<lambda>_. throw e)))" for k rq n
    by (intro pres_intros pres_on_world pres_count [OF st]) (simp add: pres_def)
  show ?thesis
    unfolding call_llm_def Let_def chain_def [of "act _"] using calls_kept [OF rest]
    by (simp add: act_def modify_def llm_calls_snoc)
qed

lemma iteration_calls: "calls_of (snd (iteration env c inp r)) = calls_of r + 1"
proof -
  have "calls_of (snd (after_call env c inp rs r')) = calls_of r'" for rs r'
    by (rule calls_kept) (rule pres_after_call [OF calls_turn_keeps])
  then show ?thesis
    using call_llm_calls [of env r] by (auto simp: iteration_after chain_def split: prod.split sum.split)
qed

lemma run_loop_calls:
  "run_loop n env c inp r = (v, r') \<Longrightarrow> calls_of r' \<le> calls_of r + n \<and> (if v = Inr None then calls_of r' = calls_of r + n else True)"
proof (induction n arbitrary: r)
  case 0
  then show ?case by (auto simp: ret_def)
next
  case (Suc n)
  obtain v1 r1 where v1: "iteration env c inp r = (v1, r1)" by fastforce
  have c1: "calls_of r1 = calls_of r + 1" using iteration_calls [of env c inp r] v1 by simp
  show ?case
  proof (cases "w_aborted (r_world r)")
    case True
    with Suc.prems show ?thesis by (auto simp: ret_def)
  next
    case False
    show ?thesis
    proof (cases "v1 = Inr None")
      case True
      with Suc.prems False v1 have "run_loop n env c inp r1 = (v, r')" by (simp add: chain_def)
      from Suc.IH [OF this] c1 show ?thesis by (auto split: if_splits)
    next
      case no: False
      with Suc.prems False v1 have "r' = r1 \<and> v \<noteq> Inr None"
        by (auto simp: chain_def ret_def split: sum.splits option.splits)
      with c1 show ?thesis by auto
    qed
  qed
qed

lemma turn_body_calls:
  assumes "turn_body n env c inp r = (v, r')"
  shows "\<exists>st err. v = Inr (st, err) \<and> calls_of r' \<le> calls_of r + n \<and>
           (if st = R_max_iterations then calls_of r' = calls_of r + n else True)"
proof -
  obtain v1 r1 where v1: "run_loop n env c inp r = (v1, r1)" by fastforce
  note c = run_loop_calls [OF v1]
  have no_max: "x \<noteq> R_max_iterations" if "v1 = Inr (Some x)" for x
    using v1 that
  proof (induction n arbitrary: r)
    case (Suc n)
    obtain v2 r2 where v2: "iteration env c inp r = (v2, r2)" by fastforce
    have it: "y \<noteq> R_max_iterations" if "v2 = Inr (Some y)" for y
      using v2 that
      by (auto simp: iteration_def chain_def tool_round_def ret_def split: prod.splits sum.splits if_splits)
    show ?case using Suc v2 it by (auto simp: chain_def ret_def split: prod.splits sum.splits option.splits if_splits)
  qed (simp add: ret_def)
  show ?thesis
    using assms v1 c no_max
    by (auto simp: turn_body_def catch_def chain_def ret_def split: sum.splits option.splits)
qed

section \<open>Answers to tool calls\<close>

definition is_result :: "message_content \<Rightarrow> bool" where
  "is_result c = (case c of Tool_result i t e \<Rightarrow> True | _ \<Rightarrow> False)"

definition asks :: "message \<Rightarrow> bool" where
  "asks m \<longleftrightarrow> Option.bind (msg_meta m) meta_stop = Some Stop_tool_use"

definition uses_of :: "message \<Rightarrow> message_content list" where
  "uses_of m = filter is_tool_use (msg_content m)"

text \<open>The message \<open>u\<close> has one result for every tool call of \<open>m\<close>, in the same order.\<close>

definition answers_uses :: "message \<Rightarrow> message \<Rightarrow> bool" where
  "answers_uses m u \<longleftrightarrow>
     msg_role u = User \<and> map result_for (msg_content u) = map use_id (uses_of m) \<and> list_all is_result (msg_content u)"

text \<open>Answers of the assistant, each one that asks for tools followed by the results; only the last does not ask.\<close>

fun answered :: "message list \<Rightarrow> bool" where
  "answered [] = True"
| "answered (m # ms) =
     (msg_role m = Assistant \<and>
      (if \<not> asks m then ms = []
       else if uses_of m = [] then answered ms
       else (case ms of [] \<Rightarrow> False | u # us \<Rightarrow> answers_uses m u \<and> answered us)))"

definition results_for :: "message_content list \<Rightarrow> message_content list \<Rightarrow> bool" where
  "results_for bs rs \<longleftrightarrow> map result_for rs = map use_id bs \<and> list_all is_result rs"

lemma result_shapes [simp]:
  "result_for (error_tool_result i msg tag) = i" "is_result (error_tool_result i msg tag)"
  "result_for (output_result env i v) = i" "is_result (output_result env i v)"
  "result_for (abort_result b) = use_id b" "is_result (abort_result b)"
  by (simp_all add: error_tool_result_def output_result_def abort_result_def is_result_def)

lemma run_allowed_answers:
  "yields (\<lambda>x. result_for x = pc_id p \<and> is_result x) (run_allowed env c inp t p)"
  unfolding run_allowed_def
  by (intro yields_chain yields_option) (auto intro!: yields_intros split: prod.split option.split)

lemma check_and_run_answers:
  "yields (\<lambda>(x, e). result_for x = pc_id p \<and> is_result x) (check_and_run env c inp t p)"
  unfolding yields_def
  by (auto simp: check_and_run_def chain_def ret_def split: prod.splits sum.splits if_splits
      dest!: yieldsD [OF run_allowed_answers])

lemma run_block_answers: "yields (\<lambda>(x, e). result_for x = use_id b \<and> is_result x) (run_block env c inp b)"
proof -
  have "yields (\<lambda>(x, e). result_for x = use_id b \<and> is_result x) (check_and_run env c inp t p)" if "pc_id p = use_id b" for t p
    using check_and_run_answers [of p env c inp t] that by simp
  then show ?thesis
    unfolding run_block_def Let_def
    by (auto intro!: yields_intros split: option.split sum.split)
qed

lemma run_blocks_answer:
  "run_blocks env c inp bs esc ab acc r = (Inr (rs, e, a), r') \<Longrightarrow> \<exists>new. rs = acc @ new \<and> results_for bs new"
proof (induction bs arbitrary: esc ab acc r)
  case Nil
  then show ?case by (auto simp: ret_def results_for_def)
next
  case (Cons b bs)
  have go: ?case if "run_blocks env c inp bs esc' ab' (acc @ [x]) r1 = (Inr (rs, e, a), r')"
      "result_for x = use_id b" "is_result x" for esc' ab' x r1
    using Cons.IH [OF that(1)] that(2,3) by (auto simp: results_for_def)
  show ?case
  proof (cases "esc \<or> ab \<or> w_aborted (r_world r)")
    case True
    then have "\<exists>ab'. run_blocks env c inp bs esc ab' (acc @ [abort_result b]) r = (Inr (rs, e, a), r')"
      using Cons.prems by (auto split: if_splits)
    then show ?thesis using go [where x = "abort_result b"] by auto
  next
    case False
    obtain v r1 where v: "run_block env c inp b r = (v, r1)" by fastforce
    show ?thesis
    proof (cases v)
      case (Inl x)
      with Cons.prems False v show ?thesis by (simp add: chain_def)
    next
      case (Inr y)
      obtain x e1 where y: "y = (x, e1)" by (cases y)
      have "run_blocks env c inp bs e1 ab (acc @ [x]) r1 = (Inr (rs, e, a), r')"
        using Cons.prems False v Inr y by (simp add: chain_def)
      moreover have "result_for x = use_id b" "is_result x"
        using yieldsD [OF run_block_answers v [unfolded Inr y]] by simp_all
      ultimately show ?thesis by (rule go)
    qed
  qed
qed

section \<open>The transcript of a turn\<close>

abbreviation transcript :: "'x run \<Rightarrow> message list" where
  "transcript r \<equiv> h_messages (w_handle (r_world r))"

definition transcript_is :: "message list \<Rightarrow> 'x world \<Rightarrow> bool" where
  "transcript_is ms w \<longleftrightarrow> h_messages (w_handle w) = ms"

lemma transcript_steady: "env_keeps env (transcript_is ms) \<Longrightarrow> steady env (transcript_is ms) (\<lambda>as. True)"
  by (simp add: steady_def transcript_is_def)

lemma transcript_calls_keep: "env_keeps env (transcript_is ms) \<Longrightarrow> calls_keep env (transcript_is ms) (\<lambda>as. True)"
  unfolding calls_keep_def by (auto intro!: pres_run_allowed transcript_steady simp: transcript_is_def)

lemma transcript_kept:
  "(\<And>ms. pres (holds (transcript_is ms) (\<lambda>as. True)) m) \<Longrightarrow> transcript (snd (m r)) = transcript r"
  using presD [of "holds (transcript_is (transcript r)) (\<lambda>as. True)" m r] by (simp add: holds_def transcript_is_def)

lemma session_append_transcript:
  "session_append m r = (v, r') \<Longrightarrow> transcript r' = (if v = Inr () then transcript r @ [m] else transcript r)"
  by (auto simp: session_append_def on_world_def append_message_def Let_def split: if_splits)

lemma mark_keeps_transcript: "pres (holds (transcript_is ms) Q) (session_mark t st)"
  by (auto simp: pres_def holds_def transcript_is_def session_mark_def on_world_def mark_turn_def Let_def)

lemma record_answer_transcript:
  "record_answer rs r = (v, r') \<Longrightarrow> transcript r' = (if v = Inr () then transcript r @ [assistant_message rs] else transcript r)"
  by (auto simp: record_answer_def chain_def modify_def dest!: session_append_transcript)

lemma assistant_shape [simp]:
  "msg_role (assistant_message rs) = Assistant" "asks (assistant_message rs) \<longleftrightarrow> rs_stop rs = Stop_tool_use"
  "uses_of (assistant_message rs) = filter is_tool_use (rs_content rs)"
  by (simp_all add: assistant_message_def asks_def uses_of_def)

lemma tool_round_transcript:
  assumes env: "\<And>ms. env_keeps env (transcript_is ms)" and "tool_round env c inp uses r = (Inr s, r')"
  shows "\<exists>us. transcript r' = transcript r @ us \<and> s \<in> {None, Some R_permission_escalated, Some R_aborted} \<and>
           (if uses = [] then us = [] else \<exists>u. us = [u] \<and> msg_role u = User \<and> results_for uses (msg_content u))"
proof -
  obtain v r1 where v: "run_blocks env c inp uses False False [] r = (v, r1)" by fastforce
  have t1: "transcript r1 = transcript r"
    using transcript_kept [OF pres_run_blocks [OF transcript_steady [OF env] transcript_calls_keep [OF env]], of c inp uses False False "[]" r] v
    by simp
  obtain rs e a where rs: "v = Inr (rs, e, a)"
    using assms(2) v by (cases v) (auto simp: tool_round_def chain_def)
  have res: "results_for uses rs" using run_blocks_answer [OF v [unfolded rs]] by simp
  define u where "u = \<lparr>msg_role = User, msg_content = rs, msg_meta = None\<rparr>"
  obtain v2 r2 where v2: "(if rs \<noteq> [] then session_append u else ret ()) r1 = (v2, r2)" by fastforce
  have "(case (if rs \<noteq> [] then session_append u else ret ()) r1 of (Inl x, s') \<Rightarrow> (Inl x, s')
      | (Inr x, s') \<Rightarrow> (Inr (if e then Some R_permission_escalated else if a \<or> w_aborted (r_world s') then Some R_aborted
                             else None), s')) = (Inr s, r')"
    using assms(2) unfolding tool_round_def chain_def v rs ret_def u_def by (simp only: prod.case sum.case)
  then have s: "v2 = Inr ()" "r' = r2"
      "s = (if e then Some R_permission_escalated else if a \<or> w_aborted (r_world r2) then Some R_aborted else None)"
    unfolding v2 by (cases v2; simp)+
  have len: "rs = [] \<longleftrightarrow> uses = []" using res unfolding results_for_def by (metis map_is_Nil_conv)
  show ?thesis
  proof (cases "uses = []")
    case True
    then show ?thesis using v2 s t1 len by (auto simp: ret_def)
  next
    case False
    then have "transcript r2 = transcript r1 @ [u]" using v2 s len session_append_transcript [of u r1] by simp
    then show ?thesis using False s t1 res by (auto simp: u_def)
  qed
qed

lemma after_call_transcript:
  assumes env: "\<And>ms. env_keeps env (transcript_is ms)" and run: "after_call env c inp rs r = (Inr s, r')"
    and s: "s \<noteq> Some R_error" "s \<noteq> Some R_quota_exceeded"
  shows "\<exists>body. transcript r' = transcript r @ body \<and> body \<noteq> [] \<and> answered body \<and>
           (s = None \<longrightarrow> (\<forall>rest. answered rest \<longrightarrow> answered (body @ rest)))"
proof -
  note st = transcript_steady [OF env]
  obtain v1 r1 where v1: "account env rs r = (v1, r1)" by fastforce
  have t1: "transcript r1 = transcript r" using transcript_kept [OF pres_account [OF st], of rs r] v1 by simp
  obtain cost where cost: "v1 = Inr cost" using run v1 by (cases v1) (auto simp: after_call_def chain_def)
  obtain v2 r2 where v2: "record_answer rs r1 = (v2, r2)" by fastforce
  have v2': "v2 = Inr ()" using run v1 cost v2 by (cases v2) (auto simp: after_call_def chain_def)
  have t2: "transcript r2 = transcript r @ [assistant_message rs]"
    using record_answer_transcript [OF v2] v2' t1 by simp
  obtain v3 r3 where v3: "charge env cost r2 = (v3, r3)" by fastforce
  have "pres (holds (transcript_is ms) (\<lambda>as. True)) (charge env cost)" for ms
    by (rule pres_charge_gen [OF st]) (simp add: transcript_is_def)
  from transcript_kept [OF this, of r2] v3 have t3: "transcript r3 = transcript r2" by simp
  have v3': "v3 = Inr False"
    using run v1 cost v2 v2' v3 s(2) by (cases v3) (auto simp: after_call_def chain_def ret_def split: if_splits)
  have rest: "(if rs_stop rs \<noteq> Stop_tool_use then ret (Some (if rs_stop rs = Stop_error then R_error else R_end_turn))
       else tool_round env c inp (filter is_tool_use (rs_content rs))) r3 = (Inr s, r')"
    using run v1 cost v2 v2' v3 v3' by (simp add: after_call_def chain_def)
  show ?thesis
  proof (cases "rs_stop rs = Stop_tool_use")
    case False
    then have "r' = r3" "s \<noteq> None" using rest by (auto simp: ret_def)
    then show ?thesis using t2 t3 False by (intro exI [of _ "[assistant_message rs]"]) auto
  next
    case True
    let ?uses = "filter is_tool_use (rs_content rs)"
    have "tool_round env c inp ?uses r3 = (Inr s, r')" using rest True by simp
    from tool_round_transcript [OF env this] obtain us where us: "transcript r' = transcript r3 @ us"
        "if ?uses = [] then us = [] else \<exists>u. us = [u] \<and> msg_role u = User \<and> results_for ?uses (msg_content u)"
      by blast
    have "answered ((assistant_message rs # us) @ rest)" if "answered rest" for rest
    proof (cases "?uses = []")
      case no: True
      with us(2) have "us = []" by simp
      with True no that show ?thesis by simp
    next
      case some: False
      with us(2) obtain u where "us = [u]" "msg_role u = User" "results_for ?uses (msg_content u)" by auto
      with True some that show ?thesis by (simp add: answers_uses_def results_for_def)
    qed
    from this this [of "[]"] show ?thesis
      using us(1) t2 t3 True by (intro exI [of _ "assistant_message rs # us"]) simp
  qed
qed

lemma run_loop_transcript:
  assumes env: "\<And>ms. env_keeps env (transcript_is ms)"
  shows "run_loop n env c inp r = (Inr s, r') \<Longrightarrow> s \<noteq> Some R_error \<Longrightarrow> s \<noteq> Some R_quota_exceeded \<Longrightarrow>
     \<exists>body. transcript r' = transcript r @ body \<and> answered body"
proof (induction n arbitrary: r)
  case 0
  then show ?case by (auto simp: ret_def)
next
  case (Suc n)
  show ?case
  proof (cases "w_aborted (r_world r)")
    case True
    with Suc.prems show ?thesis by (auto simp: ret_def)
  next
    case False
    obtain v1 r1 where v1: "call_llm env r = (v1, r1)" by fastforce
    have t1: "transcript r1 = transcript r"
      using transcript_kept [OF pres_call_llm [OF transcript_steady [OF env]], of r] v1 by simp
    obtain rs where rs: "v1 = Inr rs"
      using Suc.prems(1) False v1 by (cases v1) (auto simp: iteration_after chain_def)
    obtain v2 r2 where v2: "after_call env c inp rs r1 = (v2, r2)" by fastforce
    obtain s2 where s2: "v2 = Inr s2"
      using Suc.prems(1) False v1 rs v2 by (cases v2) (auto simp: iteration_after chain_def)
    show ?thesis
    proof (cases s2)
      case None
      have "run_loop n env c inp r2 = (Inr s, r')"
        using Suc.prems(1) False v1 rs v2 s2 None by (simp add: iteration_after chain_def)
      from Suc.IH [OF this Suc.prems(2,3)] obtain rest where rest: "transcript r' = transcript r2 @ rest" "answered rest" by blast
      obtain body where "transcript r2 = transcript r1 @ body" "\<forall>rest. answered rest \<longrightarrow> answered (body @ rest)"
        using after_call_transcript [OF env v2 [unfolded s2]] None by auto
      with rest t1 show ?thesis by (intro exI [of _ "body @ rest"]) simp
    next
      case (Some st)
      have "s = Some st" "r' = r2"
        using Suc.prems(1) False v1 rs v2 s2 Some by (simp_all add: iteration_after chain_def ret_def)
      then show ?thesis
        using after_call_transcript [OF env v2 [unfolded s2]] Some Suc.prems(2,3) t1 by auto
    qed
  qed
qed

lemma append_events_transcript:
  "\<exists>ms. transcript (snd (append_events env es r)) = transcript r @ ms \<and> list_all (\<lambda>m. msg_role m = User) ms"
proof (induction es arbitrary: r)
  case Nil
  then show ?case by (simp add: ret_def)
next
  case (Cons e es)
  show ?case
  proof (cases "frame_event (e_num env) e")
    case (Inl x)
    then show ?thesis by (simp add: chain_def throw_def)
  next
    case (Inr t)
    obtain v r1 where v: "session_append (user_message t) r = (v, r1)" by fastforce
    note t1 = session_append_transcript [OF v]
    show ?thesis
    proof (cases v)
      case (Inl x)
      with Inr v t1 show ?thesis by (simp add: chain_def)
    next
      case (Inr y)
      obtain ms where "transcript (snd (append_events env es r1)) = transcript r1 @ ms" "list_all (\<lambda>m. msg_role m = User) ms"
        using Cons.IH by blast
      then show ?thesis
        using \<open>frame_event _ e = Inr t\<close> Inr v t1
        by (intro exI [of _ "user_message t # ms"]) (simp add: chain_def user_message_def)
    qed
  qed
qed

lemma inject_mail_transcript:
  "\<exists>ms. transcript (snd (inject_mail env r)) = transcript r @ ms \<and> list_all (\<lambda>m. msg_role m = User) ms"
proof -
  obtain v r1 where v: "take_mail r = (v, r1)" by fastforce
  have "transcript r1 = transcript r \<and> (\<exists>es. v = Inr es)"
    using v by (auto simp: take_mail_def on_world_def split: option.splits prod.splits)
  then obtain es where es: "v = Inr es" "transcript r1 = transcript r" by blast
  have "transcript (snd (inject_mail env r)) = transcript (snd (append_events env es r1))"
    using v es by (auto simp: inject_mail_def catch_def chain_def ret_def split: prod.splits sum.splits)
  with append_events_transcript [of env es r1] es show ?thesis by simp
qed

section \<open>The stages of a turn\<close>

lemma finish_turn_stop: "finish_turn env c stop err r = (Inr res, r') \<Longrightarrow> res_stop res = stop \<and> res_error res = err"
proof -
  let ?res = "\<lparr>res_stop = stop, res_input_tokens = r_in r, res_output_tokens = r_out r, res_last = r_last r, res_error = err\<rparr>"
  assume "finish_turn env c stop err r = (Inr res, r')"
  note run = this [unfolded finish_turn_def Let_def]
  have "res = ?res"
    using run by (elim chain_InrE) (simp add: ret_def)
  then show ?thesis by simp
qed

lemma turn_body_loop:
  "turn_body n env c inp r = (Inr (stop, err), r') \<Longrightarrow> stop \<noteq> R_error \<Longrightarrow>
     \<exists>s. run_loop n env c inp r = (Inr s, r') \<and> stop = (case s of None \<Rightarrow> R_max_iterations | Some st \<Rightarrow> st)"
  by (auto simp: turn_body_def catch_def chain_def ret_def split: prod.splits sum.splits)

definition turn_context_of :: "'x engine_env \<Rightarrow> run_input \<Rightarrow> handle \<Rightarrow> turn_context" where
  "turn_context_of env inp h =
     \<lparr>tc_session = h_id h, tc_turn = e_uuid env 0, tc_depth = depth_of inp, tc_caused_by = in_caused_by inp\<rparr>"

definition within_depth :: "run_input \<Rightarrow> handle \<Rightarrow> bool" where
  "within_depth inp h \<longleftrightarrow> depth_of inp \<le> (case subagent_depth_cap (h_spec h) of None \<Rightarrow> 2 | Some n \<Rightarrow> n)"

lemma run_agent_stages:
  assumes "within_depth inp (w_handle (r_world r))"
  shows "run_agent env inp r =
     (let h = w_handle (r_world r); c = turn_context_of env inp h
      in chain (fire_hook env Turn_start (Turn_start_of c)) (\<lambda>_.
         chain (publish_event env c (e_uuid env 1) Turn_started (started_payload c)) (\<lambda>_.
         chain (inject_mail env) (\<lambda>_.
         chain (session_append (user_message (in_message inp))) (\<lambda>_.
         chain (turn_body (iteration_cap env (h_spec h)) env c inp) (\<lambda>(stop, err).
         finish_turn env c stop err))))) r)"
  using assms by (simp add: run_agent_def Let_def turn_context_of_def within_depth_def)

lemma run_agent_too_deep:
  "\<not> within_depth inp (w_handle (r_world r)) \<Longrightarrow> \<exists>res. run_agent env inp r = (Inr res, r) \<and> res_stop res = R_error"
  by (simp add: run_agent_def Let_def ret_def within_depth_def)

lemma turn_transcript:
  assumes env: "\<And>ms. env_keeps env (transcript_is ms)" and run: "run_agent env inp r = (Inr res, r')"
    and stop: "res_stop res \<noteq> R_error" "res_stop res \<noteq> R_quota_exceeded"
  shows "\<exists>mail body. transcript r' = transcript r @ mail @ user_message (in_message inp) # body \<and>
           list_all (\<lambda>m. msg_role m = User) mail \<and> answered body"
proof -
  note st = transcript_steady [OF env]
  define h where "h = w_handle (r_world r)"
  define c where "c = turn_context_of env inp h"
  have ok: "within_depth inp h"
    using run_agent_too_deep [of inp r env] run stop(1) by (auto simp: h_def)
  note stages = run [unfolded run_agent_stages [OF ok [unfolded h_def]] Let_def, folded h_def, folded c_def]
  obtain x1 r1 where 1: "fire_hook env Turn_start (Turn_start_of c) r = (Inr x1, r1)"
    and s1: "chain (publish_event env c (e_uuid env 1) Turn_started (started_payload c)) (\<lambda>_. chain (inject_mail env) (\<lambda>_.
         chain (session_append (user_message (in_message inp))) (\<lambda>_.
         chain (turn_body (iteration_cap env (h_spec h)) env c inp) (\<lambda>(stop, err). finish_turn env c stop err)))) r1 = (Inr res, r')"
    using stages by (rule chain_InrE)
  obtain x2 r2 where 2: "publish_event env c (e_uuid env 1) Turn_started (started_payload c) r1 = (Inr x2, r2)"
    and s2: "chain (inject_mail env) (\<lambda>_. chain (session_append (user_message (in_message inp))) (\<lambda>_.
         chain (turn_body (iteration_cap env (h_spec h)) env c inp) (\<lambda>(stop, err). finish_turn env c stop err))) r2 = (Inr res, r')"
    using s1 by (rule chain_InrE)
  obtain x3 r3 where 3: "inject_mail env r2 = (Inr x3, r3)"
    and s3: "chain (session_append (user_message (in_message inp))) (\<lambda>_.
         chain (turn_body (iteration_cap env (h_spec h)) env c inp) (\<lambda>(stop, err). finish_turn env c stop err)) r3 = (Inr res, r')"
    using s2 by (rule chain_InrE)
  obtain x4 r4 where 4: "session_append (user_message (in_message inp)) r3 = (Inr x4, r4)"
    and s4: "chain (turn_body (iteration_cap env (h_spec h)) env c inp) (\<lambda>(stop, err). finish_turn env c stop err) r4 = (Inr res, r')"
    using s3 by (rule chain_InrE)
  obtain x5 r5 where 5: "turn_body (iteration_cap env (h_spec h)) env c inp r4 = (Inr x5, r5)"
    and s5: "(case x5 of (stop, err) \<Rightarrow> finish_turn env c stop err) r5 = (Inr res, r')"
    using s4 by (rule chain_InrE)
  obtain sp err where x5: "x5 = (sp, err)" by (cases x5)
  have fin: "finish_turn env c sp err r5 = (Inr res, r')" using s5 x5 by simp
  have sp: "sp = res_stop res" using finish_turn_stop [OF fin] by simp
  obtain s where s: "run_loop (iteration_cap env (h_spec h)) env c inp r4 = (Inr s, r5)"
      "sp = (case s of None \<Rightarrow> R_max_iterations | Some st \<Rightarrow> st)"
    using turn_body_loop [OF 5 [unfolded x5]] stop(1) sp by auto
  have no: "s \<noteq> Some R_error" "s \<noteq> Some R_quota_exceeded" using s(2) sp stop by auto
  obtain body where body: "transcript r5 = transcript r4 @ body" "answered body"
    using run_loop_transcript [OF env s(1) no] by blast
  obtain mail where mail: "transcript r3 = transcript r2 @ mail" "list_all (\<lambda>m. msg_role m = User) mail"
    using inject_mail_transcript [of env r2] 3 by auto
  have "transcript r1 = transcript r" using transcript_kept [OF pres_hook [OF st], of Turn_start "Turn_start_of c" r] 1 by simp
  moreover have "transcript r2 = transcript r1" using transcript_kept [OF pres_publish [OF st], of c _ _ _ r1] 2 by (metis snd_conv)
  moreover have "transcript r4 = transcript r3 @ [user_message (in_message inp)]" using session_append_transcript [OF 4] by simp
  moreover have "transcript r' = transcript r5"
    using transcript_kept [OF pres_finish_gen [OF st mark_keeps_transcript], of c sp err r5] fin by simp
  ultimately show ?thesis
    using mail body by (intro exI [of _ mail] exI [of _ body]) simp
qed

definition call_budget :: "nat \<Rightarrow> ('x run, run_result) prog \<Rightarrow> bool" where
  "call_budget n m \<longleftrightarrow>
     (\<forall>r. calls_of (snd (m r)) \<le> calls_of r + n \<and>
          (case fst (m r) of
             Inl e \<Rightarrow> True
           | Inr res \<Rightarrow> if res_stop res = R_max_iterations then calls_of (snd (m r)) = calls_of r + n else True))"

lemma call_budget_chain:
  assumes "\<And>r. calls_of (snd (m r)) = calls_of r" "\<And>x. call_budget n (f x)"
  shows "call_budget n (chain m f)"
  unfolding call_budget_def
proof
  fix r
  obtain v r1 where v: "m r = (v, r1)" by fastforce
  have eq: "calls_of r1 = calls_of r" using assms(1) [of r] v by simp
  show "calls_of (snd (chain m f r)) \<le> calls_of r + n \<and>
     (case fst (chain m f r) of Inl e \<Rightarrow> True | Inr res \<Rightarrow> if res_stop res = R_max_iterations
        then calls_of (snd (chain m f r)) = calls_of r + n else True)"
  proof (cases v)
    case (Inl e)
    with v eq show ?thesis by (simp add: chain_def)
  next
    case (Inr x)
    have "chain m f r = f x r1" using v Inr by (simp add: chain_def)
    then show ?thesis
      using assms(2) [of x, unfolded call_budget_def, rule_format, of r1] eq by (simp only:)
  qed
qed

lemma call_budget_body: "call_budget n (chain (turn_body n env c inp) (\<lambda>(stop, err). finish_turn env c stop err))"
  unfolding call_budget_def
proof
  fix r
  let ?m = "chain (turn_body n env c inp) (\<lambda>(stop, err). finish_turn env c stop err)"
  obtain v r1 where v: "turn_body n env c inp r = (v, r1)" by fastforce
  from turn_body_calls [OF v] obtain sp err where b: "v = Inr (sp, err)" "calls_of r1 \<le> calls_of r + n"
      "if sp = R_max_iterations then calls_of r1 = calls_of r + n else True" by blast
  obtain w r2 where w: "finish_turn env c sp err r1 = (w, r2)" by fastforce
  have m: "?m r = (w, r2)" using v b w by (simp add: chain_def)
  have "calls_of (snd (finish_turn env c sp err r1)) = calls_of r1"
    by (rule calls_kept) (rule pres_finish [OF calls_turn_keeps])
  then have c: "calls_of r2 = calls_of r1" using w by simp
  have "res_stop res = sp" if "w = Inr res" for res using finish_turn_stop w that by metis
  then show "calls_of (snd (?m r)) \<le> calls_of r + n \<and> (case fst (?m r) of Inl e \<Rightarrow> True
      | Inr res \<Rightarrow> if res_stop res = R_max_iterations then calls_of (snd (?m r)) = calls_of r + n else True)"
    unfolding m using b c by (cases w) auto
qed

lemma call_budget_turn:
  "call_budget n (chain (fire_hook env p x) (\<lambda>_. chain (publish_event env c i k v) (\<lambda>_. chain (inject_mail env) (\<lambda>_.
     chain (session_append m) (\<lambda>_. chain (turn_body n env c inp) (\<lambda>(stop, err). finish_turn env c stop err))))))"
  by (intro call_budget_chain call_budget_body calls_kept pres_hook pres_publish pres_inject_mail pres_append calls_turn_keeps
      turn_keepsD(1) [OF calls_turn_keeps])

section \<open>Where a turn loses something\<close>

abbreviation stale :: "'x world \<Rightarrow> bool" where
  "stale w \<equiv> taken (h_id (w_handle w)) (length (h_messages (w_handle w))) (w_db w)"

lemma drain_empties: "select_pending a (snd (drain_for now a m)) = []"
proof -
  let ?f = "\<lambda>r. if is_pending a r then r\<lparr>mb_drained := Some now\<rparr> else r"
  have "filter (is_pending a) (map ?f rs) = []" for rs
    by (induction rs) (simp_all add: is_pending_def)
  then have "sort_key mb_queued (filter (is_pending a) (map ?f (mail_rows m))) = []" by (simp only: sort_key_simps(1))
  then show ?thesis by (simp add: drain_for_def Let_def select_pending_def)
qed

lemma stale_append: "stale (r_world r) \<Longrightarrow> session_append m r = (Inl ''UNIQUE'', r)"
  by (simp add: session_append_def on_world_def taken_blocks session_error_text_def)

lemma stale_events: "stale (r_world r) \<Longrightarrow> snd (append_events env es r) = r"
  by (cases es) (auto simp: ret_def chain_def throw_def stale_append split: sum.splits)

text \<open>A subscriber of \<^verbatim>\<open>tool.before\<close> that throws cuts the round off before its results are stored.\<close>

lemma throwing_hook_stores_nothing:
  assumes "list_for Tool_before (e_hooks env) = s # ss" "find_tool env (use_name b) = Some t" "t_key t (use_input b) = Inr key"
    and "\<And>x w. sub_call s x w = (Inl e, w)" "\<not> w_aborted (r_world r)"
  shows "tool_round env c inp (b # bs) r = (Inl e, r)"
  using assms
  by (simp add: tool_round_def run_block_def fire_hook_def fire_def on_world_def chain_def Let_def)

section \<open>A small host\<close>

text \<open>A model that asks for one tool and then ends, a tool that writes, and a session without rules; used to exhibit the
  hypotheses of the properties.\<close>

definition small_tool :: "unit tool" where
  "small_tool = \<lparr>t_name = ''w'', t_description = [], t_schema = JObj [], t_readonly = None, t_key = (\<lambda>v. Inr ''k''),
     t_execute = (\<lambda>v cx. ret [Outcome (JStr ''ok'')])\<rparr>"

definition small_answer :: "llm_request \<Rightarrow> (unit world, llm_response) prog" where
  "small_answer rq =
     (let rs = \<lparr>rs_content = [Tool_use ''1'' ''w'' JNull], rs_stop = Stop_tool_use,
                rs_usage = \<lparr>input_tokens = 1, output_tokens = 1, cache_read_tokens = None\<rparr>, rs_model = None\<rparr>
      in ret (if length (rq_messages rq) = 1 then rs else rs\<lparr>rs_content := [Text ''a''], rs_stop := End_turn\<rparr>))"

definition small_env :: "unit engine_env" where
  "small_env = \<lparr>e_provider = small_answer, e_tools = [small_tool], e_hooks = [], e_prompter = None, e_publish = None,
     e_tool_limit = None, e_tenant = None, e_max_iterations = None, e_metrics = False, e_uuid = (\<lambda>n. ''u''), e_num = (\<lambda>x. ''0'')\<rparr>"

definition small_spec :: agent_spec where
  "small_spec = \<lparr>spec_name = ''a'', spec_model = [], system_prompt = [], temperature = None, max_tokens = None,
     subagent_depth_cap = None, spec_max_iterations = Some 3\<rparr>"

definition small_world :: "unit world" where
  "small_world = \<lparr>w_handle = build_handle ''s'' small_spec [],
     w_db = empty_db\<lparr>sessions := [create_session_row 0 ''s'' ''t'' small_spec]\<rparr>,
     w_gate = create_permission_gate Bypass [] None, w_quota = Some (create_quota_tracker ''t'' \<lparr>max_active_sessions = None,
       max_concurrent_tool_calls = Some 1, max_event_ingress_per_sec = None, daily_token_usd = None\<rparr> 0), w_mail = None,
     w_aborted = False, w_now = 0, w_ext = ()\<rparr>"

definition small_input :: run_input where
  "small_input = \<lparr>in_message = ''go'', in_depth = None, in_caused_by = None, in_subject = None\<rparr>"

definition small_turn :: "(string + run_result) \<times> unit run" where
  "small_turn = run_agent small_env small_input (start_run small_world)"

lemma small_env_keeps: "env_keeps small_env P"
  by (simp add: env_keeps_def small_env_def small_answer_def small_tool_def list_for_def pres_def ret_def Let_def)

lemma small_turn_ends: "case fst small_turn of Inl e \<Rightarrow> False | Inr res \<Rightarrow> res_stop res = R_end_turn"
  by code_simp

lemma small_turn_runs: "Ran_tool ''w'' ''k'' JNull False \<in> set (r_acts (snd small_turn))"
  by code_simp

section \<open>Properties\<close>



text \<open>C23. A tool is executed in a turn only for a call that the gate allows, or that it puts to the user when there is a
  prompter; a call that a deny rule matches, or that writes in plan mode, is never executed, whatever the model, the hooks and
  the prompter do, as long as they leave the rules of the gate alone.\<close>

theorem denied_call_never_runs:
  assumes "env_keeps env (same_rules (w_gate w))" "run_agent env inp (start_run w) = (v, r)"
    and "Ran_tool t k x ro \<in> set (r_acts r)"
  shows "outcome (check (w_gate w) t k ro) = Allowed \<or>
         outcome (check (w_gate w) t k ro) = Prompted \<and> e_prompter env \<noteq> None"
proof -
  have "holds (same_rules (w_gate w)) (runs_permitted env (w_gate w)) (start_run w)"
    by (simp add: holds_def same_rules_def runs_permitted_def start_run_def)
  from presD [OF pres_run_agent [OF permitted_turn_keeps [OF assms(1)]] this, of inp]
  have "runs_permitted env (w_gate w) (r_acts r)" by (simp add: permitted_snoc assms(2) holds_def)
  with assms(3) show ?thesis by (auto simp: runs_permitted_def may_run_def)
qed

theorem denied_call_never_runs_witness: "outcome (check (w_gate small_world) ''w'' ''k'' False) \<noteq> Denied"
  using denied_call_never_runs [of small_env small_world small_input "fst small_turn" "snd small_turn" "''w''" "''k''" JNull False]
    small_env_keeps small_turn_runs
  by (auto simp: small_turn_def)

text \<open>C24. A turn gives back every quota slot it takes: the number of tool calls in progress is the same after it, however it
  ends, if the functions of the host give back what they take.\<close>

theorem turn_returns_its_slots:
  assumes "\<forall>n. env_keeps env (slots_are n)"
  shows "slots (r_world (snd (run_agent env inp r))) = slots (r_world r)"
  using presD [OF pres_run_agent [OF slots_turn_keeps], of env "slots (r_world r)" r inp] assms
  by (simp add: holds_def slots_are_def)

theorem turn_returns_its_slots_witness:
  "slots (r_world (snd small_turn)) = slots (r_world (start_run small_world))"
  using turn_returns_its_slots [of small_env small_input "start_run small_world"] small_env_keeps
  by (simp add: small_turn_def)

text \<open>When the handle of a turn is stale (another handle of the session has appended since), the turn throws at its first
  append, and the mail it took before is lost: it is marked as drained in the mailbox and is in no transcript.\<close>

lemma stale_turn_loses_mail:
  assumes "list_for Turn_start (e_hooks env) = []" "e_publish env = None" "w_mail w = Some m"
    and "within_depth inp (w_handle w)" "taken (h_id (w_handle w)) (length (h_messages (w_handle w))) (w_db w)"
  shows "\<exists>m'. run_agent env inp (start_run w) = (Inl ''UNIQUE'', start_run (w\<lparr>w_mail := Some m'\<rparr>)) \<and>
           select_pending (spec_name (h_spec (w_handle w))) m' = []"
proof -
  define a where "a = spec_name (h_spec (w_handle w))"
  obtain es m' where m': "drain_for (w_now w) a m = (es, m')" by fastforce
  define w' where "w' = w\<lparr>w_mail := Some m'\<rparr>"
  have stale: "stale (r_world (start_run w'))" using assms(5) by (simp add: w'_def start_run_def)
  have take: "take_mail (start_run w) = (Inr es, start_run w')"
    using assms(3) m' by (simp add: take_mail_def on_world_def start_run_def a_def w'_def)
  then have inject: "inject_mail env (start_run w) = (Inr (), start_run w')"
    using stale_events [OF stale, of env es]
    by (auto simp: inject_mail_def catch_def chain_def ret_def split: prod.splits sum.splits)
  have "run_agent env inp (start_run w) = (Inl ''UNIQUE'', start_run w')"
    using assms(1,2,4) inject stale_append [OF stale]
    by (subst run_agent_stages)
      (simp_all add: Let_def fire_hook_def fire_def on_world_def publish_event_def chain_def ret_def start_run_def)
  moreover have "select_pending a m' = []"
    using drain_empties [of a "w_now w" m] m' by simp
  ultimately show ?thesis by (auto simp: a_def w'_def)
qed

text \<open>The session of the small host, with another message at the position where its handle writes next, and a letter.\<close>

definition stale_world :: "unit world" where
  "stale_world = small_world\<lparr>
     w_db := (w_db small_world)\<lparr>messages := [\<lparr>mr_session = ''s'', mr_seq = 0, mr_message = user_message ''x'', mr_created = 0\<rparr>]\<rparr>,
     w_mail := Some (create_mailbox [\<lparr>mb_id = ''1'', mb_to = ''a'', mb_from = ''b'', mb_payload = None, mb_queued = 0,
                                      mb_drained = None\<rparr>] None)\<rparr>"

text \<open>C25. Whatever the provider and the tools answer, a turn ends, after at most as many calls of the provider as the cap on
  iterations says, and it reports that the cap was reached only when it made exactly that many.\<close>

theorem turn_call_budget:
  "let (v, r') = run_agent env inp (start_run w); n = iteration_cap env (h_spec (w_handle w))
   in llm_calls (r_acts r') \<le> n \<and>
      (case v of
         Inl e \<Rightarrow> True
       | Inr res \<Rightarrow> if res_stop res = R_max_iterations then llm_calls (r_acts r') = n else True)"
proof -
  have none: "llm_calls (r_acts (start_run w)) = 0" by (simp add: start_run_def llm_calls_def)
  have world: "r_world (start_run w) = w" by (simp add: start_run_def)
  show ?thesis
  proof (cases "within_depth inp (w_handle (r_world (start_run w)))")
    case False
    then obtain res where "run_agent env inp (start_run w) = (Inr res, start_run w)" "res_stop res = R_error"
      using run_agent_too_deep by blast
    with none show ?thesis by simp
  next
    case True
    obtain m where m: "call_budget (iteration_cap env (h_spec (w_handle w))) m"
        "run_agent env inp (start_run w) = m (start_run w)"
      by (rule that [OF call_budget_turn run_agent_stages [OF True, of env, unfolded Let_def world]])
    show ?thesis
      using m(1) [unfolded call_budget_def, rule_format, of "start_run w"] none
      by (cases "m (start_run w)") (simp only: m(2) Let_def case_prod_conv fst_conv snd_conv add_0)
  qed
qed

end
