(* ===== verification/Streams.thy ===== *)
theory Streams imports Framing begin

text \<open>
  Cutting a byte stream into lines and frames: \<^verbatim>\<open>LineBuffer\<close> of \<^verbatim>\<open>core/src/mcp/jsonrpc.ts\<close> and \<^verbatim>\<open>SSEFrameParser\<close> of
  \<^verbatim>\<open>core/src/mcp/sse-parser.ts\<close>. Chunks are text: the decoding of bytes is left to \<^verbatim>\<open>TextDecoder\<close>.

  Shown: lines do not depend on how the stream is cut into chunks; nor do frames, unless a chunk ends between a carriage
  return and the line feed that follows it, and then they do; what a server prints is parsed back.
\<close>

section \<open>Incremental readers\<close>

fun feed :: "('s \<Rightarrow> string \<Rightarrow> 'o list \<times> 's) \<Rightarrow> 's \<Rightarrow> string list \<Rightarrow> 'o list \<times> 's" where
  "feed push s [] = ([], s)"
| "feed push s (c # cs) = (case push s c of (xs, s1) \<Rightarrow> case feed push s1 cs of (ys, s2) \<Rightarrow> (xs @ ys, s2))"

text \<open>A reader whose results do not depend on the cuts that satisfy \<open>seam\<close>.\<close>

locale chunked =
  fixes push :: "'s \<Rightarrow> string \<Rightarrow> 'o list \<times> 's"
    and good :: "'s \<Rightarrow> bool"
    and seam :: "string \<Rightarrow> string \<Rightarrow> bool"
  assumes push_nil: "good s \<Longrightarrow> push s [] = ([], s)"
    and push_good: "good s \<Longrightarrow> good (snd (push s c))"
    and push_append: "good s \<Longrightarrow> seam a b \<Longrightarrow>
          push s (a @ b) = (case push s a of (xs, s1) \<Rightarrow> case push s1 b of (ys, s2) \<Rightarrow> (xs @ ys, s2))"
begin

fun seams :: "string list \<Rightarrow> bool" where
  "seams [] = True"
| "seams (c # cs) \<longleftrightarrow> seam c (concat cs) \<and> seams cs"

lemma feed_concat: "good s \<Longrightarrow> seams cs \<Longrightarrow> feed push s cs = push s (concat cs)"
proof (induction cs arbitrary: s)
  case (Cons c cs)
  obtain xs s1 where c: "push s c = (xs, s1)" by fastforce
  have "good s1" using push_good [OF Cons.prems(1), of c] c by simp
  with Cons c push_append [OF Cons.prems(1), of c "concat cs"] show ?case by simp
qed (simp add: push_nil)

lemma any_cut: "good s \<Longrightarrow> seams cs \<Longrightarrow> seams ds \<Longrightarrow> concat cs = concat ds \<Longrightarrow> feed push s cs = feed push s ds"
  by (simp add: feed_concat)

end

section \<open>Lines\<close>

abbreviation LF :: char where
  "LF \<equiv> CHR 0x0A"

abbreviation CR :: char where
  "CR \<equiv> CHR 0x0D"

text \<open>The text before the first line feed and the text after it.\<close>

fun split_line :: "string \<Rightarrow> (string \<times> string) option" where
  "split_line [] = None"
| "split_line (c # s) = (if c = LF then Some ([], s) else map_option (\<lambda>(l, r). (c # l, r)) (split_line s))"

lemma split_line_shorter: "split_line s = Some (l, r) \<Longrightarrow> length r < length s"
  by (induction s arbitrary: l) (auto split: if_splits)

lemma split_line_None: "split_line s = None \<longleftrightarrow> LF \<notin> set s"
  by (induction s) auto

lemma split_line_append: "split_line s = Some (l, r) \<Longrightarrow> split_line (s @ t) = Some (l, r @ t)"
  by (induction s arbitrary: l) (auto split: if_splits)

lemma split_line_at: "LF \<notin> set l \<Longrightarrow> split_line (l @ LF # r) = Some (l, r)"
  by (induction l) auto

definition strip_cr :: "string \<Rightarrow> string" where
  "strip_cr l = (if l \<noteq> [] \<and> last l = CR then butlast l else l)"

text \<open>The loop of \<^verbatim>\<open>push\<close>: the lines, empty ones dropped, and what is left in the buffer.\<close>

function (sequential) take_lines :: "string \<Rightarrow> string list \<times> string" where
  "take_lines buf =
     (case split_line buf of
        None \<Rightarrow> ([], buf)
      | Some (l, r) \<Rightarrow>
          (case take_lines r of (ls, rest) \<Rightarrow> ((if strip_cr l \<noteq> [] then [strip_cr l] else []) @ ls, rest)))"
  by pat_completeness auto
termination by (relation "measure length") (auto dest: split_line_shorter)

declare take_lines.simps [simp del]

definition lb_push :: "string \<Rightarrow> string \<Rightarrow> string list \<times> string" where
  "lb_push buf chunk = take_lines (buf @ chunk)"

definition lb_flush :: "string \<Rightarrow> string option \<times> string" where
  "lb_flush buf = (if buf \<noteq> [] then Some buf else None, [])"

definition no_line :: "string \<Rightarrow> bool" where
  "no_line s \<longleftrightarrow> LF \<notin> set s"

lemma take_lines_none: "no_line s \<Longrightarrow> take_lines s = ([], s)"
  by (simp add: take_lines.simps [of s] no_line_def split_line_None [symmetric])

lemma take_lines_line: "no_line l \<Longrightarrow>
    take_lines (l @ LF # s) = (case take_lines s of (ls, rest) \<Rightarrow> ((if strip_cr l \<noteq> [] then [strip_cr l] else []) @ ls, rest))"
  by (simp add: take_lines.simps [of "l @ LF # s"] no_line_def split_line_at)

lemma take_lines_rest: "take_lines s = (ls, rest) \<Longrightarrow> no_line rest"
proof (induction s arbitrary: ls rule: take_lines.induct)
  case (1 buf)
  then show ?case
    by (auto simp: take_lines.simps [of buf] no_line_def split_line_None split: option.splits prod.splits)
qed

lemma take_lines_append:
  "take_lines (a @ b) = (case take_lines a of (xs, s1) \<Rightarrow> case take_lines (s1 @ b) of (ys, s2) \<Rightarrow> (xs @ ys, s2))"
proof (induction a rule: take_lines.induct)
  case (1 a)
  show ?case
  proof (cases "split_line a")
    case None
    then show ?thesis by (simp add: take_lines.simps [of a] split: prod.split)
  next
    case (Some e)
    obtain l r where e: "e = (l, r)" by (cases e)
    have "take_lines (r @ b) = (case take_lines r of (xs, s1) \<Rightarrow> case take_lines (s1 @ b) of (ys, s2) \<Rightarrow> (xs @ ys, s2))"
      using 1 Some e by simp
    with Some e show ?thesis
      by (simp add: take_lines.simps [of a] take_lines.simps [of "a @ b"] split_line_append split: prod.split)
  qed
qed

interpretation line_reader: chunked lb_push no_line "\<lambda>a b. True"
proof unfold_locales
  show "no_line (snd (lb_push s c))" for s c
    using take_lines_rest [of "s @ c"] by (cases "take_lines (s @ c)") (simp add: lb_push_def)
  show "lb_push s (a @ b) = (case lb_push s a of (xs, s1) \<Rightarrow> case lb_push s1 b of (ys, s2) \<Rightarrow> (xs @ ys, s2))" for s a b
    using take_lines_append [of "s @ a" b] by (simp add: lb_push_def)
qed (simp add: lb_push_def take_lines_none)

lemma line_seams [simp]: "line_reader.seams cs"
  by (induction cs) simp_all

text \<open>Lines printed one after the other are read back, however the stream is cut.\<close>

definition print_lines :: "string list \<Rightarrow> string" where
  "print_lines ls = concat (map (\<lambda>l. l @ [LF]) ls)"

lemma take_printed: "list_all (\<lambda>l. no_line l \<and> l \<noteq> [] \<and> last l \<noteq> CR) ls \<Longrightarrow> take_lines (print_lines ls @ s) =
    (case take_lines s of (xs, rest) \<Rightarrow> (ls @ xs, rest))"
  by (induction ls) (simp_all add: print_lines_def take_lines_line strip_cr_def split: prod.split)

section \<open>Server-sent events\<close>

record sse_frame =
  fr_event :: string
  fr_data :: string
  fr_id :: "string option"

record sse_fields =
  cur_event :: string
  cur_data :: "string list"
  cur_id :: "string option"

definition no_fields :: sse_fields where
  "no_fields = \<lparr>cur_event = [], cur_data = [], cur_id = None\<rparr>"

abbreviation is_break :: "char \<Rightarrow> bool" where
  "is_break c \<equiv> c = LF \<or> c = CR"

text \<open>The first line and the text after its terminator: \<^verbatim>\<open>nextLineEnd\<close>, and the carriage return that takes a line feed along.\<close>

fun split_break :: "string \<Rightarrow> (string \<times> string) option" where
  "split_break [] = None"
| "split_break (c # s) =
     (if c = LF then Some ([], s)
      else if c = CR then Some ([], case s of [] \<Rightarrow> [] | d # r \<Rightarrow> if d = LF then r else s)
      else map_option (\<lambda>(l, r). (c # l, r)) (split_break s))"

fun split_colon :: "string \<Rightarrow> (string \<times> string) option" where
  "split_colon [] = None"
| "split_colon (c # s) = (if c = CHR '':'' then Some ([], s) else map_option (\<lambda>(l, r). (c # l, r)) (split_colon s))"

definition strip_space :: "string \<Rightarrow> string" where
  "strip_space v = (case v of [] \<Rightarrow> [] | c # r \<Rightarrow> if c = CHR '' '' then r else v)"

definition process_line :: "string \<Rightarrow> sse_fields \<Rightarrow> sse_fields" where
  "process_line l f =
     (if l \<noteq> [] \<and> hd l = CHR '':'' then f
      else
        (let (field, v0) = (case split_colon l of None \<Rightarrow> (l, []) | Some e \<Rightarrow> e);
             v = strip_space v0
         in if field = ''event'' then f\<lparr>cur_event := v\<rparr>
            else if field = ''data'' then f\<lparr>cur_data := cur_data f @ [v]\<rparr>
            else if field = ''id'' then (if CHR 0x00 \<in> set v then f else f\<lparr>cur_id := Some v\<rparr>)
            else f))"

definition frame_of :: "sse_fields \<Rightarrow> sse_frame" where
  "frame_of f = \<lparr>fr_event = cur_event f, fr_data = join [LF] (cur_data f), fr_id = cur_id f\<rparr>"

definition clear_fields :: "sse_fields \<Rightarrow> sse_fields" where
  "clear_fields f = f\<lparr>cur_event := [], cur_data := []\<rparr>"

text \<open>One line: a blank one dispatches the frame, if there is any field.\<close>

definition sse_line :: "string \<Rightarrow> sse_fields \<Rightarrow> sse_frame list \<times> sse_fields" where
  "sse_line l f =
     (if l = [] then (if cur_data f \<noteq> [] \<or> cur_event f \<noteq> [] \<or> cur_id f \<noteq> None then [frame_of f] else [], clear_fields f)
      else ([], process_line l f))"

lemma split_break_shorter: "split_break s = Some (l, r) \<Longrightarrow> length r < length s"
  by (induction s arbitrary: l) (auto split: if_splits list.splits)

function (sequential) sse_loop :: "string \<Rightarrow> sse_fields \<Rightarrow> sse_frame list \<times> string \<times> sse_fields" where
  "sse_loop buf f =
     (case split_break buf of
        None \<Rightarrow> ([], buf, f)
      | Some (l, r) \<Rightarrow>
          (case sse_loop r (snd (sse_line l f)) of (fs, rest, f') \<Rightarrow> (fst (sse_line l f) @ fs, rest, f')))"
  by pat_completeness auto
termination by (relation "measure (\<lambda>(buf, f). length buf)") (auto dest: split_break_shorter)

declare sse_loop.simps [simp del]

definition sse_push :: "string \<times> sse_fields \<Rightarrow> string \<Rightarrow> sse_frame list \<times> string \<times> sse_fields" where
  "sse_push p chunk = sse_loop (fst p @ chunk) (snd p)"

definition sse_flush :: "string \<times> sse_fields \<Rightarrow> sse_frame option \<times> string \<times> sse_fields" where
  "sse_flush p =
     (if cur_data (snd p) = [] \<and> cur_event (snd p) = [] then (None, p)
      else (Some (frame_of (snd p)), fst p, clear_fields (snd p)))"

definition no_break :: "string \<Rightarrow> bool" where
  "no_break s \<longleftrightarrow> LF \<notin> set s \<and> CR \<notin> set s"

lemma no_break_Nil [simp]: "no_break []"
  by (simp add: no_break_def)

lemma no_break_last: "no_break s \<Longrightarrow> s \<noteq> [] \<Longrightarrow> last s \<noteq> CR"
  by (metis last_in_set no_break_def)

lemma no_break_Cons [simp]: "no_break (c # s) \<longleftrightarrow> \<not> is_break c \<and> no_break s"
  by (auto simp: no_break_def)

lemma split_break_None: "split_break s = None \<longleftrightarrow> no_break s"
  by (induction s) (auto simp: no_break_def)

lemma split_break_at: "no_break l \<Longrightarrow> split_break (l @ LF # r) = Some (l, r)"
  by (induction l) (auto simp: no_break_def)

lemma split_break_at_cr: "no_break l \<Longrightarrow> split_break (l @ [CR]) = Some (l, [])"
  by (induction l) (auto simp: no_break_def)

text \<open>Where a stream may be cut: not between the two characters of a line end.\<close>

definition sse_seam :: "string \<Rightarrow> string \<Rightarrow> bool" where
  "sse_seam a b \<longleftrightarrow> \<not> (a \<noteq> [] \<and> last a = CR \<and> b \<noteq> [] \<and> hd b = LF)"

lemma split_break_append:
  "split_break a = Some (l, r) \<Longrightarrow> sse_seam a b \<Longrightarrow> split_break (a @ b) = Some (l, r @ b) \<and> sse_seam r b"
proof (induction a arbitrary: l)
  case (Cons c a)
  show ?case
  proof (cases "is_break c")
    case True
    with Cons.prems show ?thesis
      by (cases a; cases b) (auto simp: sse_seam_def split: if_splits)
  next
    case False
    with Cons.prems(1) obtain l' where l': "l = c # l'" "split_break a = Some (l', r)" by auto
    then have "a \<noteq> []" by auto
    with Cons.prems(2) have "sse_seam a b" by (simp add: sse_seam_def)
    with Cons.IH [OF l'(2)] False l'(1) show ?thesis by simp
  qed
qed simp

lemma sse_loop_rest: "sse_loop buf f = (fs, rest, f') \<Longrightarrow> no_break rest"
proof (induction buf f arbitrary: fs rest f' rule: sse_loop.induct)
  case (1 buf f)
  show ?case
  proof (cases "split_break buf")
    case None
    with 1(2) show ?thesis by (auto simp: sse_loop.simps [of buf] split_break_None)
  next
    case (Some e)
    obtain l r where e: "e = (l, r)" by (cases e)
    obtain fs1 rest1 f1 where r: "sse_loop r (snd (sse_line l f)) = (fs1, rest1, f1)" by (metis prod_cases3)
    have "no_break rest1" using 1(1) [OF Some e [symmetric] r] .
    with 1(2) Some e r show ?thesis by (simp add: sse_loop.simps [of buf])
  qed
qed

lemma sse_loop_append:
  "sse_seam a b \<Longrightarrow> sse_loop (a @ b) f =
     (case sse_loop a f of (xs, s1, f1) \<Rightarrow> case sse_loop (s1 @ b) f1 of (ys, s2, f2) \<Rightarrow> (xs @ ys, s2, f2))"
proof (induction a f rule: sse_loop.induct)
  case (1 a f)
  show ?case
  proof (cases "split_break a")
    case None
    then show ?thesis by (simp add: sse_loop.simps [of a] split: prod.split)
  next
    case (Some e)
    obtain l r where e: "e = (l, r)" by (cases e)
    have ab: "split_break (a @ b) = Some (l, r @ b)" "sse_seam r b"
      using split_break_append [OF Some [unfolded e] 1(2)] by simp_all
    have "sse_loop (r @ b) (snd (sse_line l f)) = (case sse_loop r (snd (sse_line l f)) of (xs, s1, f1) \<Rightarrow>
            case sse_loop (s1 @ b) f1 of (ys, s2, f2) \<Rightarrow> (xs @ ys, s2, f2))"
      using 1(1) [OF Some e [symmetric] ab(2)] .
    with Some e ab(1) show ?thesis
      by (simp add: sse_loop.simps [of a] sse_loop.simps [of "a @ b"] split: prod.split)
  qed
qed

interpretation sse_reader: chunked sse_push "\<lambda>p. no_break (fst p)" sse_seam
proof unfold_locales
  fix p :: "string \<times> sse_fields" and a b c :: string
  assume good: "no_break (fst p)"
  then show "sse_push p [] = ([], p)"
    by (simp add: sse_push_def sse_loop.simps [of "fst p"] split_break_None [symmetric])
  show "no_break (fst (snd (sse_push p c)))"
    using sse_loop_rest [of "fst p @ c" "snd p"] by (metis prod.collapse sse_push_def)
  assume "sse_seam a b"
  with good have "sse_seam (fst p @ a) b"
    using no_break_last [of "fst p"] by (cases "a = []") (auto simp: sse_seam_def)
  then show "sse_push p (a @ b) = (case sse_push p a of (xs, s1) \<Rightarrow> case sse_push s1 b of (ys, s2) \<Rightarrow> (xs @ ys, s2))"
    using sse_loop_append [of "fst p @ a" b "snd p"] by (simp add: sse_push_def split: prod.split)
qed

section \<open>Printing frames\<close>

text \<open>What a server writes for an event name and the lines of its data.\<close>

definition print_frame :: "string \<times> string list \<Rightarrow> string" where
  "print_frame e =
     (case e of (name, ls) \<Rightarrow>
        (if name = [] then [] else ''event: '' @ name @ [LF]) @ concat (map (\<lambda>l. ''data: '' @ l @ [LF]) ls) @ [LF])"

definition frame_text :: "string \<times> string list \<Rightarrow> bool" where
  "frame_text e \<longleftrightarrow> no_break (fst e) \<and> snd e \<noteq> [] \<and> list_all no_break (snd e)"

lemma sse_loop_line: "no_break l \<Longrightarrow>
    sse_loop (l @ LF # s) f = (case sse_loop s (snd (sse_line l f)) of (fs, rest, f') \<Rightarrow> (fst (sse_line l f) @ fs, rest, f'))"
  by (simp add: sse_loop.simps [of "l @ LF # s"] split_break_at)

lemma sse_loop_end: "sse_loop [] f = ([], [], f)"
  by (simp add: sse_loop.simps [of "[]"])

lemma event_line: "sse_line (''event: '' @ v) f = ([], f\<lparr>cur_event := v\<rparr>)"
  by (simp add: sse_line_def process_line_def strip_space_def)

lemma data_line: "sse_line (''data: '' @ v) f = ([], f\<lparr>cur_data := cur_data f @ [v]\<rparr>)"
  by (simp add: sse_line_def process_line_def strip_space_def)

lemma no_break_field [simp]: "no_break (''data: '' @ v) = no_break v" "no_break (''event: '' @ v) = no_break v"
  by (simp_all add: no_break_def)

lemma data_lines: "list_all no_break ls \<Longrightarrow>
    sse_loop (concat (map (\<lambda>l. ''data: '' @ l @ [LF]) ls) @ s) f = sse_loop s (f\<lparr>cur_data := cur_data f @ ls\<rparr>)"
proof (induction ls arbitrary: f)
  case (Cons l ls)
  have "sse_loop ((''data: '' @ l) @ LF # t) f = sse_loop t (f\<lparr>cur_data := cur_data f @ [l]\<rparr>)" for t
    using Cons.prems by (subst sse_loop_line) (simp_all only: data_line no_break_field, simp_all split: prod.split)
  with Cons show ?case by simp
qed simp

lemma read_frame:
  assumes "frame_text e" "cur_event f = []" "cur_data f = []"
  shows "sse_loop (print_frame e @ s) f = (case sse_loop s f of (fs, rest, f') \<Rightarrow>
           (\<lparr>fr_event = fst e, fr_data = join [LF] (snd e), fr_id = cur_id f\<rparr> # fs, rest, f'))"
proof -
  obtain name ls where e: "e = (name, ls)" by (cases e)
  have ok: "no_break name" "ls \<noteq> []" "list_all no_break ls" using assms(1) by (simp_all add: frame_text_def e)
  let ?f = "f\<lparr>cur_event := name, cur_data := ls\<rparr>"
  have same: "f\<lparr>cur_event := [], cur_data := []\<rparr> = f" using assms(2,3) by (cases f) simp
  have blank: "sse_loop (LF # s) ?f = (case sse_loop s f of (fs, rest, f') \<Rightarrow>
           (\<lparr>fr_event = name, fr_data = join [LF] ls, fr_id = cur_id f\<rparr> # fs, rest, f'))"
    using sse_loop_line [of "[]" s ?f] ok(2)
    by (simp add: no_break_def sse_line_def frame_of_def clear_fields_def same split: prod.split)
  let ?d = "concat (map (\<lambda>l. ''data: '' @ l @ [LF]) ls) @ LF # s"
  have ev: "sse_loop ((''event: '' @ name) @ LF # ?d) f = sse_loop ?d (f\<lparr>cur_event := name\<rparr>)"
    using ok(1) by (subst sse_loop_line) (simp_all only: event_line no_break_field, simp_all split: prod.split)
  have "f\<lparr>cur_event := []\<rparr> = f" using assms(2) by simp
  then have "sse_loop (print_frame e @ s) f = sse_loop ?d (f\<lparr>cur_event := name\<rparr>)"
    using ev by (cases "name = []") (simp_all add: print_frame_def e)
  also have "\<dots> = sse_loop (LF # s) ?f"
    using data_lines [OF ok(3), of "LF # s" "f\<lparr>cur_event := name\<rparr>"] assms(3) by simp
  also note blank
  finally show ?thesis by (simp add: e)
qed

lemma read_frames: "list_all frame_text es \<Longrightarrow> cur_event f = [] \<Longrightarrow> cur_data f = [] \<Longrightarrow>
    sse_loop (concat (map print_frame es)) f =
      (map (\<lambda>e. \<lparr>fr_event = fst e, fr_data = join [LF] (snd e), fr_id = cur_id f\<rparr>) es, [], f)"
  by (induction es) (simp_all add: read_frame sse_loop_end)

lemma no_break_append [simp]: "no_break (s @ t) \<longleftrightarrow> no_break s \<and> no_break t"
  by (auto simp: no_break_def)

lemma printed_no_cr: "list_all frame_text es \<Longrightarrow> CR \<notin> set (concat (map print_frame es))"
  by (induction es) (auto simp: print_frame_def frame_text_def no_break_def list_all_iff)

lemma seams_no_cr: "CR \<notin> set (concat cs) \<Longrightarrow> sse_reader.seams cs"
proof (induction cs)
  case (Cons c cs)
  have "sse_seam c b" for b using Cons.prems by (cases "c = []") (auto simp: sse_seam_def, metis last_in_set)
  with Cons show ?case by simp
qed simp

section \<open>Properties\<close>



lemma split_break_crlf: "no_break l \<Longrightarrow> split_break (l @ CR # LF # r) = Some (l, r)"
  by (induction l) (auto simp: no_break_def)

lemma sse_loop_crlf: "no_break l \<Longrightarrow>
    sse_loop (l @ CR # LF # s) f = (case sse_loop s (snd (sse_line l f)) of (fs, rest, f') \<Rightarrow> (fst (sse_line l f) @ fs, rest, f'))"
  by (simp add: sse_loop.simps [of "l @ CR # LF # s"] split_break_crlf)

lemma sse_loop_cr: "no_break l \<Longrightarrow> sse_loop (l @ [CR]) f = (fst (sse_line l f), [], snd (sse_line l f))"
  by (simp add: sse_loop.simps [of "l @ [CR]"] split_break_at_cr sse_loop_end)

lemma data_crlf: "no_break v \<Longrightarrow>
    sse_loop (''data: '' @ v @ CR # LF # s) f = sse_loop s (f\<lparr>cur_data := cur_data f @ [v]\<rparr>)"
  using sse_loop_crlf [of "''data: '' @ v" s f, unfolded data_line] by (simp split: prod.splits)

lemma blank_crlf: "cur_data f \<noteq> [] \<Longrightarrow> sse_loop [CR, LF] f = ([frame_of f], [], clear_fields f)"
  using sse_loop_crlf [of "[]" "[]" f] by (simp add: no_break_def sse_line_def sse_loop_end)

text \<open>A server that ends its lines in a carriage return and a line feed is misread when a chunk ends between the two:
  the line feed counts as a blank line, and one frame arrives as two.\<close>

lemma sse_split_line_end:
  assumes "no_break x" "no_break y"
  shows "fst (feed sse_push ([], no_fields) [''data: '' @ x @ CR # LF # ''data: '' @ y @ [CR, LF, CR, LF]]) =
           [\<lparr>fr_event = [], fr_data = x @ LF # y, fr_id = None\<rparr>] \<and>
         fst (feed sse_push ([], no_fields) [''data: '' @ x @ [CR], LF # ''data: '' @ y @ [CR, LF, CR, LF]]) =
           [\<lparr>fr_event = [], fr_data = x, fr_id = None\<rparr>, \<lparr>fr_event = [], fr_data = y, fr_id = None\<rparr>]"
proof -
  let ?y = "''data: '' @ y @ CR # LF # [CR, LF]"
  have "sse_loop (''data: '' @ x @ CR # LF # ?y) no_fields =
      ([\<lparr>fr_event = [], fr_data = x @ LF # y, fr_id = None\<rparr>], [], no_fields)"
    unfolding data_crlf [OF assms(1)] data_crlf [OF assms(2)]
    by (simp add: blank_crlf frame_of_def clear_fields_def no_fields_def)
  moreover have "sse_loop (''data: '' @ x @ [CR]) no_fields = ([], [], no_fields\<lparr>cur_data := [x]\<rparr>)"
    using sse_loop_cr [of "''data: '' @ x" no_fields, unfolded data_line] assms(1) by (simp add: no_fields_def)
  moreover have "sse_loop (LF # ?y) (no_fields\<lparr>cur_data := [x]\<rparr>) =
      ([\<lparr>fr_event = [], fr_data = x, fr_id = None\<rparr>, \<lparr>fr_event = [], fr_data = y, fr_id = None\<rparr>], [], no_fields)"
    unfolding sse_loop_line [of "[]", simplified] data_crlf [OF assms(2)]
    by (simp add: sse_line_def data_crlf [OF assms(2)] blank_crlf frame_of_def clear_fields_def no_fields_def)
  ultimately show ?thesis by (simp add: sse_push_def)
qed

end
