(* ===== verification/JsonRpc.thy ===== *)
theory JsonRpc imports Streams begin

text \<open>
  The JSON-RPC connection of \<^verbatim>\<open>core/src/mcp/jsonrpc.ts\<close>. The promise of a request is named by the id of the request:
  \<open>pending\<close> lists those not settled yet, \<open>settled\<close> records each call of \<^verbatim>\<open>resolve\<close> or \<^verbatim>\<open>reject\<close>. Handlers are numbers; what the
  notification handlers throw is the argument \<open>throws\<close>, \<^verbatim>\<open>JSON.parse\<close> is the argument \<open>parse\<close>. A write that fails later than the
  call is a step of its own. \<open>received\<close>, \<open>notified\<close>, \<open>told\<close> and \<open>written\<close> record what happened outside.

  Shown: no request is settled twice; once the connection is closed or its source ends every request is settled; a response
  reaches its request however it is cut into chunks; but a response with \<^verbatim>\<open>"error": null\<close> leaves its request unsettled for ever.
\<close>

section \<open>Messages\<close>

definition is_jstr :: "js \<Rightarrow> bool" where
  "is_jstr v = (case v of JStr s \<Rightarrow> True | _ \<Rightarrow> False)"

definition is_response :: "js \<Rightarrow> bool" where
  "is_response m \<longleftrightarrow> is_object m \<and> prop_of ''jsonrpc'' m = JStr ''2.0'' \<and>
     (jm_has ''result'' (fields_of m) \<or> jm_has ''error'' (fields_of m))"

definition is_error_response :: "js \<Rightarrow> bool" where
  "is_error_response m = jm_has ''error'' (fields_of m)"

definition is_notification :: "js \<Rightarrow> bool" where
  "is_notification m \<longleftrightarrow> is_object m \<and> prop_of ''jsonrpc'' m = JStr ''2.0'' \<and> is_jstr (prop_of ''method'' m) \<and>
     \<not> jm_has ''id'' (fields_of m)"

definition is_rpc_request :: "js \<Rightarrow> bool" where
  "is_rpc_request m \<longleftrightarrow> is_object m \<and> prop_of ''jsonrpc'' m = JStr ''2.0'' \<and> is_jstr (prop_of ''method'' m) \<and>
     jm_has ''id'' (fields_of m)"

datatype rpc_error =
    Bad_json string
  | Not_an_object
  | Bad_version js
  | Null_response_id
  | Unknown_response js
  | Not_a_message
  | Type_error
  | Handler_threw string
  | Transport_closed string
  | Remote_error js
  | Write_error string
  | Read_error string
  | Abort_reason string

definition parse_message :: "(string \<Rightarrow> string + js) \<Rightarrow> string \<Rightarrow> rpc_error + js" where
  "parse_message parse line =
     (case parse line of
        Inl e \<Rightarrow> Inl (Bad_json e)
      | Inr v \<Rightarrow>
          if \<not> is_object v then Inl Not_an_object
          else if prop_of ''jsonrpc'' v \<noteq> JStr ''2.0'' then Inl (Bad_version (prop_of ''jsonrpc'' v))
          else Inr v)"

definition encode_message :: "(rat \<Rightarrow> string) \<Rightarrow> js \<Rightarrow> string" where
  "encode_message num m = (case json_text num m of None \<Rightarrow> ''undefined'' | Some t \<Rightarrow> t) @ [LF]"

definition opt_params :: "js \<Rightarrow> (string \<times> js) list" where
  "opt_params p = (if p = JUndef then [] else [(''params'', p)])"

definition request_message :: "js \<Rightarrow> string \<Rightarrow> js \<Rightarrow> js" where
  "request_message i m p = JObj ([(''jsonrpc'', JStr ''2.0''), (''id'', i), (''method'', JStr m)] @ opt_params p)"

definition note_message :: "string \<Rightarrow> js \<Rightarrow> js" where
  "note_message m p = JObj ([(''jsonrpc'', JStr ''2.0''), (''method'', JStr m)] @ opt_params p)"

definition no_method_reply :: "js \<Rightarrow> string \<Rightarrow> js" where
  "no_method_reply i m =
     JObj [(''jsonrpc'', JStr ''2.0''), (''id'', i),
           (''error'', JObj [(''code'', JNum (- 32601)), (''message'', JStr (''method not implemented: '' @ m))])]"

section \<open>The connection\<close>

record connection =
  pending :: "js list"
  next_id :: nat
  close_requested :: bool
  writer_closed :: bool
  closed_reason :: "rpc_error option"
  note_handlers :: "nat list"
  err_handlers :: "nat list"
  rd_buffer :: string
  reader_done :: bool
  written :: "js list"
  settled :: "(js \<times> (rpc_error + js)) list"
  received :: "js list"
  notified :: "(nat \<times> js \<times> js) list"
  told :: "(nat \<times> rpc_error) list"

definition create_connection :: connection where
  "create_connection =
     \<lparr>pending = [], next_id = 1, close_requested = False, writer_closed = False, closed_reason = None, note_handlers = [],
      err_handlers = [], rd_buffer = [], reader_done = False, written = [], settled = [], received = [], notified = [], told = []\<rparr>"

definition add_handler :: "nat \<Rightarrow> nat list \<Rightarrow> nat list" where
  "add_handler h hs = (if h \<in> set hs then hs else hs @ [h])"

definition emit_error :: "rpc_error \<Rightarrow> connection \<Rightarrow> connection" where
  "emit_error e c = c\<lparr>told := told c @ map (\<lambda>h. (h, e)) (err_handlers c)\<rparr>"

text \<open>Settle a pending request.\<close>

definition settle :: "js \<Rightarrow> rpc_error + js \<Rightarrow> connection \<Rightarrow> connection" where
  "settle i v c = c\<lparr>pending := filter (\<lambda>j. j \<noteq> i) (pending c), settled := settled c @ [(i, v)]\<rparr>"

definition write_chunk :: "js \<Rightarrow> connection \<Rightarrow> rpc_error option \<times> connection" where
  "write_chunk m c =
     (if writer_closed c then (Some (Transport_closed ''writer is closed''), c) else (None, c\<lparr>written := written c @ [m]\<rparr>))"

definition dispatch_response :: "js \<Rightarrow> connection \<Rightarrow> connection" where
  "dispatch_response m c =
     (let i = prop_of ''id'' m
      in if i = JNull then emit_error Null_response_id c
         else if i \<notin> set (pending c) then emit_error (Unknown_response i) c
         else if is_error_response m then
           (if nullish (prop_of ''error'' m) then emit_error Type_error (c\<lparr>pending := filter (\<lambda>j. j \<noteq> i) (pending c)\<rparr>)
            else settle i (Inl (Remote_error (prop_of ''error'' m))) c)
         else settle i (Inr (prop_of ''result'' m)) c)"

fun notify_all :: "(nat \<Rightarrow> js \<Rightarrow> js \<Rightarrow> string option) \<Rightarrow> js \<Rightarrow> js \<Rightarrow> nat list \<Rightarrow> connection \<Rightarrow> connection" where
  "notify_all throws m p [] c = c"
| "notify_all throws m p (h # hs) c =
     (let c1 = c\<lparr>notified := notified c @ [(h, m, p)]\<rparr>
      in notify_all throws m p hs (case throws h m p of None \<Rightarrow> c1 | Some e \<Rightarrow> emit_error (Handler_threw e) c1))"

definition dispatch_message :: "(nat \<Rightarrow> js \<Rightarrow> js \<Rightarrow> string option) \<Rightarrow> js \<Rightarrow> connection \<Rightarrow> connection" where
  "dispatch_message throws m c =
     (if is_response m then dispatch_response m c
      else if is_notification m then notify_all throws (prop_of ''method'' m) (prop_of ''params'' m) (note_handlers c) c
      else (case prop_of ''method'' m of
              JStr name \<Rightarrow>
                if jm_has ''id'' (fields_of m) then
                  (case write_chunk (no_method_reply (prop_of ''id'' m) name) c of
                     (None, c') \<Rightarrow> c'
                   | (Some e, c') \<Rightarrow> emit_error e c')
                else emit_error Not_a_message c
            | _ \<Rightarrow> emit_error Not_a_message c))"

section \<open>Steps\<close>

definition reject_all :: "rpc_error \<Rightarrow> connection \<Rightarrow> connection" where
  "reject_all e c = c\<lparr>settled := settled c @ map (\<lambda>i. (i, Inl e)) (pending c), pending := []\<rparr>"

definition reason_of :: "connection \<Rightarrow> rpc_error" where
  "reason_of c = (case closed_reason c of None \<Rightarrow> Transport_closed ''JSON-RPC transport closed before response'' | Some e \<Rightarrow> e)"

definition read_line :: "(string \<Rightarrow> string + js) \<Rightarrow> (nat \<Rightarrow> js \<Rightarrow> js \<Rightarrow> string option) \<Rightarrow> string \<Rightarrow> connection \<Rightarrow> connection" where
  "read_line parse throws line c =
     (case parse_message parse line of
        Inl e \<Rightarrow> emit_error e c
      | Inr m \<Rightarrow> dispatch_message throws m (c\<lparr>received := received c @ [m]\<rparr>))"

definition read_chunk :: "(string \<Rightarrow> string + js) \<Rightarrow> (nat \<Rightarrow> js \<Rightarrow> js \<Rightarrow> string option) \<Rightarrow> string \<Rightarrow> connection \<Rightarrow> connection" where
  "read_chunk parse throws chunk c =
     (case lb_push (rd_buffer c) chunk of
        (lines, rest) \<Rightarrow> fold (read_line parse throws) lines (c\<lparr>rd_buffer := rest\<rparr>))"

text \<open>The \<^verbatim>\<open>finally\<close> of the reader.\<close>

definition end_reader :: "connection \<Rightarrow> connection" where
  "end_reader c = reject_all (reason_of c) (c\<lparr>closed_reason := Some (reason_of c), reader_done := True\<rparr>)"

text \<open>\<^verbatim>\<open>request\<close>: the error with which it rejects at once, or the id under which it waits. \<open>aborted\<close> is the reason of a signal
  that has already fired.\<close>

definition rpc_request :: "string \<Rightarrow> js \<Rightarrow> string option \<Rightarrow> connection \<Rightarrow> (rpc_error + js) \<times> connection" where
  "rpc_request m p aborted c =
     (if writer_closed c \<or> closed_reason c \<noteq> None then
        (Inl (case closed_reason c of None \<Rightarrow> Transport_closed ''writer is closed'' | Some e \<Rightarrow> e), c)
      else case aborted of
          Some r \<Rightarrow> (Inl (Abort_reason r), c)
        | None \<Rightarrow>
            (let i = JNum (of_nat (next_id c));
                 c1 = c\<lparr>next_id := next_id c + 1, pending := pending c @ [i]\<rparr>
             in (Inr i, snd (write_chunk (request_message i m p) c1))))"

definition rpc_notify :: "string \<Rightarrow> js \<Rightarrow> connection \<Rightarrow> rpc_error option \<times> connection" where
  "rpc_notify m p c = write_chunk (note_message m p) c"

text \<open>A request whose write failed, or whose signal fired, if it still waits.\<close>

definition give_up :: "js \<Rightarrow> rpc_error \<Rightarrow> connection \<Rightarrow> connection" where
  "give_up i e c = (if i \<in> set (pending c) then settle i (Inl e) c else c)"

definition close_connection :: "connection \<Rightarrow> connection" where
  "close_connection c =
     (if close_requested c then c
      else reject_all (reason_of c) (c\<lparr>close_requested := True, writer_closed := True, closed_reason := Some (reason_of c)\<rparr>))"

datatype rpc_step =
    Request string js "string option"
  | Notify string js
  | Abort js string
  | Write_fails js string
  | Reply_fails string
  | Arrive string
  | Source_ends "string option"
  | Close_conn
  | Close_fails string
  | On_note nat
  | Off_note nat
  | On_error nat
  | Off_error nat

fun connection_step :: "(string \<Rightarrow> string + js) \<Rightarrow> (nat \<Rightarrow> js \<Rightarrow> js \<Rightarrow> string option) \<Rightarrow> connection \<Rightarrow> rpc_step \<Rightarrow> connection" where
  "connection_step parse throws c (Request m p a) = snd (rpc_request m p a c)"
| "connection_step parse throws c (Notify m p) = snd (rpc_notify m p c)"
| "connection_step parse throws c (Abort i r) = give_up i (Abort_reason r) c"
| "connection_step parse throws c (Write_fails i e) = give_up i (Write_error e) c"
| "connection_step parse throws c (Reply_fails e) = emit_error (Write_error e) c"
| "connection_step parse throws c (Arrive chunk) = (if reader_done c then c else read_chunk parse throws chunk c)"
| "connection_step parse throws c (Source_ends e) =
     (if reader_done c then c else end_reader (case e of None \<Rightarrow> c | Some x \<Rightarrow> emit_error (Read_error x) c))"
| "connection_step parse throws c Close_conn = close_connection c"
| "connection_step parse throws c (Close_fails e) = emit_error (Write_error e) c"
| "connection_step parse throws c (On_note h) = c\<lparr>note_handlers := add_handler h (note_handlers c)\<rparr>"
| "connection_step parse throws c (Off_note h) = c\<lparr>note_handlers := filter (\<lambda>x. x \<noteq> h) (note_handlers c)\<rparr>"
| "connection_step parse throws c (On_error h) = c\<lparr>err_handlers := add_handler h (err_handlers c)\<rparr>"
| "connection_step parse throws c (Off_error h) = c\<lparr>err_handlers := filter (\<lambda>x. x \<noteq> h) (err_handlers c)\<rparr>"

section \<open>The pipe in memory\<close>

text \<open>\<^verbatim>\<open>createPipe\<close>: chunks that wait for a reader or readers that wait for a chunk. A call of \<^verbatim>\<open>next\<close> is a ticket; \<open>p_out\<close> records
  what the tickets were given, \<open>None\<close> being the end.\<close>

record 'c pipe =
  p_queue :: "'c list"
  p_waiters :: "nat list"
  p_ended :: bool
  p_tickets :: nat
  p_out :: "(nat \<times> 'c option) list"

definition create_pipe :: "'c pipe" where
  "create_pipe = \<lparr>p_queue = [], p_waiters = [], p_ended = False, p_tickets = 0, p_out = []\<rparr>"

fun deliver_loop :: "nat list \<Rightarrow> 'c list \<Rightarrow> bool \<Rightarrow> (nat \<times> 'c option) list \<Rightarrow> nat list \<times> 'c list \<times> (nat \<times> 'c option) list" where
  "deliver_loop [] q e out = ([], q, out)"
| "deliver_loop (w # ws) q e out =
     (case q of
        x # q' \<Rightarrow> deliver_loop ws q' e (out @ [(w, Some x)])
      | [] \<Rightarrow> if e then deliver_loop ws [] e (out @ [(w, None)]) else (w # ws, [], out))"

definition deliver :: "'c pipe \<Rightarrow> 'c pipe" where
  "deliver p = (case deliver_loop (p_waiters p) (p_queue p) (p_ended p) (p_out p) of
                  (ws, q, out) \<Rightarrow> p\<lparr>p_waiters := ws, p_queue := q, p_out := out\<rparr>)"

definition pipe_push :: "'c \<Rightarrow> 'c pipe \<Rightarrow> 'c pipe" where
  "pipe_push x p = (if p_ended p then p else deliver (p\<lparr>p_queue := p_queue p @ [x]\<rparr>))"

definition pipe_end :: "'c pipe \<Rightarrow> 'c pipe" where
  "pipe_end p = deliver (p\<lparr>p_ended := True\<rparr>)"

definition pipe_next :: "'c pipe \<Rightarrow> 'c pipe" where
  "pipe_next p =
     (let t = p_tickets p; p1 = p\<lparr>p_tickets := t + 1\<rparr>
      in case p_queue p of
           x # q \<Rightarrow> p1\<lparr>p_queue := q, p_out := p_out p @ [(t, Some x)]\<rparr>
         | [] \<Rightarrow> if p_ended p then p1\<lparr>p_out := p_out p @ [(t, None)]\<rparr> else p1\<lparr>p_waiters := p_waiters p @ [t]\<rparr>)"

definition pipe_return :: "'c pipe \<Rightarrow> 'c pipe" where
  "pipe_return p = pipe_end p"

datatype 'c pipe_op = Push 'c | End | Next | Return

fun pipe_step :: "'c pipe \<Rightarrow> 'c pipe_op \<Rightarrow> 'c pipe" where
  "pipe_step p (Push x) = pipe_push x p"
| "pipe_step p End = pipe_end p"
| "pipe_step p Next = pipe_next p"
| "pipe_step p Return = pipe_return p"

text \<open>The chunks pushed before the end.\<close>

fun pushed :: "'c pipe_op list \<Rightarrow> 'c list" where
  "pushed [] = []"
| "pushed (Push x # ops) = x # pushed ops"
| "pushed (Next # ops) = pushed ops"
| "pushed (_ # ops) = []"

definition handed_out :: "'c pipe \<Rightarrow> 'c list" where
  "handed_out p = List.map_filter snd (p_out p)"

lemma map_filter_snoc: "List.map_filter f (xs @ [x]) = List.map_filter f xs @ (case f x of None \<Rightarrow> [] | Some y \<Rightarrow> [y])"
  by (induction xs) (simp_all add: List.map_filter_simps split: option.split)

lemma deliver_loop_order:
  "deliver_loop ws q e out = (ws', q', out') \<Longrightarrow>
     List.map_filter snd out' @ q' = List.map_filter snd out @ q \<and> (ws' = [] \<or> q' = [])"
  by (induction ws q e out arbitrary: ws' rule: deliver_loop.induct)
    (auto simp: map_filter_snoc split: list.splits if_splits)

lemma deliver_order: "handed_out (deliver p) @ p_queue (deliver p) = handed_out p @ p_queue p"
  using deliver_loop_order [of "p_waiters p" "p_queue p" "p_ended p" "p_out p"]
  by (auto simp: deliver_def handed_out_def split: prod.splits)

lemma deliver_ended [simp]: "p_ended (deliver p) = p_ended p"
  by (simp add: deliver_def split: prod.split)

lemma next_order: "handed_out (pipe_next p) @ p_queue (pipe_next p) = handed_out p @ p_queue p" "p_ended (pipe_next p) = p_ended p"
  by (simp_all add: pipe_next_def Let_def handed_out_def map_filter_snoc split: list.split)

lemma pipe_order:
  "handed_out (run pipe_step p ops) @ p_queue (run pipe_step p ops) =
     handed_out p @ p_queue p @ (if p_ended p then [] else pushed ops)"
proof (induction ops arbitrary: p)
  case (Cons op ops)
  have frame: "handed_out (p\<lparr>p_queue := q\<rparr>) = handed_out p" "handed_out (p\<lparr>p_ended := b\<rparr>) = handed_out p" for q b
    by (simp_all add: handed_out_def)
  show ?case
    using Cons.IH [of "pipe_step p op"] next_order [of p] deliver_order [of "p\<lparr>p_queue := p_queue p @ [_]\<rparr>"]
      deliver_order [of "p\<lparr>p_ended := True\<rparr>"]
    by (cases op) (auto simp: pipe_push_def pipe_end_def pipe_return_def frame)
qed simp

text \<open>Readers get what was pushed before the end, in order, and what they have not got yet is queued.\<close>

lemma pipe_is_fifo: "handed_out (run pipe_step create_pipe ops) @ p_queue (run pipe_step create_pipe ops) = pushed ops"
  using pipe_order [of create_pipe ops] by (simp add: create_pipe_def handed_out_def List.map_filter_simps)

section \<open>Every request is settled once\<close>

definition issued :: "connection \<Rightarrow> js list" where
  "issued c = map (\<lambda>k. JNum (of_nat k)) [1..<next_id c]"

text \<open>An answer that says \<^verbatim>\<open>"error": null\<close>.\<close>

definition null_error :: "js \<Rightarrow> js \<Rightarrow> bool" where
  "null_error i m \<longleftrightarrow> is_response m \<and> is_error_response m \<and> nullish (prop_of ''error'' m) \<and> prop_of ''id'' m = i"

definition rpc_ok :: "connection \<Rightarrow> bool" where
  "rpc_ok c \<longleftrightarrow>
     1 \<le> next_id c \<and> distinct (map fst (settled c) @ pending c) \<and>
     set (map fst (settled c) @ pending c) \<subseteq> set (issued c) \<and>
     (\<forall>i \<in> set (issued c). i \<in> set (map fst (settled c) @ pending c) \<or> list_ex (null_error i) (received c)) \<and>
     (closed_reason c \<noteq> None \<longrightarrow> pending c = [])"

lemma emit_error_fields [simp]:
  "pending (emit_error e c) = pending c" "next_id (emit_error e c) = next_id c" "settled (emit_error e c) = settled c"
  "received (emit_error e c) = received c" "closed_reason (emit_error e c) = closed_reason c"
  "rd_buffer (emit_error e c) = rd_buffer c" "reader_done (emit_error e c) = reader_done c"
  "close_requested (emit_error e c) = close_requested c"
  "writer_closed (emit_error e c) = writer_closed c" "issued (emit_error e c) = issued c"
  by (simp_all add: emit_error_def issued_def)

lemma rpc_ok_cong:
  "pending c' = pending c \<Longrightarrow> next_id c' = next_id c \<Longrightarrow> settled c' = settled c \<Longrightarrow> received c' = received c \<Longrightarrow>
     closed_reason c' = closed_reason c \<Longrightarrow> rpc_ok c' = rpc_ok c"
  by (simp add: rpc_ok_def issued_def)

lemma rpc_ok_emit [simp]: "rpc_ok (emit_error e c) = rpc_ok c"
  by (rule rpc_ok_cong) simp_all

lemma rpc_ok_handlers [simp]:
  "rpc_ok (c\<lparr>note_handlers := hs\<rparr>) = rpc_ok c" "rpc_ok (c\<lparr>err_handlers := hs\<rparr>) = rpc_ok c" "rpc_ok (c\<lparr>rd_buffer := b\<rparr>) = rpc_ok c"
  by (rule rpc_ok_cong; simp)+

lemma rpc_ok_settle: "rpc_ok c \<Longrightarrow> i \<in> set (pending c) \<Longrightarrow> rpc_ok (settle i v c)"
  by (auto simp: rpc_ok_def settle_def issued_def)

lemma rpc_ok_give_up: "rpc_ok c \<Longrightarrow> rpc_ok (give_up i e c)"
  by (simp add: give_up_def rpc_ok_settle)

lemma rpc_ok_lose: "rpc_ok c \<Longrightarrow> list_ex (null_error i) (received c) \<Longrightarrow>
    rpc_ok (c\<lparr>pending := filter (\<lambda>j. j \<noteq> i) (pending c)\<rparr>)"
  by (auto simp: rpc_ok_def issued_def)

lemma rpc_ok_response:
  "rpc_ok c \<Longrightarrow> is_response m \<Longrightarrow> m \<in> set (received c) \<Longrightarrow> rpc_ok (dispatch_response m c)"
  unfolding dispatch_response_def Let_def
  by (auto simp: rpc_ok_settle null_error_def list_ex_iff intro!: rpc_ok_lose)

lemma rpc_ok_write: "rpc_ok (snd (write_chunk m c)) = rpc_ok c"
  by (rule rpc_ok_cong) (simp_all add: write_chunk_def)

lemma rpc_ok_notify: "rpc_ok c \<Longrightarrow> rpc_ok (notify_all throws m p hs c)"
proof (induction hs arbitrary: c)
  case (Cons h hs)
  have "rpc_ok (c\<lparr>notified := notified c @ [(h, m, p)]\<rparr>)" using Cons.prems by (subst rpc_ok_cong [of _ c]) simp_all
  with Cons.IH show ?case by (simp add: Let_def split: option.split)
qed simp

lemma rpc_ok_message: "rpc_ok c \<Longrightarrow> m \<in> set (received c) \<Longrightarrow> rpc_ok (dispatch_message throws m c)"
  using rpc_ok_write [of "no_method_reply (prop_of ''id'' m) _" c]
  by (auto simp: dispatch_message_def rpc_ok_response rpc_ok_notify split: js.split prod.splits option.split)
    (metis snd_conv)+

lemma rpc_ok_line: "rpc_ok c \<Longrightarrow> rpc_ok (read_line parse throws l c)"
proof -
  assume "rpc_ok c"
  then have "rpc_ok (c\<lparr>received := received c @ [m]\<rparr>)" for m by (auto simp: rpc_ok_def issued_def)
  then show ?thesis using \<open>rpc_ok c\<close> by (auto simp: read_line_def rpc_ok_message split: sum.split)
qed

interpretation rpc_lines: step_invariant "\<lambda>c l. read_line parse throws l c" rpc_ok for parse throws
  by unfold_locales (rule rpc_ok_line)

lemma fold_run: "fold f xs s = run (\<lambda>s x. f x s) s xs"
  by (induction xs arbitrary: s) simp_all

lemma rpc_ok_chunk: "rpc_ok c \<Longrightarrow> rpc_ok (read_chunk parse throws chunk c)"
proof -
  assume "rpc_ok c"
  then have "rpc_ok (c\<lparr>rd_buffer := b\<rparr>)" for b by (subst rpc_ok_cong [of _ c]) simp_all
  then show ?thesis
    by (auto simp: read_chunk_def fold_run split: prod.split intro!: rpc_lines.run_good)
qed

lemma rpc_ok_reject:
  "rpc_ok c \<Longrightarrow> pending c' = pending c \<Longrightarrow> next_id c' = next_id c \<Longrightarrow> settled c' = settled c \<Longrightarrow> received c' = received c \<Longrightarrow>
     rpc_ok (reject_all e c')"
  by (auto simp: rpc_ok_def reject_all_def issued_def comp_def)

lemma rpc_ok_request: "rpc_ok c \<Longrightarrow> rpc_ok (snd (rpc_request m p a c))"
proof (cases "writer_closed c \<or> closed_reason c \<noteq> None \<or> a \<noteq> None")
  case False
  assume ok: "rpc_ok c"
  let ?i = "JNum (of_nat (next_id c))" and ?c = "c\<lparr>next_id := next_id c + 1, pending := pending c @ [JNum (of_nat (next_id c))]\<rparr>"
  have new: "?i \<notin> set (issued c)" by (auto simp: issued_def)
  have ids: "issued ?c = issued c @ [?i]" using ok by (simp add: rpc_ok_def issued_def)
  have "rpc_ok ?c"
    unfolding rpc_ok_def ids using ok False new by (auto simp: rpc_ok_def)
  with False show ?thesis by (auto simp: rpc_request_def rpc_ok_write Let_def split: option.split)
qed (auto simp: rpc_request_def split: option.split)

lemma rpc_ok_step: "rpc_ok c \<Longrightarrow> rpc_ok (connection_step parse throws c s)"
proof (cases s)
  case (Close_conn)
  assume "rpc_ok c"
  then show ?thesis by (auto simp: Close_conn close_connection_def intro: rpc_ok_reject)
next
  case (Source_ends e)
  have "rpc_ok c \<Longrightarrow> rpc_ok (end_reader c)" for c
    by (auto simp: end_reader_def intro: rpc_ok_reject)
  moreover assume "rpc_ok c"
  ultimately show ?thesis using Source_ends by (simp split: option.split)
next
  case (Notify m p)
  moreover assume "rpc_ok c"
  ultimately show ?thesis by (simp add: rpc_notify_def rpc_ok_write)
qed (simp_all add: rpc_ok_request rpc_ok_give_up rpc_ok_chunk)

interpretation rpc_steps: step_invariant "connection_step parse throws" rpc_ok for parse throws
  by unfold_locales (rule rpc_ok_step)

lemma rpc_ok_create: "rpc_ok create_connection"
  by (simp add: rpc_ok_def create_connection_def issued_def)

lemma rpc_ok_run: "rpc_ok (run (connection_step parse throws) create_connection steps)"
  by (rule rpc_steps.run_good) (rule rpc_ok_create)

section \<open>After the end\<close>

definition ends_it :: "rpc_step \<Rightarrow> bool" where
  "ends_it s \<longleftrightarrow> s = Close_conn \<or> (\<exists>e. s = Source_ends e)"

definition ended :: "connection \<Rightarrow> bool" where
  "ended c \<longleftrightarrow> closed_reason c \<noteq> None"

lemma notify_all_fields [simp]:
  "pending (notify_all throws m p hs c) = pending c" "next_id (notify_all throws m p hs c) = next_id c"
  "settled (notify_all throws m p hs c) = settled c" "closed_reason (notify_all throws m p hs c) = closed_reason c"
  "reader_done (notify_all throws m p hs c) = reader_done c" "close_requested (notify_all throws m p hs c) = close_requested c"
  by (induction hs arbitrary: c) (simp_all add: Let_def split: option.split)

lemma write_chunk_fields [simp]:
  "pending (snd (write_chunk m c)) = pending c" "next_id (snd (write_chunk m c)) = next_id c"
  "settled (snd (write_chunk m c)) = settled c" "closed_reason (snd (write_chunk m c)) = closed_reason c"
  "reader_done (snd (write_chunk m c)) = reader_done c"
  by (simp_all add: write_chunk_def)

text \<open>What a message can do to the requests: take the one it answers out, with or without settling it.\<close>

lemma dispatch_other:
  "\<not> is_response m \<Longrightarrow> pending (dispatch_message throws m c) = pending c \<and> settled (dispatch_message throws m c) = settled c"
  by (auto simp: dispatch_message_def write_chunk_def split: js.split)

lemma dispatch_effect:
  "pending (dispatch_message throws m c) = pending c \<and> settled (dispatch_message throws m c) = settled c \<or>
   (\<exists>i \<in> set (pending c). pending (dispatch_message throws m c) = filter (\<lambda>j. j \<noteq> i) (pending c) \<and>
       (settled (dispatch_message throws m c) = settled c \<or>
        (\<exists>v. settled (dispatch_message throws m c) = settled c @ [(i, v)])))"
proof (cases "is_response m")
  case True
  then have "dispatch_message throws m c = dispatch_response m c" by (simp add: dispatch_message_def)
  then show ?thesis by (auto simp: dispatch_response_def Let_def settle_def)
qed (simp add: dispatch_other)

lemma dispatch_fields:
  "closed_reason (dispatch_message throws m c) = closed_reason c" "next_id (dispatch_message throws m c) = next_id c"
  "reader_done (dispatch_message throws m c) = reader_done c" "close_requested (dispatch_message throws m c) = close_requested c"
  by (auto simp: dispatch_message_def dispatch_response_def Let_def settle_def write_chunk_def split: js.split option.split)

lemma read_line_fields:
  "closed_reason (read_line parse throws l c) = closed_reason c" "next_id (read_line parse throws l c) = next_id c"
  "reader_done (read_line parse throws l c) = reader_done c" "close_requested (read_line parse throws l c) = close_requested c"
  by (simp_all add: read_line_def dispatch_fields split: sum.split)

lemma read_lines_fields:
  "closed_reason (fold (read_line parse throws) ls c) = closed_reason c"
  "next_id (fold (read_line parse throws) ls c) = next_id c"
  "reader_done (fold (read_line parse throws) ls c) = reader_done c"
  "close_requested (fold (read_line parse throws) ls c) = close_requested c"
  by (induction ls arbitrary: c) (simp_all add: read_line_fields)

text \<open>Once closed, or once the source has ended, the connection has a reason to reject with, for good.\<close>

definition closes_well :: "connection \<Rightarrow> bool" where
  "closes_well c \<longleftrightarrow> (close_requested c \<or> reader_done c \<longrightarrow> ended c)"

lemma step_fields:
  assumes "\<not> ends_it s"
  shows "closed_reason (connection_step parse throws c s) = closed_reason c \<and> reader_done (connection_step parse throws c s) = reader_done c \<and>
         close_requested (connection_step parse throws c s) = close_requested c"
  using assms
  by (cases s) (simp_all add: ends_it_def rpc_request_def rpc_notify_def write_chunk_def give_up_def settle_def read_chunk_def
      read_lines_fields Let_def split: option.split prod.split)

lemma ends_it_ends: "closes_well c \<Longrightarrow> ends_it s \<Longrightarrow> ended (connection_step parse throws c s)"
  by (auto simp: ends_it_def closes_well_def ended_def close_connection_def end_reader_def reject_all_def)

lemma closes_well_step: "closes_well c \<Longrightarrow> closes_well (connection_step parse throws c s)"
  using step_fields [of s parse throws c] ends_it_ends [of c s parse throws]
  by (cases "ends_it s") (simp_all add: closes_well_def ended_def)

interpretation closing: step_invariant "connection_step parse throws" closes_well for parse throws
  by unfold_locales (rule closes_well_step)

lemma ended_step: "ended c \<Longrightarrow> closes_well c \<Longrightarrow> ended (connection_step parse throws c s)"
  using step_fields [of s parse throws c] ends_it_ends [of c s parse throws] by (cases "ends_it s") (simp_all add: ended_def)

interpretation ending: step_invariant "connection_step parse throws" "\<lambda>c. ended c \<and> closes_well c" for parse throws
  by unfold_locales (simp add: ended_step closes_well_step)

lemma run_ends:
  assumes "s \<in> set steps" "ends_it s" "closes_well c"
  shows "ended (run (connection_step parse throws) c steps)"
proof -
  obtain xs ys where steps: "steps = xs @ s # ys" using split_list [OF assms(1)] by blast
  let ?c = "run (connection_step parse throws) c xs"
  have ok: "closes_well ?c" using closing.run_good [OF assms(3)] .
  then have "ended (connection_step parse throws ?c s) \<and> closes_well (connection_step parse throws ?c s)"
    using assms(2) by (simp add: ends_it_ends closes_well_step)
  from ending.run_good [OF this] show ?thesis by (simp add: steps run_append)
qed

section \<open>A request that is lost\<close>

text \<open>A request that no longer waits and was never settled.\<close>

definition lost :: "js \<Rightarrow> connection \<Rightarrow> bool" where
  "lost i c \<longleftrightarrow> i \<in> set (issued c) \<and> i \<notin> set (map fst (settled c)) \<and> i \<notin> set (pending c)"

lemma lost_emit: "lost i (emit_error e c) = lost i c"
  by (simp add: lost_def)

lemma lost_message: "lost i c \<Longrightarrow> lost i (dispatch_message throws m c)"
  using dispatch_effect [of throws m c] by (auto simp: lost_def issued_def dispatch_fields)

lemma lost_line: "lost i c \<Longrightarrow> lost i (read_line parse throws l c)"
proof -
  assume *: "lost i c"
  then have "lost i (c\<lparr>received := ms\<rparr>)" for ms by (simp add: lost_def issued_def)
  then show ?thesis using * by (simp add: read_line_def lost_message lost_emit split: sum.split)
qed

interpretation lost_lines: step_invariant "\<lambda>c l. read_line parse throws l c" "lost i" for parse throws i
  by unfold_locales (rule lost_line)

lemma lost_request: "lost i c \<Longrightarrow> lost i (snd (rpc_request m p a c))"
  by (auto simp: rpc_request_def lost_def issued_def Let_def split: option.split)

lemma lost_chunk: "lost i c \<Longrightarrow> lost i (read_chunk parse throws chunk c)"
proof -
  assume "lost i c"
  then have "lost i (c\<lparr>rd_buffer := b\<rparr>)" for b by (simp add: lost_def issued_def)
  then show ?thesis by (auto simp: read_chunk_def fold_run split: prod.split intro!: lost_lines.run_good)
qed

lemma lost_step: "lost i c \<Longrightarrow> lost i (connection_step parse throws c s)"
proof (cases s)
  case (Request m p a)
  moreover assume "lost i c"
  ultimately show ?thesis by (simp add: lost_request)
next
  case (Arrive chunk)
  moreover assume "lost i c"
  ultimately show ?thesis by (simp add: lost_chunk)
qed (auto simp: lost_def issued_def rpc_notify_def give_up_def settle_def end_reader_def close_connection_def reject_all_def
       split: option.split)

interpretation lost_steps: step_invariant "connection_step parse throws" "lost i" for parse throws i
  by unfold_locales (rule lost_step)

section \<open>Chunks\<close>

lemma emit_buffer: "emit_error e (c\<lparr>rd_buffer := b\<rparr>) = (emit_error e c)\<lparr>rd_buffer := b\<rparr>"
  by (simp add: emit_error_def)

lemma notify_all_buffer: "notify_all throws m p hs (c\<lparr>rd_buffer := b\<rparr>) = (notify_all throws m p hs c)\<lparr>rd_buffer := b\<rparr>"
proof (induction hs arbitrary: c)
  case (Cons h hs)
  have swap: "c\<lparr>rd_buffer := b, notified := x\<rparr> = c\<lparr>notified := x, rd_buffer := b\<rparr>" for x by (cases c) simp
  show ?case
    using Cons.IH [of "c\<lparr>notified := notified c @ [(h, m, p)]\<rparr>"]
      Cons.IH [of "emit_error _ (c\<lparr>notified := notified c @ [(h, m, p)]\<rparr>)"]
    by (simp add: Let_def swap emit_buffer [symmetric] split: option.split)
qed simp

lemma response_buffer: "dispatch_response m (c\<lparr>rd_buffer := b\<rparr>) = (dispatch_response m c)\<lparr>rd_buffer := b\<rparr>"
  by (simp add: dispatch_response_def settle_def Let_def emit_error_def)

lemma write_buffer: "write_chunk m (c\<lparr>rd_buffer := b\<rparr>) = (fst (write_chunk m c), (snd (write_chunk m c))\<lparr>rd_buffer := b\<rparr>)"
  by (simp add: write_chunk_def)

lemma message_buffer: "dispatch_message throws m (c\<lparr>rd_buffer := b\<rparr>) = (dispatch_message throws m c)\<lparr>rd_buffer := b\<rparr>"
  by (simp add: dispatch_message_def response_buffer notify_all_buffer emit_buffer write_buffer split: js.split prod.split option.split)

lemma line_buffer: "read_line parse throws l (c\<lparr>rd_buffer := b\<rparr>) = (read_line parse throws l c)\<lparr>rd_buffer := b\<rparr>"
proof -
  have swap: "c\<lparr>rd_buffer := b, received := x\<rparr> = c\<lparr>received := x, rd_buffer := b\<rparr>" for x by (cases c) simp
  show ?thesis by (simp add: read_line_def emit_buffer swap message_buffer split: sum.split)
qed

lemma lines_buffer: "fold (read_line parse throws) ls (c\<lparr>rd_buffer := b\<rparr>) = (fold (read_line parse throws) ls c)\<lparr>rd_buffer := b\<rparr>"
  by (induction ls arbitrary: c) (simp_all add: line_buffer)

text \<open>Chunks act as the lines they are cut into.\<close>

lemma chunks_as_lines:
  assumes "\<not> reader_done c"
  shows "run (connection_step parse throws) c (map Arrive cs) =
     (case feed lb_push (rd_buffer c) cs of (ls, rest) \<Rightarrow> (fold (read_line parse throws) ls c)\<lparr>rd_buffer := rest\<rparr>)"
  using assms
proof (induction cs arbitrary: c)
  case (Cons x cs)
  obtain ls b where x: "lb_push (rd_buffer c) x = (ls, b)" by fastforce
  let ?c = "(fold (read_line parse throws) ls c)\<lparr>rd_buffer := b\<rparr>"
  have "connection_step parse throws c (Arrive x) = ?c"
    using Cons.prems x by (simp add: read_chunk_def lines_buffer)
  moreover have "\<not> reader_done ?c" using Cons.prems by (simp add: read_lines_fields)
  ultimately show ?case
    using Cons.IH [of ?c] x by (simp add: lines_buffer split: prod.split)
qed simp

section \<open>Properties\<close>

text \<open>C27. No request is settled twice or settled while it still waits, and only requests that were made are settled; a request that
  neither waits nor was settled got an answer with \<^verbatim>\<open>"error": null\<close>. This holds after any sequence of calls, chunks,
  failures, aborts and closes.\<close>

theorem requests_settled_once:
  "let c = run (connection_step parse throws) create_connection steps
   in distinct (map fst (settled c) @ pending c) \<and> set (map fst (settled c) @ pending c) \<subseteq> set (issued c) \<and>
      set (issued c) - set (map fst (settled c) @ pending c) \<subseteq> {i. list_ex (null_error i) (received c)}"
  using rpc_ok_run [of parse throws steps] by (auto simp: rpc_ok_def Let_def)

text \<open>Once the connection has been closed or its source has ended, nothing waits any more: every request is settled, except the
  ones answered with \<^verbatim>\<open>"error": null\<close>, and a new request is rejected at once.\<close>

lemma end_settles_everything:
  assumes "s \<in> set steps" "ends_it s" "c = run (connection_step parse throws) create_connection steps"
  shows "pending c = [] \<and> set (issued c) \<subseteq> set (map fst (settled c)) \<union> {i. list_ex (null_error i) (received c)} \<and>
         (\<exists>e. rpc_request m p a c = (Inl e, c))"
proof -
  have "ended c"
    unfolding assms(3) using assms(1,2) by (rule run_ends) (simp add: closes_well_def create_connection_def)
  moreover from this have "pending c = []"
    using rpc_ok_run [of parse throws steps] assms(3) by (simp add: rpc_ok_def ended_def)
  ultimately show ?thesis
    using rpc_ok_run [of parse throws steps] assms(3) by (auto simp: rpc_ok_def ended_def rpc_request_def)
qed

text \<open>A response reaches the request it answers however the stream is cut into chunks: the request is settled with the result,
  or with the error, and nothing else changes.\<close>

lemma response_settles_request:
  assumes "\<not> reader_done c" "rd_buffer c = []" "i \<in> set (pending c)" "i \<noteq> JNull"
    and "parse line = Inr m" "is_response m" "prop_of ''id'' m = i" "\<not> null_error i m"
    and "LF \<notin> set line" "line \<noteq> []" "last line \<noteq> CR" "concat cs = line @ [LF]"
  shows "run (connection_step parse throws) c (map Arrive cs) =
           settle i (if is_error_response m then Inl (Remote_error (prop_of ''error'' m)) else Inr (prop_of ''result'' m))
             (c\<lparr>received := received c @ [m]\<rparr>)"
proof -
  have "feed lb_push [] cs = lb_push [] (line @ [LF])"
    using line_reader.feed_concat [of "[]" cs] assms(12) by (simp add: no_line_def)
  also have "\<dots> = ([line], [])"
    using take_lines_line [of line "[]"] assms(9,10,11) by (simp add: lb_push_def no_line_def take_lines_none strip_cr_def)
  finally have "run (connection_step parse throws) c (map Arrive cs) = (read_line parse throws line c)\<lparr>rd_buffer := []\<rparr>"
    using chunks_as_lines [OF assms(1)] assms(2) by simp
  moreover have "read_line parse throws line c =
      settle i (if is_error_response m then Inl (Remote_error (prop_of ''error'' m)) else Inr (prop_of ''result'' m))
             (c\<lparr>received := received c @ [m]\<rparr>)"
    using assms(3-8)
    by (auto simp: read_line_def parse_message_def is_response_def dispatch_message_def dispatch_response_def null_error_def Let_def)
  ultimately show ?thesis using assms(2) by (simp add: settle_def)
qed

text \<open>A connection with one request, and two answers to it.\<close>

definition one_request :: connection where
  "one_request = snd (rpc_request ''a'' JNull None create_connection)"

definition good_answer :: js where
  "good_answer = JObj [(''jsonrpc'', JStr ''2.0''), (''id'', JNum 1), (''result'', JBool True)]"

definition null_answer :: js where
  "null_answer = JObj [(''jsonrpc'', JStr ''2.0''), (''id'', JNum 1), (''result'', JBool True), (''error'', JNull)]"

lemma one_request_fields:
  "pending one_request = [JNum 1]" "rd_buffer one_request = []" "\<not> reader_done one_request" "settled one_request = []"
  by (simp_all add: one_request_def rpc_request_def create_connection_def write_chunk_def Let_def)

lemma one_request_ok: "rpc_ok one_request"
  by (simp add: one_request_def rpc_ok_request rpc_ok_create)

text \<open>An answer that carries \<^verbatim>\<open>"error": null\<close>, as servers of JSON-RPC 1.0 send with every result, takes the request out of the
  waiting ones and throws before it is settled: the request is never settled, not even when the connection closes.\<close>

lemma null_error_never_settles:
  assumes "i \<in> set (pending c)" "i \<noteq> JNull" "rpc_ok c" "parse line = Inr m" "null_error i m"
  shows "i \<notin> set (map fst (settled (run (connection_step parse throws) (read_line parse throws line c) steps)))"
proof -
  have "read_line parse throws line c =
      emit_error Type_error (c\<lparr>received := received c @ [m], pending := filter (\<lambda>j. j \<noteq> i) (pending c)\<rparr>)"
    using assms(1,2,4,5)
    by (auto simp: read_line_def parse_message_def is_response_def dispatch_message_def dispatch_response_def null_error_def Let_def)
  then have "lost i (read_line parse throws line c)"
    using assms(1,3) by (auto simp: lost_emit lost_def issued_def rpc_ok_def)
  from lost_steps.run_good [OF this] show ?thesis by (simp add: lost_def)
qed

end
