(* ===== verification/McpClient.thy ===== *)
theory McpClient imports JsonRpc "HOL-Library.Multiset" begin

text \<open>
  The MCP client of \<^verbatim>\<open>core/src/mcp/stdio-client.ts\<close>: one server over connections that are opened again when they close. The pieces
  of its asynchronous methods between two suspensions are the steps of a machine: a caller asks, a connection is opened or not,
  the handshake is answered or not, a connection closes, an answer arrives, the sleep of a restart loop is over. Connections and
  callers are numbers. \<open>mc_live\<close> holds the connections that were opened and have not been closed, \<open>mc_sent\<close> the messages
  written, \<open>mc_exits\<close> the exits told to the lifecycle handlers.

  Shown: every caller is answered once and never waits on a closed connection; a handshake that is still in flight at
  \<^verbatim>\<open>shutdown\<close> leaves its connection open for ever; and \<^verbatim>\<open>initialize\<close> sends nothing once there is a session.
\<close>

section \<open>Answers of the server\<close>

datatype mcp_status = Client_starting | Client_ready | Client_reconnecting | Client_failed | Client_stopped

datatype exit_reason = Exit_shutdown | Exit_transport_closed | Exit_init_failed | Exit_restart_failed

datatype parse_fault =
    Expected_object string
  | No_protocol_version
  | No_tools_array
  | Entry_not_object nat
  | Entry_without_name nat
  | No_contents_array
  | Entry_without_uri nat

record server_info =
  si_protocol :: string
  si_name :: string
  si_version :: string
  si_capabilities :: js

record mcp_tool =
  mt_name :: string
  mt_description :: "string option"
  mt_schema :: js

record resource_contents =
  rc_uri :: string
  rc_mime :: "string option"
  rc_text :: "string option"
  rc_blob :: "string option"

definition str_or :: "string \<Rightarrow> js \<Rightarrow> string" where
  "str_or d v = (case v of JStr s \<Rightarrow> s | _ \<Rightarrow> d)"

definition opt_str :: "js \<Rightarrow> string option" where
  "opt_str v = (case v of JStr s \<Rightarrow> Some s | _ \<Rightarrow> None)"

definition parse_init_result :: "js \<Rightarrow> parse_fault + server_info" where
  "parse_init_result v =
     (if \<not> is_object v then Inl (Expected_object ''initialize'')
      else case prop_of ''protocolVersion'' v of
          JStr pv \<Rightarrow>
            Inr \<lparr>si_protocol = pv, si_name = str_or ''unknown'' (prop_of ''name'' (prop_of ''serverInfo'' v)),
                 si_version = str_or ''0.0.0'' (prop_of ''version'' (prop_of ''serverInfo'' v)),
                 si_capabilities = (if nullish (prop_of ''capabilities'' v) then JObj [] else prop_of ''capabilities'' v)\<rparr>
        | _ \<Rightarrow> Inl No_protocol_version)"

definition parse_tool :: "nat \<Rightarrow> js \<Rightarrow> parse_fault + mcp_tool" where
  "parse_tool i v =
     (if \<not> is_object v then Inl (Entry_not_object i)
      else case prop_of ''name'' v of
          JStr n \<Rightarrow>
            Inr \<lparr>mt_name = n, mt_description = opt_str (prop_of ''description'' v),
                 mt_schema = (if is_object (prop_of ''inputSchema'' v) then prop_of ''inputSchema'' v
                              else JObj [(''type'', JStr ''object'')])\<rparr>
        | _ \<Rightarrow> Inl (Entry_without_name i))"

fun parse_each :: "(nat \<Rightarrow> js \<Rightarrow> parse_fault + 'a) \<Rightarrow> nat \<Rightarrow> js list \<Rightarrow> parse_fault + 'a list" where
  "parse_each f i [] = Inr []"
| "parse_each f i (v # vs) = bind_err (f i v) (\<lambda>x. bind_err (parse_each f (i + 1) vs) (\<lambda>xs. Inr (x # xs)))"

definition parse_tools_list :: "js \<Rightarrow> parse_fault + mcp_tool list" where
  "parse_tools_list v =
     (if \<not> is_object v then Inl (Expected_object ''tools/list'')
      else case prop_of ''tools'' v of JArr ts \<Rightarrow> parse_each parse_tool 0 ts | _ \<Rightarrow> Inl No_tools_array)"

definition parse_tool_result :: "js \<Rightarrow> parse_fault + js list \<times> bool option" where
  "parse_tool_result v =
     (if \<not> is_object v then Inl (Expected_object ''tools/call'')
      else Inr (case prop_of ''content'' v of JArr xs \<Rightarrow> xs | _ \<Rightarrow> [],
                case prop_of ''isError'' v of JBool b \<Rightarrow> Some b | _ \<Rightarrow> None))"

definition parse_resource :: "nat \<Rightarrow> js \<Rightarrow> parse_fault + resource_contents" where
  "parse_resource i v =
     (if \<not> is_object v then Inl (Entry_not_object i)
      else case prop_of ''uri'' v of
          JStr u \<Rightarrow> Inr \<lparr>rc_uri = u, rc_mime = opt_str (prop_of ''mimeType'' v), rc_text = opt_str (prop_of ''text'' v),
                        rc_blob = opt_str (prop_of ''blob'' v)\<rparr>
        | _ \<Rightarrow> Inl (Entry_without_uri i))"

definition parse_resource_read :: "js \<Rightarrow> parse_fault + resource_contents list" where
  "parse_resource_read v =
     (if \<not> is_object v then Inl (Expected_object ''resources/read'')
      else case prop_of ''contents'' v of JArr xs \<Rightarrow> parse_each parse_resource 0 xs | _ \<Rightarrow> Inl No_contents_array)"

section \<open>The client\<close>

datatype client_error = Unavailable mcp_status | Rpc_failed rpc_error | Bad_answer parse_fault | Connect_error string

datatype client_op = Op_initialize | Op_list_tools | Op_call_tool string js | Op_read_resource string

datatype request_kind = Tools_list | Tools_call | Resources_read

datatype client_value =
    V_info server_info
  | V_tools "mcp_tool list"
  | V_result "js list" "bool option"
  | V_resources "resource_contents list"

text \<open>A run of \<^verbatim>\<open>startSession\<close>: whether a restart loop awaits it, and its connection once it has one.\<close>

record session_start =
  ss_id :: nat
  ss_loop :: bool
  ss_conn :: "nat option"

record mcp_client =
  mc_protocol :: string
  mc_info :: "string \<times> string"
  mc_max_failures :: nat
  mc_status :: mcp_status
  mc_session :: "(nat \<times> server_info) option"
  mc_tools :: "mcp_tool list option"
  mc_init :: "nat option"
  mc_failures :: nat
  mc_stopped :: bool
  mc_starts :: "session_start list"
  mc_sleeping :: "nat list"
  mc_next_start :: nat
  mc_next_conn :: nat
  mc_live :: "nat list"
  mc_waiting :: "(nat \<times> client_op) list"
  mc_out :: "(nat \<times> nat \<times> request_kind) list"
  mc_answers :: "(nat \<times> (client_error + client_value)) list"
  mc_next_call :: nat
  mc_sent :: "(nat \<times> string \<times> js) list"
  mc_exits :: "exit_reason list"
  mc_spawned :: "server_info list"
  mc_handlers :: "nat list"
  mc_notified :: "nat list"

definition create_client :: "string \<Rightarrow> (string \<times> string) option \<Rightarrow> nat option \<Rightarrow> mcp_client" where
  "create_client pv ci m =
     \<lparr>mc_protocol = pv, mc_info = (case ci of None \<Rightarrow> (''declaragent'', ''0.0.1'') | Some x \<Rightarrow> x), mc_max_failures = (case m of None \<Rightarrow> 5 | Some n \<Rightarrow> n), mc_status = Client_starting, mc_session = None, mc_tools = None,
      mc_init = None, mc_failures = 0, mc_stopped = False, mc_starts = [], mc_sleeping = [], mc_next_start = 0, mc_next_conn = 0,
      mc_live = [], mc_waiting = [], mc_out = [], mc_answers = [], mc_next_call = 0, mc_sent = [], mc_exits = [],
      mc_spawned = [], mc_handlers = [], mc_notified = []\<rparr>"

definition default_backoff :: "nat \<Rightarrow> nat" where
  "default_backoff attempt = min (500 * 2 ^ attempt) 30000"

definition answer :: "nat \<Rightarrow> client_error + client_value \<Rightarrow> mcp_client \<Rightarrow> mcp_client" where
  "answer i r s = s\<lparr>mc_answers := mc_answers s @ [(i, r)]\<rparr>"

definition emit_exit :: "exit_reason \<Rightarrow> mcp_client \<Rightarrow> mcp_client" where
  "emit_exit r s = s\<lparr>mc_exits := mc_exits s @ [r]\<rparr>"

text \<open>The error of every request on a connection that is closed.\<close>

abbreviation conn_gone :: rpc_error where
  "conn_gone \<equiv> Transport_closed ''JSON-RPC transport closed before response''"

definition send_on :: "nat \<Rightarrow> nat \<Rightarrow> string \<Rightarrow> js \<Rightarrow> request_kind \<Rightarrow> mcp_client \<Rightarrow> mcp_client" where
  "send_on i c m p q s =
     (if c \<notin> set (mc_live s) then answer i (Inl (Rpc_failed conn_gone)) s
      else s\<lparr>mc_sent := mc_sent s @ [(c, m, p)], mc_out := mc_out s @ [(i, c, q)]\<rparr>)"

text \<open>What a caller does after \<^verbatim>\<open>ensureSession\<close> returned.\<close>

definition proceed :: "nat \<times> client_op \<Rightarrow> mcp_client \<Rightarrow> mcp_client" where
  "proceed e s =
     (case e of (i, op) \<Rightarrow>
       (case mc_session s of
          None \<Rightarrow> answer i (Inl (Unavailable (mc_status s))) s
        | Some (c, info) \<Rightarrow>
            (case op of
               Op_initialize \<Rightarrow> answer i (Inr (V_info info)) s
             | Op_list_tools \<Rightarrow>
                 (case mc_tools s of
                    Some ts \<Rightarrow> answer i (Inr (V_tools ts)) s
                  | None \<Rightarrow> send_on i c ''tools/list'' JUndef Tools_list s)
             | Op_call_tool n v \<Rightarrow>
                 send_on i c ''tools/call'' (JObj [(''name'', JStr n), (''arguments'', if nullish v then JObj [] else v)]) Tools_call s
             | Op_read_resource u \<Rightarrow> send_on i c ''resources/read'' (JObj [(''uri'', JStr u)]) Resources_read s)))"

definition begin_start :: "bool \<Rightarrow> mcp_client \<Rightarrow> mcp_client" where
  "begin_start lp s =
     s\<lparr>mc_starts := mc_starts s @ [\<lparr>ss_id = mc_next_start s, ss_loop = lp, ss_conn = None\<rparr>], mc_next_start := mc_next_start s + 1\<rparr>"

definition ask :: "client_op \<Rightarrow> mcp_client \<Rightarrow> mcp_client" where
  "ask op s0 =
     (let i = mc_next_call s0; s = s0\<lparr>mc_next_call := i + 1\<rparr>
      in if mc_session s \<noteq> None then proceed (i, op) s
         else if mc_stopped s then answer i (Inl (Unavailable Client_stopped)) s
         else if mc_status s = Client_failed then answer i (Inl (Unavailable Client_failed)) s
         else (let s1 = (if mc_init s = None then (begin_start False s)\<lparr>mc_init := Some (mc_next_start s)\<rparr> else s)
               in s1\<lparr>mc_waiting := mc_waiting s1 @ [(i, op)]\<rparr>))"

text \<open>The head of the loop of \<^verbatim>\<open>scheduleRestart\<close>: it sleeps before another attempt, or gives up.\<close>

definition restart_loop :: "mcp_client \<Rightarrow> mcp_client" where
  "restart_loop s =
     (if mc_stopped s then s
      else if mc_failures s < mc_max_failures s then s\<lparr>mc_sleeping := mc_sleeping s @ [mc_failures s]\<rparr>
      else s\<lparr>mc_status := Client_failed\<rparr>)"

definition schedule_restart :: "mcp_client \<Rightarrow> mcp_client" where
  "schedule_restart s = (if mc_stopped s then s else restart_loop (s\<lparr>mc_status := Client_reconnecting\<rparr>))"

definition slept :: "mcp_client \<Rightarrow> mcp_client" where
  "slept s =
     (case mc_sleeping s of
        [] \<Rightarrow> s
      | a # as \<Rightarrow> (let s1 = s\<lparr>mc_sleeping := as\<rparr> in if mc_stopped s1 then s1 else begin_start True s1))"

definition drop_start :: "nat \<Rightarrow> mcp_client \<Rightarrow> mcp_client" where
  "drop_start k s = s\<lparr>mc_starts := filter (\<lambda>x. ss_id x \<noteq> k) (mc_starts s)\<rparr>"

definition find_start :: "nat \<Rightarrow> mcp_client \<Rightarrow> session_start option" where
  "find_start k s = find (\<lambda>x. ss_id x = k) (mc_starts s)"

text \<open>\<^verbatim>\<open>startSession\<close> throws: in a restart loop, or under the callers that wait for the first session.\<close>

definition start_fails :: "session_start \<Rightarrow> client_error \<Rightarrow> mcp_client \<Rightarrow> mcp_client" where
  "start_fails x e s0 =
     (let s = (drop_start (ss_id x) s0)\<lparr>mc_failures := mc_failures s0 + 1\<rparr>
      in if ss_loop x then restart_loop (emit_exit Exit_restart_failed s)
         else (let s1 = emit_exit Exit_init_failed s;
                   s2 = (if mc_max_failures s1 \<le> mc_failures s1 then s1\<lparr>mc_status := Client_failed\<rparr> else schedule_restart s1)
               in s2\<lparr>mc_init := None, mc_waiting := [], mc_answers := mc_answers s2 @ map (\<lambda>(i, op). (i, Inl e)) (mc_waiting s2)\<rparr>))"

text \<open>\<^verbatim>\<open>startSession\<close> returns: nothing looks at \<^verbatim>\<open>stopped\<close> or at a session that is already there.\<close>

definition start_succeeds :: "session_start \<Rightarrow> nat \<Rightarrow> server_info \<Rightarrow> mcp_client \<Rightarrow> mcp_client" where
  "start_succeeds x c info s0 =
     (let s = (drop_start (ss_id x) s0)\<lparr>mc_session := Some (c, info), mc_failures := 0, mc_status := Client_ready,
                                       mc_spawned := mc_spawned s0 @ [info]\<rparr>
      in if ss_loop x then s
         else fold proceed (mc_waiting s) (s\<lparr>mc_init := None, mc_waiting := []\<rparr>))"

text \<open>A connection closes, by the server or by the client: the requests that wait on it are rejected.\<close>

definition close_conn :: "nat \<Rightarrow> mcp_client \<Rightarrow> mcp_client" where
  "close_conn c s =
     s\<lparr>mc_live := filter (\<lambda>d. d \<noteq> c) (mc_live s),
       mc_out := filter (\<lambda>(i, d, q). d \<noteq> c) (mc_out s),
       mc_answers := mc_answers s @
         map (\<lambda>(i, d, q). (i, Inl (Rpc_failed conn_gone)))
           (filter (\<lambda>(i, d, q). d = c) (mc_out s))\<rparr>"

definition init_params :: "mcp_client \<Rightarrow> js" where
  "init_params s =
     JObj [(''protocolVersion'', JStr (mc_protocol s)), (''capabilities'', JObj []),
           (''clientInfo'', JObj [(''name'', JStr (fst (mc_info s))), (''version'', JStr (snd (mc_info s)))])]"

definition connected :: "nat \<Rightarrow> mcp_client \<Rightarrow> mcp_client" where
  "connected k s =
     (case find_start k s of
        None \<Rightarrow> s
      | Some x \<Rightarrow>
          if ss_conn x \<noteq> None then s
          else s\<lparr>mc_starts := map (\<lambda>y. if ss_id y = k then y\<lparr>ss_conn := Some (mc_next_conn s)\<rparr> else y) (mc_starts s),
                 mc_live := mc_live s @ [mc_next_conn s], mc_sent := mc_sent s @ [(mc_next_conn s, ''initialize'', init_params s)],
                 mc_next_conn := mc_next_conn s + 1\<rparr>)"

definition connect_fails :: "nat \<Rightarrow> string \<Rightarrow> mcp_client \<Rightarrow> mcp_client" where
  "connect_fails k e s =
     (case find_start k s of
        None \<Rightarrow> s
      | Some x \<Rightarrow> if ss_conn x \<noteq> None then s else start_fails x (Connect_error e) s)"

text \<open>The answer to the handshake. A rejected request closes the connection; an answer that cannot be read does not, nor does a
  failure to write the notification that ends the handshake (\<open>note\<close> is what that write gives).\<close>

definition init_answered :: "nat \<Rightarrow> rpc_error + js \<Rightarrow> rpc_error option \<Rightarrow> mcp_client \<Rightarrow> mcp_client" where
  "init_answered k r note s =
     (case find_start k s of
        None \<Rightarrow> s
      | Some x \<Rightarrow>
          (case ss_conn x of
             None \<Rightarrow> s
           | Some c \<Rightarrow>
               (case r of
                  Inl e \<Rightarrow> start_fails x (Rpc_failed e) (close_conn c s)
                | Inr v \<Rightarrow>
                    (case parse_init_result v of
                       Inl f \<Rightarrow> start_fails x (Bad_answer f) s
                     | Inr info \<Rightarrow>
                         (case note of
                            Some e \<Rightarrow> start_fails x (Rpc_failed e) s
                          | None \<Rightarrow> start_succeeds x c info (s\<lparr>mc_sent := mc_sent s @ [(c, ''notifications/initialized'', JUndef)]\<rparr>))))))"

text \<open>The server closes a connection: the handshake on it fails, and the session on it is restarted.\<close>

definition server_closes :: "nat \<Rightarrow> mcp_client \<Rightarrow> mcp_client" where
  "server_closes c s0 =
     (let s = close_conn c s0
      in case find (\<lambda>x. ss_conn x = Some c) (mc_starts s) of
           Some x \<Rightarrow> start_fails x (Rpc_failed conn_gone) s
         | None \<Rightarrow>
             if mc_stopped s then s
             else if map_option fst (mc_session s) = Some c then
               schedule_restart (emit_exit Exit_transport_closed (s\<lparr>mc_session := None, mc_tools := None\<rparr>))
             else s)"

definition list_changed :: "mcp_client \<Rightarrow> mcp_client" where
  "list_changed s = s\<lparr>mc_tools := None, mc_notified := mc_notified s @ mc_handlers s\<rparr>"

definition rpc_answered :: "nat \<Rightarrow> rpc_error + js \<Rightarrow> mcp_client \<Rightarrow> mcp_client" where
  "rpc_answered i r s0 =
     (case find (\<lambda>e. fst e = i) (mc_out s0) of
        None \<Rightarrow> s0
      | Some (j, c, q) \<Rightarrow>
          (let s = s0\<lparr>mc_out := remove1 (j, c, q) (mc_out s0)\<rparr>
           in case r of
                Inl e \<Rightarrow> answer i (Inl (Rpc_failed e)) s
              | Inr v \<Rightarrow>
                  (case q of
                     Tools_list \<Rightarrow>
                       (case parse_tools_list v of
                          Inl f \<Rightarrow> answer i (Inl (Bad_answer f)) s
                        | Inr ts \<Rightarrow> answer i (Inr (V_tools ts)) (s\<lparr>mc_tools := Some ts\<rparr>))
                   | Tools_call \<Rightarrow>
                       (case parse_tool_result v of
                          Inl f \<Rightarrow> answer i (Inl (Bad_answer f)) s
                        | Inr (xs, b) \<Rightarrow> answer i (Inr (V_result xs b)) s)
                   | Resources_read \<Rightarrow>
                       (case parse_resource_read v of
                          Inl f \<Rightarrow> answer i (Inl (Bad_answer f)) s
                        | Inr rs \<Rightarrow> answer i (Inr (V_resources rs)) s))))"

definition shutdown_client :: "mcp_client \<Rightarrow> mcp_client" where
  "shutdown_client s =
     (if mc_stopped s then s
      else let s1 = s\<lparr>mc_stopped := True, mc_status := Client_stopped, mc_session := None, mc_tools := None\<rparr>
           in case mc_session s of
                None \<Rightarrow> s1
              | Some (c, info) \<Rightarrow> emit_exit Exit_shutdown (close_conn c s1))"

datatype client_event =
    Ask client_op
  | Connected nat
  | Connect_fails nat string
  | Init_answered nat "rpc_error + js" "rpc_error option"
  | Server_closes nat
  | List_changed
  | Rpc_answered nat "rpc_error + js"
  | Slept
  | Shutdown
  | On_tools_changed nat
  | Off_tools_changed nat

fun client_step :: "mcp_client \<Rightarrow> client_event \<Rightarrow> mcp_client" where
  "client_step s (Ask op) = ask op s"
| "client_step s (Connected k) = connected k s"
| "client_step s (Connect_fails k e) = connect_fails k e s"
| "client_step s (Init_answered k r n) = init_answered k r n s"
| "client_step s (Server_closes c) = server_closes c s"
| "client_step s List_changed = list_changed s"
| "client_step s (Rpc_answered i r) = rpc_answered i r s"
| "client_step s Slept = slept s"
| "client_step s Shutdown = shutdown_client s"
| "client_step s (On_tools_changed h) = s\<lparr>mc_handlers := add_handler h (mc_handlers s)\<rparr>"
| "client_step s (Off_tools_changed h) = s\<lparr>mc_handlers := filter (\<lambda>x. x \<noteq> h) (mc_handlers s)\<rparr>"

section \<open>Every call is answered once\<close>

definition calls :: "mcp_client \<Rightarrow> nat multiset" where
  "calls s = mset (map fst (mc_answers s)) + mset (map fst (mc_waiting s)) + mset (map fst (mc_out s))"

definition out_live :: "mcp_client \<Rightarrow> bool" where
  "out_live s = list_all (\<lambda>(i, c, q). c \<in> set (mc_live s)) (mc_out s)"

text \<open>The starts that callers wait for are the one that \<^verbatim>\<open>initPromise\<close> names.\<close>

definition starts_ok :: "mcp_client \<Rightarrow> bool" where
  "starts_ok s \<longleftrightarrow>
     distinct (map ss_id (mc_starts s)) \<and> list_all (\<lambda>x. ss_id x < mc_next_start s) (mc_starts s) \<and>
     map ss_id (filter (\<lambda>x. \<not> ss_loop x) (mc_starts s)) = (case mc_init s of None \<Rightarrow> [] | Some k \<Rightarrow> [k]) \<and>
     (mc_init s = None \<longrightarrow> mc_waiting s = [])"

definition client_ok :: "mcp_client \<Rightarrow> bool" where
  "client_ok s \<longleftrightarrow> calls s = mset [0..<mc_next_call s] \<and> out_live s \<and> starts_ok s"

lemmas client_simps = calls_def out_live_def starts_ok_def

lemma proceed_frame [simp]:
  "mc_waiting (proceed e s) = mc_waiting s" "mc_starts (proceed e s) = mc_starts s" "mc_init (proceed e s) = mc_init s"
  "mc_live (proceed e s) = mc_live s" "mc_next_call (proceed e s) = mc_next_call s" "mc_next_start (proceed e s) = mc_next_start s"
  "mc_session (proceed e s) = mc_session s" "mc_next_conn (proceed e s) = mc_next_conn s"
  "mc_stopped (proceed e s) = mc_stopped s"
  by (auto simp: proceed_def answer_def send_on_def split: prod.split option.split client_op.split)

lemma proceed_calls: "calls (proceed e s) = add_mset (fst e) (calls s)" "out_live s \<Longrightarrow> out_live (proceed e s)"
  by (auto simp: proceed_def answer_def send_on_def client_simps split: prod.split option.split client_op.split)

lemma proceed_fold:
  "calls (fold proceed ws s) = mset (map fst ws) + calls s \<and> (out_live s \<longrightarrow> out_live (fold proceed ws s)) \<and>
   mc_waiting (fold proceed ws s) = mc_waiting s \<and> mc_starts (fold proceed ws s) = mc_starts s \<and>
   mc_init (fold proceed ws s) = mc_init s \<and> mc_live (fold proceed ws s) = mc_live s \<and>
   mc_next_call (fold proceed ws s) = mc_next_call s \<and> mc_next_start (fold proceed ws s) = mc_next_start s \<and>
   mc_session (fold proceed ws s) = mc_session s \<and> mc_next_conn (fold proceed ws s) = mc_next_conn s \<and>
   mc_stopped (fold proceed ws s) = mc_stopped s"
  by (induction ws arbitrary: s) (simp_all add: proceed_calls)

lemma loop_frame [simp]:
  "mc_waiting (restart_loop s) = mc_waiting s" "mc_starts (restart_loop s) = mc_starts s" "mc_init (restart_loop s) = mc_init s"
  "mc_live (restart_loop s) = mc_live s" "mc_next_call (restart_loop s) = mc_next_call s" "mc_out (restart_loop s) = mc_out s"
  "mc_next_start (restart_loop s) = mc_next_start s" "mc_answers (restart_loop s) = mc_answers s"
  "mc_session (restart_loop s) = mc_session s" "mc_next_conn (restart_loop s) = mc_next_conn s"
  "mc_stopped (restart_loop s) = mc_stopped s"
  by (simp_all add: restart_loop_def)

lemma schedule_frame [simp]:
  "mc_waiting (schedule_restart s) = mc_waiting s" "mc_starts (schedule_restart s) = mc_starts s"
  "mc_init (schedule_restart s) = mc_init s" "mc_live (schedule_restart s) = mc_live s"
  "mc_next_call (schedule_restart s) = mc_next_call s" "mc_out (schedule_restart s) = mc_out s"
  "mc_next_start (schedule_restart s) = mc_next_start s" "mc_answers (schedule_restart s) = mc_answers s"
  "mc_session (schedule_restart s) = mc_session s" "mc_next_conn (schedule_restart s) = mc_next_conn s"
  "mc_stopped (schedule_restart s) = mc_stopped s"
  by (simp_all add: schedule_restart_def)

lemma drop_loop_start:
  assumes "distinct (map ss_id xs)" "x \<in> set xs" "ss_loop x"
  shows "filter (\<lambda>y. \<not> ss_loop y \<and> ss_id y \<noteq> ss_id x) xs = filter (\<lambda>y. \<not> ss_loop y) xs"
proof (rule filter_cong [OF refl])
  fix y assume "y \<in> set xs"
  then show "(\<not> ss_loop y \<and> ss_id y \<noteq> ss_id x) = (\<not> ss_loop y)"
    using assms inj_onD [of ss_id "set xs" x y] by (auto simp: distinct_map)
qed

lemma waited_start: "starts_ok s \<Longrightarrow> x \<in> set (mc_starts s) \<Longrightarrow> \<not> ss_loop x \<Longrightarrow> mc_init s = Some (ss_id x)"
proof -
  assume "starts_ok s" "x \<in> set (mc_starts s)" "\<not> ss_loop x"
  then have "ss_id x \<in> set (map ss_id (filter (\<lambda>y. \<not> ss_loop y) (mc_starts s)))" by simp
  with \<open>starts_ok s\<close> show ?thesis by (simp add: starts_ok_def split: option.splits)
qed

lemma drop_start_ok:
  assumes "starts_ok s" "x \<in> set (mc_starts s)"
  shows "if ss_loop x then starts_ok (drop_start (ss_id x) s)
         else starts_ok ((drop_start (ss_id x) s)\<lparr>mc_init := None, mc_waiting := []\<rparr>)"
proof (cases "ss_loop x")
  case True
  with assms drop_loop_start [of "mc_starts s" x] show ?thesis
    by (auto simp: starts_ok_def drop_start_def distinct_map_filter list_all_iff conj_commute)
next
  case False
  then have "map ss_id (filter (\<lambda>y. \<not> ss_loop y) (mc_starts s)) = [ss_id x]"
    using assms waited_start [OF assms] by (simp add: starts_ok_def)
  then obtain z where z: "filter (\<lambda>y. \<not> ss_loop y) (mc_starts s) = [z]" "ss_id z = ss_id x"
    by (auto simp: map_eq_Cons_conv)
  have "filter (\<lambda>y. ss_id y \<noteq> ss_id x) (filter (\<lambda>y. \<not> ss_loop y) (mc_starts s)) = []"
    unfolding z(1) by (simp add: z(2))
  then have "filter (\<lambda>y. ss_id y \<noteq> ss_id x \<and> \<not> ss_loop y) (mc_starts s) = []"
    by (simp add: conj_commute)
  with assms False show ?thesis
    by (simp add: starts_ok_def drop_start_def distinct_map_filter list_all_iff conj_commute)
qed

lemma close_conn_ok: "client_ok s \<Longrightarrow> client_ok (close_conn c s)" "mc_starts (close_conn c s) = mc_starts s"
proof -
  have "mset (map fst (filter (\<lambda>(i, d, q). d = c) xs)) + mset (map fst (filter (\<lambda>(i, d, q). d \<noteq> c) xs)) = mset (map fst xs)"
    for xs :: "(nat \<times> nat \<times> request_kind) list"
    by (induction xs) auto
  then show "client_ok s \<Longrightarrow> client_ok (close_conn c s)"
    by (auto simp: client_ok_def client_simps close_conn_def list_all_iff case_prod_unfold o_def algebra_simps)
qed (simp add: close_conn_def)

lemma map_fst_reject: "map fst (map (\<lambda>(i, op). (i, r)) ws) = map fst ws"
  by (induction ws) auto

lemma start_fails_frame:
  "calls (start_fails x e s) = calls s" "out_live (start_fails x e s) = out_live s" "mc_next_call (start_fails x e s) = mc_next_call s"
  "mc_starts (start_fails x e s) = mc_starts (drop_start (ss_id x) s)" "mc_next_start (start_fails x e s) = mc_next_start s"
  "mc_init (start_fails x e s) = (if ss_loop x then mc_init s else None)"
  "mc_waiting (start_fails x e s) = (if ss_loop x then mc_waiting s else [])"
  "mc_live (start_fails x e s) = mc_live s" "mc_session (start_fails x e s) = mc_session s"
  "mc_next_conn (start_fails x e s) = mc_next_conn s" "mc_stopped (start_fails x e s) = mc_stopped s"
  by (simp_all add: start_fails_def Let_def emit_exit_def drop_start_def calls_def out_live_def map_fst_reject del: mset_map map_map)

lemma start_fails_ok: "client_ok s \<Longrightarrow> x \<in> set (mc_starts s) \<Longrightarrow> client_ok (start_fails x e s)"
  using drop_start_ok [of s x]
  by (auto simp: client_ok_def start_fails_frame starts_ok_def drop_start_def split: if_splits)

lemma start_succeeds_live: "out_live s \<Longrightarrow> out_live (start_succeeds x c info s)"
proof -
  assume "out_live s"
  then have "out_live (s\<lparr>mc_starts := xs, mc_session := v, mc_failures := 0, mc_status := st, mc_spawned := is, mc_init := None,
      mc_waiting := []\<rparr>)" for xs v st "is" by (simp add: out_live_def)
  with \<open>out_live s\<close> show ?thesis
    by (simp add: start_succeeds_def Let_def drop_start_def proceed_fold) (simp add: out_live_def)
qed

lemma start_succeeds_frame:
  "calls (start_succeeds x c info s) = calls s"
  "mc_next_call (start_succeeds x c info s) = mc_next_call s"
  "mc_starts (start_succeeds x c info s) = mc_starts (drop_start (ss_id x) s)"
  "mc_next_start (start_succeeds x c info s) = mc_next_start s"
  "mc_init (start_succeeds x c info s) = (if ss_loop x then mc_init s else None)"
  "mc_waiting (start_succeeds x c info s) = (if ss_loop x then mc_waiting s else [])"
  "mc_live (start_succeeds x c info s) = mc_live s" "mc_session (start_succeeds x c info s) = Some (c, info)"
  "mc_next_conn (start_succeeds x c info s) = mc_next_conn s" "mc_stopped (start_succeeds x c info s) = mc_stopped s"
  by (simp_all add: start_succeeds_def Let_def drop_start_def proceed_fold)
    (simp_all add: calls_def proceed_fold)

lemma start_succeeds_ok: "client_ok s \<Longrightarrow> x \<in> set (mc_starts s) \<Longrightarrow> client_ok (start_succeeds x c info s)"
  using drop_start_ok [of s x]
  by (auto simp: client_ok_def start_succeeds_live start_succeeds_frame starts_ok_def drop_start_def split: if_splits)

lemma answer_calls [simp]: "calls (answer i r s) = add_mset i (calls s)" "out_live (answer i r s) = out_live s"
  "starts_ok (answer i r s) = starts_ok s" "mc_next_call (answer i r s) = mc_next_call s"
  by (simp_all add: answer_def client_simps)

lemma ask_ok: "client_ok s \<Longrightarrow> client_ok (ask op s)"
proof -
  assume ok: "client_ok s"
  let ?s = "s\<lparr>mc_next_call := mc_next_call s + 1\<rparr>"
  have s: "calls ?s = mset [0..<mc_next_call s]" "out_live ?s" "starts_ok ?s"
    using ok by (simp_all add: client_ok_def client_simps)
  have step: "mset [0..<mc_next_call s + 1] = add_mset (mc_next_call s) (mset [0..<mc_next_call s])" by simp
  have now: "client_ok (answer (mc_next_call s) r ?s)" "client_ok (proceed (mc_next_call s, op) ?s)" for r
    using s step by (simp_all add: client_ok_def proceed_calls) (simp add: starts_ok_def)
  have starts: "distinct (map ss_id (mc_starts s))" "\<forall>x \<in> set (mc_starts s). ss_id x < mc_next_start s"
    using ok by (simp_all add: client_ok_def starts_ok_def list_all_iff)
  let ?t = "if mc_init ?s = None then (begin_start False ?s)\<lparr>mc_init := Some (mc_next_start ?s)\<rparr> else ?s"
  have "calls (?t\<lparr>mc_waiting := mc_waiting ?t @ [(mc_next_call s, op)]\<rparr>) = add_mset (mc_next_call s) (calls ?s)"
    by (simp add: calls_def begin_start_def)
  moreover have "out_live (?t\<lparr>mc_waiting := ws\<rparr>)" for ws using s(2) by (simp add: out_live_def begin_start_def)
  moreover have "starts_ok (?t\<lparr>mc_waiting := ws\<rparr>)" for ws
    using s(3) starts by (auto simp: starts_ok_def begin_start_def list_all_iff split: option.splits)
  ultimately have "client_ok (?t\<lparr>mc_waiting := mc_waiting ?t @ [(mc_next_call s, op)]\<rparr>)"
    using s(1) step by (simp add: client_ok_def begin_start_def del: mset_upt)
  with now show ?thesis unfolding ask_def Let_def by presburger
qed

lemma slept_ok: "client_ok s \<Longrightarrow> client_ok (slept s)"
  by (auto simp: slept_def client_ok_def client_simps begin_start_def Let_def list_all_iff split: list.split)

lemma find_startD: "find_start k s = Some x \<Longrightarrow> x \<in> set (mc_starts s)"
  by (auto simp: find_start_def find_Some_iff)

lemma connected_ok:
  assumes "client_ok s"
  shows "client_ok (connected k s)"
proof (cases "find_start k s")
  case None
  with assms show ?thesis by (simp add: connected_def)
next
  case (Some x)
  define f :: "session_start \<Rightarrow> session_start" where "f = (\<lambda>y. if ss_id y = k then y\<lparr>ss_conn := Some (mc_next_conn s)\<rparr> else y)"
  have f: "map ss_id (map f xs) = map ss_id xs"
    "map ss_id (filter (\<lambda>x. \<not> ss_loop x) (map f xs)) = map ss_id (filter (\<lambda>x. \<not> ss_loop x) xs)"
    "list_all (\<lambda>x. ss_id x < n) (map f xs) = list_all (\<lambda>x. ss_id x < n) xs" for xs n
    by (induction xs) (simp_all add: f_def)
  have "connected k s = (if ss_conn x \<noteq> None then s
      else s\<lparr>mc_starts := map f (mc_starts s), mc_live := mc_live s @ [mc_next_conn s],
             mc_sent := mc_sent s @ [(mc_next_conn s, ''initialize'', init_params s)], mc_next_conn := mc_next_conn s + 1\<rparr>)"
    using Some by (simp add: connected_def f_def)
  then show ?thesis
    using assms f(1,2) [of "mc_starts s"] f(3) [of "mc_next_start s" "mc_starts s"]
    by (auto simp: client_ok_def calls_def out_live_def starts_ok_def list_all_iff simp del: map_map)
qed

lemma find_remove:
  assumes "find (\<lambda>e. fst e = i) (mc_out s) = Some e" "client_ok s"
  shows "client_ok (answer i r (s\<lparr>mc_out := remove1 e (mc_out s)\<rparr>))"
proof -
  have e: "e \<in> set (mc_out s)" "fst e = i" using assms(1) by (auto simp: find_Some_iff)
  have "mset (mc_out s) = add_mset e (mset (remove1 e (mc_out s)))" using e(1) by simp
  then have out: "mset (map fst (mc_out s)) = {#i#} + mset (map fst (remove1 e (mc_out s)))"
    unfolding mset_map e(2) [symmetric] by (metis add_mset_add_single image_mset_add_mset union_commute)
  have "calls s = calls (answer i r (s\<lparr>mc_out := remove1 e (mc_out s)\<rparr>))"
    unfolding calls_def out by (simp add: answer_def)
  moreover have "list_all P (mc_out s) \<Longrightarrow> list_all P (remove1 e (mc_out s))" for P
    using set_remove1_subset [of e "mc_out s"] by (auto simp: list_all_iff)
  ultimately show ?thesis
    using assms(2) by (simp add: client_ok_def out_live_def starts_ok_def answer_def)
qed

lemma client_ok_handlers: "client_ok (s\<lparr>mc_handlers := v\<rparr>) = client_ok s"
  by (simp add: client_ok_def client_simps)

lemma rpc_answered_ok: "client_ok s \<Longrightarrow> client_ok (rpc_answered i r s)"
proof (cases "find (\<lambda>e. fst e = i) (mc_out s)")
  case (Some e)
  assume ok: "client_ok s"
  obtain j c q where e: "e = (j, c, q)" by (cases e)
  have "client_ok (answer i v (s\<lparr>mc_out := remove1 e (mc_out s)\<rparr>))" for v
    using Some ok by (rule find_remove)
  moreover from this have "client_ok (answer i v (s\<lparr>mc_out := remove1 e (mc_out s), mc_tools := t\<rparr>))" for v t
    by (simp add: client_ok_def client_simps answer_def)
  ultimately show ?thesis
    using Some by (auto simp: rpc_answered_def e Let_def split: sum.split request_kind.split prod.split)
qed (simp add: rpc_answered_def)

lemma init_answered_ok: "client_ok s \<Longrightarrow> client_ok (init_answered k r note s)"
proof -
  assume ok: "client_ok s"
  have sent: "client_ok (s\<lparr>mc_sent := ms\<rparr>)" for ms using ok by (simp add: client_ok_def client_simps)
  show ?thesis
    using ok sent close_conn_ok
    by (auto simp: init_answered_def intro!: start_fails_ok start_succeeds_ok dest: find_startD
        split: option.split sum.split)
qed

lemma server_closes_ok: "client_ok s \<Longrightarrow> client_ok (server_closes c s)"
proof -
  assume "client_ok s"
  then have ok: "client_ok (close_conn c s)" by (rule close_conn_ok)
  have "client_ok (schedule_restart (emit_exit r (t\<lparr>mc_session := None, mc_tools := None\<rparr>)))" if "client_ok t" for r t
    using that by (simp add: client_ok_def client_simps emit_exit_def)
  with ok show ?thesis
    by (auto simp: server_closes_def Let_def find_Some_iff intro!: start_fails_ok split: option.split)
qed

lemma client_step_ok: "client_ok s \<Longrightarrow> client_ok (client_step s e)"
proof (cases e)
  case (Connect_fails k x)
  assume "client_ok s"
  with Connect_fails show ?thesis
    by (auto simp: connect_fails_def intro!: start_fails_ok dest: find_startD split: option.split)
next
  case Shutdown
  assume ok: "client_ok s"
  then have "client_ok (emit_exit r (close_conn c (s\<lparr>mc_stopped := True, mc_status := st, mc_session := None, mc_tools := None\<rparr>)))"
    and "client_ok (s\<lparr>mc_stopped := True, mc_status := st, mc_session := None, mc_tools := None\<rparr>)" for r c st
    using close_conn_ok(1) [of "s\<lparr>mc_stopped := True, mc_status := st, mc_session := None, mc_tools := None\<rparr>" c]
    by (simp_all add: client_ok_def client_simps emit_exit_def)
  with ok Shutdown show ?thesis by (simp add: shutdown_client_def Let_def split: option.split)
next
  case List_changed
  assume "client_ok s"
  with List_changed show ?thesis by (simp add: list_changed_def client_ok_def client_simps)
qed (simp_all add: ask_ok connected_ok init_answered_ok server_closes_ok rpc_answered_ok slept_ok client_ok_handlers)

lemma create_client_ok: "client_ok (create_client pv ci m)"
  by (simp add: create_client_def client_ok_def client_simps)

interpretation mcp: step_invariant client_step client_ok
  by unfold_locales (rule client_step_ok)

text \<open>C32. Every call of a client is answered at most once; a call without an answer waits for a handshake that is in flight or for
  an answer on a connection that is open, so a server that goes away never leaves a caller waiting.\<close>

theorem client_calls_answered_once:
  "let s = run client_step (create_client pv ci m) events
   in mset (map fst (mc_answers s) @ map fst (mc_waiting s) @ map fst (mc_out s)) = mset [0..<mc_next_call s] \<and>
      (mc_waiting s = [] \<or> list_ex (\<lambda>x. \<not> ss_loop x) (mc_starts s)) \<and>
      list_all (\<lambda>(i, c, q). c \<in> set (mc_live s)) (mc_out s)"
proof -
  let ?s = "run client_step (create_client pv ci m) events"
  have ok: "client_ok ?s" by (rule mcp.run_good [OF create_client_ok])
  then have "mc_waiting ?s \<noteq> [] \<Longrightarrow> filter (\<lambda>x. \<not> ss_loop x) (mc_starts ?s) \<noteq> []"
    by (auto simp: client_ok_def starts_ok_def split: option.splits)
  with ok show ?thesis
    by (auto simp: client_ok_def calls_def out_live_def Let_def list_ex_iff filter_empty_conv ac_simps)
qed

section \<open>Connections that nobody owns\<close>

text \<open>A connection that is open, but that no handshake and no \<^verbatim>\<open>shutdown\<close> will close any more.\<close>

definition orphan :: "nat \<Rightarrow> mcp_client \<Rightarrow> bool" where
  "orphan c s \<longleftrightarrow> c \<in> set (mc_live s) \<and> (mc_stopped s \<or> map_option fst (mc_session s) \<noteq> Some c) \<and> c < mc_next_conn s \<and>
     list_all (\<lambda>x. ss_conn x \<noteq> Some c) (mc_starts s)"

lemma orphan_fails: "orphan c s \<Longrightarrow> orphan c (start_fails x e s)"
  by (auto simp: orphan_def start_fails_frame drop_start_def list_all_iff)

lemma orphan_close: "orphan c s \<Longrightarrow> d \<noteq> c \<Longrightarrow> orphan c (close_conn d s)"
  by (simp add: orphan_def close_conn_def)

lemma orphan_succeeds: "orphan c s \<Longrightarrow> d \<noteq> c \<Longrightarrow> orphan c (start_succeeds x d info s)"
  by (auto simp: orphan_def start_succeeds_frame drop_start_def list_all_iff)

lemma start_conn: "orphan c s \<Longrightarrow> find_start k s = Some x \<Longrightarrow> ss_conn x = Some d \<Longrightarrow> d \<noteq> c"
  by (auto simp: orphan_def list_all_iff dest: find_startD)

lemma orphan_frame [simp]:
  "orphan c (schedule_restart s) = orphan c s" "orphan c (restart_loop s) = orphan c s" "orphan c (emit_exit r s) = orphan c s"
  "orphan c (answer i v s) = orphan c s" "orphan c (proceed e s) = orphan c s"
  "orphan c (s\<lparr>mc_sent := ms\<rparr>) = orphan c s" "orphan c (s\<lparr>mc_tools := t\<rparr>) = orphan c s"
  by (simp_all add: orphan_def emit_exit_def answer_def)

lemma orphan_step:
  assumes "orphan c s" "e \<noteq> Server_closes c"
  shows "orphan c (client_step s e)"
proof (cases e)
  case (Ask op)
  have "orphan c (ask op s)" using assms(1) by (auto simp: ask_def Let_def orphan_def begin_start_def answer_def)
  then show ?thesis by (simp add: Ask)
next
  case (Connected k)
  have "orphan c (connected k s)"
    using assms(1) by (auto simp: connected_def orphan_def list_all_iff split: option.split)
  then show ?thesis by (simp add: Connected)
next
  case (Connect_fails k x)
  have "orphan c (connect_fails k x s)"
    using assms(1) by (auto simp: connect_fails_def intro: orphan_fails split: option.split)
  then show ?thesis by (simp add: Connect_fails)
next
  case (Init_answered k r w)
  have "orphan c (init_answered k r w s)"
    using assms(1) start_conn [OF assms(1)]
    by (auto simp: init_answered_def intro!: orphan_fails orphan_succeeds orphan_close split: option.split sum.split)
  then show ?thesis by (simp add: Init_answered)
next
  case (Server_closes d)
  then have d: "d \<noteq> c" using assms(2) by simp
  have drop: "orphan c (t\<lparr>mc_session := None, mc_tools := None\<rparr>)" if "orphan c t" for t using that by (simp add: orphan_def)
  have "orphan c (server_closes d s)"
    using orphan_close [OF assms(1) d] drop
    by (auto simp: server_closes_def Let_def intro!: orphan_fails split: option.split)
  then show ?thesis by (simp add: Server_closes)
next
  case (Rpc_answered i r)
  have "orphan c (rpc_answered i r s)"
    using assms(1)
    by (auto simp: rpc_answered_def Let_def orphan_def answer_def split: option.split sum.split request_kind.split)
  then show ?thesis by (simp add: Rpc_answered)
next
  case Shutdown
  let ?t = "s\<lparr>mc_stopped := True, mc_status := Client_stopped, mc_session := None, mc_tools := None\<rparr>"
  have "orphan c ?t" using assms(1) by (simp add: orphan_def)
  moreover have "d \<noteq> c" if "mc_session s = Some (d, i)" "\<not> mc_stopped s" for d i using assms(1) that by (auto simp: orphan_def)
  ultimately have "orphan c (shutdown_client s)"
    using assms(1) by (auto simp: shutdown_client_def Let_def intro: orphan_close split: option.split)
  then show ?thesis by (simp add: Shutdown)
next
  case List_changed
  then show ?thesis using assms(1) by (simp add: list_changed_def orphan_def)
next
  case Slept
  have "orphan c (slept s)"
    using assms(1) by (auto simp: slept_def Let_def orphan_def begin_start_def split: list.split)
  then show ?thesis by (simp add: Slept)
qed (use assms(1) in \<open>simp_all add: orphan_def\<close>)

lemma orphan_stays: "orphan c s \<Longrightarrow> Server_closes c \<notin> set es \<Longrightarrow> orphan c (run client_step s es)"
proof (induction es arbitrary: s)
  case (Cons e es)
  then have "orphan c (client_step s e)" by (intro orphan_step) auto
  with Cons show ?case by simp
qed simp

lemma stopped_frame [simp]:
  "mc_stopped (close_conn c s) = mc_stopped s" "mc_stopped (answer i r s) = mc_stopped s"
  "mc_stopped (emit_exit x s) = mc_stopped s" "mc_stopped (begin_start lp s) = mc_stopped s"
  by (simp_all add: close_conn_def answer_def emit_exit_def begin_start_def)

lemma stopped_step: "mc_stopped s \<Longrightarrow> mc_stopped (client_step s e)"
proof (cases e)
  case (Ask op)
  assume "mc_stopped s"
  then have "mc_stopped (ask op s)" by (simp add: ask_def Let_def)
  then show ?thesis by (simp add: Ask)
next
  case (Connected k)
  assume "mc_stopped s"
  then have "mc_stopped (connected k s)" by (simp add: connected_def split: option.split)
  then show ?thesis by (simp add: Connected)
next
  case (Connect_fails k x)
  assume "mc_stopped s"
  then have "mc_stopped (connect_fails k x s)" by (simp add: connect_fails_def start_fails_frame split: option.split)
  then show ?thesis by (simp add: Connect_fails)
next
  case (Init_answered k r w)
  assume "mc_stopped s"
  then have "mc_stopped (init_answered k r w s)"
    by (simp add: init_answered_def start_fails_frame start_succeeds_frame split: option.split sum.split)
  then show ?thesis by (simp add: Init_answered)
next
  case (Server_closes d)
  assume "mc_stopped s"
  then have "mc_stopped (server_closes d s)" by (simp add: server_closes_def Let_def start_fails_frame split: option.split)
  then show ?thesis by (simp add: Server_closes)
next
  case (Rpc_answered i r)
  assume "mc_stopped s"
  then have "mc_stopped (rpc_answered i r s)"
    by (simp add: rpc_answered_def Let_def split: option.split sum.split request_kind.split prod.split)
  then show ?thesis by (simp add: Rpc_answered)
next
  case Slept
  assume "mc_stopped s"
  then have "mc_stopped (slept s)" by (simp add: slept_def Let_def split: list.split)
  then show ?thesis by (simp add: Slept)
qed (simp_all add: list_changed_def shutdown_client_def)

interpretation stopped_for_good: step_invariant client_step mc_stopped
  by unfold_locales (rule stopped_step)

text \<open>The supervisor makes its clients with a cap of one failure so that they never restart by themselves. The loop still restarts once
  when the connection of a session closes, since the session has set the count of failures back to zero.\<close>

lemma crash_restarts:
  assumes "mc_session s = Some (c, i)" "\<not> mc_stopped s" "0 < mc_max_failures s" "mc_failures s = 0" "mc_starts s = []"
  shows "server_closes c s = (close_conn c s)\<lparr>mc_session := None, mc_tools := None, mc_exits := mc_exits s @ [Exit_transport_closed],
     mc_status := Client_reconnecting, mc_sleeping := mc_sleeping s @ [0]\<rparr>"
  using assms
  by (simp add: server_closes_def close_conn_def emit_exit_def schedule_restart_def restart_loop_def)

text \<open>A server process is leaked on a crash: the client reconnects at once, the supervisor shuts it down while the new handshake is
  in flight, and the handshake that then succeeds leaves its connection open for good; nothing the client does later closes
  it, a second \<^verbatim>\<open>shutdown\<close> included.\<close>

lemma crash_leaks_connection:
  assumes "mc_session s = Some (c, i)" "c < mc_next_conn s" "\<not> mc_stopped s" "0 < mc_max_failures s" "mc_failures s = 0"
    and "mc_starts s = []" "mc_sleeping s = []" "parse_init_result v = Inr info"
    and "Server_closes (mc_next_conn s) \<notin> set later"
  shows "let s' = run client_step s ([Server_closes c, Slept, Shutdown, Connected (mc_next_start s),
             Init_answered (mc_next_start s) (Inr v) None] @ later)
         in mc_stopped s' \<and> mc_next_conn s \<in> set (mc_live s')"
proof -
  let ?k = "mc_next_start s" and ?c = "mc_next_conn s"
  define t where "t = run client_step s [Server_closes c, Slept, Shutdown, Connected ?k, Init_answered ?k (Inr v) None]"
  have t: "mc_stopped t" "orphan ?c t"
    using assms
    by (simp_all add: t_def crash_restarts slept_def begin_start_def shutdown_client_def close_conn_def connected_def find_start_def
        init_answered_def start_succeeds_def drop_start_def orphan_def)
  have "mc_stopped (run client_step t later)" using stopped_for_good.run_good [OF t(1)] .
  moreover have "orphan ?c (run client_step t later)" using t(2) assms(9) by (rule orphan_stays)
  ultimately show ?thesis unfolding run_append Let_def t_def by (simp add: orphan_def)
qed

text \<open>A client that is ready, as a factory of the supervisor makes it.\<close>

definition hello :: js where
  "hello = JObj [(''protocolVersion'', JStr ''1'')]"

definition hello_info :: server_info where
  "hello_info = \<lparr>si_protocol = ''1'', si_name = ''unknown'', si_version = ''0.0.0'', si_capabilities = JObj []\<rparr>"

lemma parse_hello: "parse_init_result hello = Inr hello_info"
  by (simp add: parse_init_result_def hello_def hello_info_def prop_of_def fields_of_def str_or_def)

definition ready_client :: mcp_client where
  "ready_client = (create_client ''1'' None (Some 1))\<lparr>mc_status := Client_ready, mc_session := Some (0, hello_info),
     mc_next_start := 1, mc_next_conn := 1, mc_live := [0]\<rparr>"

lemma crash_leaks_connection_instance:
  "\<exists>s'. s' = run client_step ready_client ([Server_closes 0, Slept, Shutdown, Connected 1, Init_answered 1 (Inr hello) None] @ [Shutdown]) \<and>
     mc_stopped s' \<and> 1 \<in> set (mc_live s')"
  using crash_leaks_connection [of ready_client 0 hello_info hello hello_info "[Shutdown]"]
  by (simp add: ready_client_def create_client_def parse_hello Let_def)

end
