(* ===== verification/Supervisor.thy ===== *)
theory Supervisor imports McpClient CircuitBreaker TokenBucket begin

text \<open>
  The supervisor of MCP servers, \<^verbatim>\<open>core/src/mcp/supervisor.ts\<close>, over the circuit breaker and the provider bucket. The variables of
  the closure are the record \<open>supervisor\<close>; each piece of its asynchronous functions between two suspensions is a step. Clients,
  calls, drains and restart loops are numbers. \<open>sv_tasks\<close> is the queue of microtasks, \<open>sv_live\<close> holds the clients that were made
  and not shut down, \<open>sv_issued\<close> the tool calls that were handed to a client, \<open>sv_settled\<close> every settlement of a caller's
  promise, \<open>sv_history\<close> the states told to the listeners. Metrics and log lines are left out.

  Shown: a call is settled once, and none waits after \<^verbatim>\<open>stop\<close>; exactly which calls reach a server; how many attempts open the
  circuit; and four ways in which the pieces interleave badly.
\<close>

section \<open>State\<close>

datatype sup_state = Sup_starting | Sup_ready | Sup_draining | Sup_reconnecting | Sup_circuit_open | Sup_stopped

datatype restart_reason = R_initial | R_transport_closed | R_ping_failed | R_init_failed | R_probe

text \<open>The message of a crash error, as far as it is made from data.\<close>

datatype crash_text = Circuit_text | Stopped_text | State_text sup_state

datatype sup_error =
    Server_crashed cb_state crash_text
  | Call_drained string js nat
  | Aggregate_limited rat rat
  | Call_failed client_error

text \<open>A registered call that is not settled; \<open>fl_again\<close> counts its submissions to a fresh client.\<close>

record flight =
  fl_id :: nat
  fl_tool :: string
  fl_args :: js
  fl_gen :: nat
  fl_again :: nat

text \<open>A run of \<^verbatim>\<open>drainThenRespawn\<close> up to its wait: the calls it waits for and, when the wait is over, those that overflow.\<close>

record drain =
  dr_id :: nat
  dr_reason :: restart_reason
  dr_active :: "nat list"
  dr_over :: "nat list option"

datatype loop_phase = Tearing | Backing_off | Booting nat nat

text \<open>A run of \<^verbatim>\<open>runRestartLoop\<close>; \<open>lp_after\<close> says that \<^verbatim>\<open>drainThenRespawn\<close> awaits it.\<close>

record restart_run =
  lp_id :: nat
  lp_phase :: loop_phase
  lp_attempt :: nat
  lp_reason :: restart_reason
  lp_after :: bool

datatype sup_task = Exit_task nat restart_reason | Probe_task

record supervisor =
  sv_threshold :: nat
  sv_ping_threshold :: nat
  sv_drain_ms :: nat
  sv_resubmit :: bool
  sv_bucket :: "provider_bucket option"
  sv_circuit :: breaker
  sv_state :: sup_state
  sv_client :: "nat option"
  sv_tools :: "mcp_tool list"
  sv_restarts :: "restart_reason list"
  sv_give_ups :: nat
  sv_ping_failures :: nat
  sv_started :: bool
  sv_stopped :: bool
  sv_timer :: bool
  sv_pings :: "nat list"
  sv_generation :: nat
  sv_flights :: "flight list"
  sv_next_call :: nat
  sv_drains :: "drain list"
  sv_cancel :: "nat option"
  sv_loops :: "restart_run list"
  sv_next_run :: nat
  sv_after :: nat
  sv_tasks :: "sup_task list"
  sv_boots :: "(nat \<times> nat) list"
  sv_next_client :: nat
  sv_live :: "nat list"
  sv_issued :: "(nat \<times> nat) list"
  sv_settled :: "(nat \<times> (sup_error + client_value)) list"
  sv_refused :: "sup_error list"
  sv_opens :: nat
  sv_history :: "sup_state list"

text \<open>What the options leave out: the names of the hooks, timers and metrics.\<close>

record sup_options =
  so_rate :: "(rat \<times> rat option) option"
  so_drain_ms :: "int option"
  so_resubmit :: bool
  so_ping_threshold :: "int option"
  so_threshold :: "int option"
  so_reset_ms :: "int option"

definition default_supervisor_backoff :: "nat \<Rightarrow> nat" where
  "default_supervisor_backoff attempt = min (1000 * 2 ^ attempt) 60000"

definition create_supervisor :: "int \<Rightarrow> sup_options \<Rightarrow> bucket_error + supervisor" where
  "create_supervisor now opts =
     (case (case so_rate opts of
              None \<Rightarrow> Inr None
            | Some (rps, b) \<Rightarrow>
                if \<not> rps > 0 then Inl (Rate_not_positive rps)
                else map_sum id Some (create_provider_bucket now rps
                       (Some (max 1 (case b of None \<Rightarrow> of_int \<lceil>rps\<rceil> | Some x \<Rightarrow> x))))) of
        Inl e \<Rightarrow> Inl e
      | Inr bucket \<Rightarrow>
          Inr \<lparr>sv_threshold = nat (max 1 (opt_or (so_threshold opts) 5)),
               sv_ping_threshold = nat (max 1 (opt_or (so_ping_threshold opts) 2)),
               sv_drain_ms = nat (max 0 (opt_or (so_drain_ms opts) 5000)), sv_resubmit = so_resubmit opts, sv_bucket = bucket,
               sv_circuit = on_transition 0 (create_breaker (Some (max 1 (opt_or (so_threshold opts) 5))) (Some 1)
                              (Some (opt_or (so_reset_ms opts) 30000))),
               sv_state = Sup_starting, sv_client = None, sv_tools = [], sv_restarts = [], sv_give_ups = 0, sv_ping_failures = 0,
               sv_started = False, sv_stopped = False, sv_timer = False, sv_pings = [], sv_generation = 0, sv_flights = [],
               sv_next_call = 1, sv_drains = [], sv_cancel = None, sv_loops = [], sv_next_run = 0, sv_after = 0, sv_tasks = [],
               sv_boots = [], sv_next_client = 0, sv_live = [], sv_issued = [], sv_settled = [], sv_refused = [], sv_opens = 0,
               sv_history = []\<rparr>)"

section \<open>The circuit\<close>

definition set_state :: "sup_state \<Rightarrow> supervisor \<Rightarrow> supervisor" where
  "set_state n s = (if sv_state s = n then s else s\<lparr>sv_state := n, sv_history := sv_history s @ [n]\<rparr>)"

definition schedule_probe :: "supervisor \<Rightarrow> supervisor" where
  "schedule_probe s =
     (if sv_stopped s then s
      else if sv_state s = Sup_reconnecting then s
      else s\<lparr>sv_tasks := sv_tasks s @ [Probe_task]\<rparr>)"

definition circuit_event :: "cb_event \<Rightarrow> supervisor \<Rightarrow> supervisor" where
  "circuit_event e s =
     (case tr_to e of
        Open \<Rightarrow> set_state Sup_circuit_open (s\<lparr>sv_opens := sv_opens s + 1\<rparr>)
      | HalfOpen \<Rightarrow> schedule_probe s
      | Closed \<Rightarrow> s)"

text \<open>An operation of the breaker, followed by the calls of its listener.\<close>

definition with_circuit :: "(breaker \<Rightarrow> 'a \<times> breaker) \<Rightarrow> supervisor \<Rightarrow> 'a \<times> supervisor" where
  "with_circuit f s =
     (case f (sv_circuit s) of
        (x, b) \<Rightarrow> (x, fold (\<lambda>(l, e). circuit_event e) (drop (length (delivered (sv_circuit s))) (delivered b)) (s\<lparr>sv_circuit := b\<rparr>)))"

definition circuit_allow :: "int \<Rightarrow> supervisor \<Rightarrow> bool \<times> supervisor" where
  "circuit_allow t s = with_circuit (cb_allow t) s"

definition circuit_record :: "int \<Rightarrow> bool \<Rightarrow> supervisor \<Rightarrow> supervisor" where
  "circuit_record t ok s = snd (with_circuit (\<lambda>b. ((), cb_record t ok b)) s)"

definition circuit_state :: "int \<Rightarrow> supervisor \<Rightarrow> cb_state \<times> supervisor" where
  "circuit_state t s = with_circuit (cb_state_of t) s"

section \<open>Calls\<close>

definition settle_call :: "nat \<Rightarrow> sup_error + client_value \<Rightarrow> supervisor \<Rightarrow> supervisor" where
  "settle_call i r s =
     (if i \<in> fl_id ` set (sv_flights s)
      then s\<lparr>sv_flights := filter (\<lambda>f. fl_id f \<noteq> i) (sv_flights s), sv_settled := sv_settled s @ [(i, r)]\<rparr>
      else s)"

definition clone_args :: "js \<Rightarrow> js" where
  "clone_args v = (case json_image v of None \<Rightarrow> v | Some w \<Rightarrow> w)"

definition refuse :: "sup_error \<Rightarrow> supervisor \<Rightarrow> supervisor" where
  "refuse e s = s\<lparr>sv_refused := sv_refused s @ [e]\<rparr>"

definition refuse_crashed :: "int \<Rightarrow> crash_text \<Rightarrow> supervisor \<Rightarrow> supervisor" where
  "refuse_crashed t why s = (case circuit_state t s of (c, s') \<Rightarrow> refuse (Server_crashed c why) s')"

text \<open>The aggregate limit: the error, or the state after a token was taken.\<close>

definition aggregate_take :: "int \<Rightarrow> supervisor \<Rightarrow> sup_error option \<times> supervisor" where
  "aggregate_take t s =
     (case sv_bucket s of
        None \<Rightarrow> (None, s)
      | Some b \<Rightarrow>
          (case p_try_take t b of
             (ok, b') \<Rightarrow> (if ok then None else Some (Aggregate_limited (p_rate b) (p_burst b)), s\<lparr>sv_bucket := Some b'\<rparr>)))"

definition register_call :: "nat \<Rightarrow> string \<Rightarrow> js \<Rightarrow> supervisor \<Rightarrow> supervisor" where
  "register_call k name input s =
     s\<lparr>sv_flights := sv_flights s @
         [\<lparr>fl_id = sv_next_call s, fl_tool = name, fl_args = clone_args input, fl_gen = sv_generation s, fl_again = 0\<rparr>],
       sv_issued := sv_issued s @ [(sv_next_call s, k)], sv_next_call := sv_next_call s + 1\<rparr>"

definition call_tool :: "int \<Rightarrow> string \<Rightarrow> js \<Rightarrow> supervisor \<Rightarrow> supervisor" where
  "call_tool t name input s =
     (if sv_stopped s then refuse_crashed t Stopped_text s
      else case aggregate_take t s of
          (Some e, s1) \<Rightarrow> refuse e s1
        | (None, s1) \<Rightarrow>
            (case circuit_allow t s1 of
               (ok, s2) \<Rightarrow>
                 if \<not> ok then refuse_crashed t Circuit_text s2
                 else if sv_state s2 \<noteq> Sup_ready then refuse_crashed t (State_text (sv_state s2)) s2
                 else case sv_client s2 of
                     None \<Rightarrow> refuse_crashed t (State_text (sv_state s2)) s2
                   | Some k \<Rightarrow> register_call k name input s2))"

text \<open>The client answers: the race with the end of the generation is lost when that has come first.\<close>

definition client_answers :: "nat \<Rightarrow> client_error + client_value \<Rightarrow> supervisor \<Rightarrow> supervisor" where
  "client_answers i r s =
     (case find (\<lambda>f. fl_id f = i) (sv_flights s) of
        None \<Rightarrow> s
      | Some f \<Rightarrow>
          if fl_gen f \<noteq> sv_generation s \<or> sv_stopped s then s
          else settle_call i (map_sum Call_failed id r) s)"

definition again_answers :: "nat \<Rightarrow> client_error + client_value \<Rightarrow> supervisor \<Rightarrow> supervisor" where
  "again_answers i r s =
     (case find (\<lambda>f. fl_id f = i) (sv_flights s) of
        None \<Rightarrow> s
      | Some f \<Rightarrow> if fl_again f = 0 then s else settle_call i (map_sum Call_failed id r) s)"

section \<open>Restarts\<close>

definition shut_down :: "nat option \<Rightarrow> supervisor \<Rightarrow> supervisor" where
  "shut_down k s = (case k of None \<Rightarrow> s | Some c \<Rightarrow> s\<lparr>sv_live := filter (\<lambda>d. d \<noteq> c) (sv_live s)\<rparr>)"

definition schedule_ping :: "supervisor \<Rightarrow> supervisor" where
  "schedule_ping s = s\<lparr>sv_timer := \<not> sv_stopped s\<rparr>"

definition set_loop :: "restart_run \<Rightarrow> supervisor \<Rightarrow> supervisor" where
  "set_loop x s = s\<lparr>sv_loops := map (\<lambda>y. if lp_id y = lp_id x then x else y) (sv_loops s)\<rparr>"

definition end_loop :: "restart_run \<Rightarrow> supervisor \<Rightarrow> supervisor" where
  "end_loop x s =
     s\<lparr>sv_loops := filter (\<lambda>y. lp_id y \<noteq> lp_id x) (sv_loops s), sv_after := (if lp_after x then sv_after s + 1 else sv_after s)\<rparr>"

definition find_loop :: "nat \<Rightarrow> supervisor \<Rightarrow> restart_run option" where
  "find_loop i s = find (\<lambda>x. lp_id x = i) (sv_loops s)"

definition begin_loop :: "restart_reason \<Rightarrow> bool \<Rightarrow> supervisor \<Rightarrow> supervisor" where
  "begin_loop r after s =
     s\<lparr>sv_loops := sv_loops s @ [\<lparr>lp_id = sv_next_run s, lp_phase = Tearing, lp_attempt = 0, lp_reason = r, lp_after = after\<rparr>],
       sv_next_run := sv_next_run s + 1\<rparr>"

text \<open>The head of the loop, and what follows its sleep: the restart is counted and a client is made.\<close>

definition loop_head :: "restart_run \<Rightarrow> supervisor \<Rightarrow> supervisor" where
  "loop_head x s = (if sv_stopped s then end_loop x s else set_loop (x\<lparr>lp_phase := Backing_off\<rparr>) s)"

definition loop_torn :: "nat \<Rightarrow> supervisor \<Rightarrow> supervisor" where
  "loop_torn i s =
     (case find_loop i s of
        None \<Rightarrow> s
      | Some x \<Rightarrow> if lp_phase x = Tearing then loop_head x s else s)"

definition loop_slept :: "nat \<Rightarrow> supervisor \<Rightarrow> supervisor" where
  "loop_slept i s =
     (case find_loop i s of
        None \<Rightarrow> s
      | Some x \<Rightarrow>
          if lp_phase x \<noteq> Backing_off then s
          else if sv_stopped s then end_loop x s
          else (let k = sv_next_client s
                in set_loop (x\<lparr>lp_phase := Booting k (sv_generation s)\<rparr>)
                     (s\<lparr>sv_restarts := sv_restarts s @ [lp_reason x], sv_next_client := k + 1, sv_live := sv_live s @ [k],
                        sv_boots := sv_boots s @ [(k, sv_generation s)]\<rparr>)))"

definition boot_failed :: "int \<Rightarrow> restart_run \<Rightarrow> supervisor \<Rightarrow> supervisor" where
  "boot_failed t x s =
     (let y = x\<lparr>lp_attempt := lp_attempt x + 1, lp_reason := R_init_failed\<rparr>
      in if lp_attempt y < sv_threshold s then loop_head y s
         else (let s1 = circuit_record t False (s\<lparr>sv_give_ups := sv_give_ups s + 1\<rparr>)
               in case circuit_allow t s1 of
                    (ok, s2) \<Rightarrow>
                      if \<not> ok then end_loop y (set_state Sup_circuit_open s2)
                      else loop_head (y\<lparr>lp_attempt := 0\<rparr>) s2))"

definition boot_done :: "int \<Rightarrow> restart_run \<Rightarrow> nat \<Rightarrow> mcp_tool list \<Rightarrow> supervisor \<Rightarrow> supervisor" where
  "boot_done t x k tools s =
     (let s1 = circuit_record t True (s\<lparr>sv_client := Some k, sv_tools := tools, sv_give_ups := 0\<rparr>)
      in end_loop x (schedule_ping (set_state Sup_ready s1)))"

text \<open>\<^verbatim>\<open>bootFreshClient\<close> ends: with the error of the handshake or of the tool list, or with the tools.\<close>

definition booted :: "int \<Rightarrow> nat \<Rightarrow> client_error + mcp_tool list \<Rightarrow> supervisor \<Rightarrow> supervisor" where
  "booted t i r s =
     (case find_loop i s of
        None \<Rightarrow> s
      | Some x \<Rightarrow>
          (case lp_phase x of
             Booting k g \<Rightarrow>
               (case r of
                  Inl e \<Rightarrow> boot_failed t x s
                | Inr tools \<Rightarrow>
                    if g \<noteq> sv_generation s then boot_failed t x (shut_down (Some k) s)
                    else boot_done t x k tools s)
           | _ \<Rightarrow> s))"

section \<open>Draining\<close>

definition unsettled :: "nat list \<Rightarrow> supervisor \<Rightarrow> nat list" where
  "unsettled is s = filter (\<lambda>i. i \<in> fl_id ` set (sv_flights s)) is"

definition set_over :: "nat \<Rightarrow> nat list \<Rightarrow> supervisor \<Rightarrow> supervisor" where
  "set_over d ov s =
     s\<lparr>sv_drains := map (\<lambda>x. if dr_id x = d then x\<lparr>dr_over := Some ov\<rparr> else x) (sv_drains s), sv_cancel := None\<rparr>"

text \<open>The timeout of a drain or its cancellation; it does nothing when the wait is over already.\<close>

definition drain_over :: "nat \<Rightarrow> supervisor \<Rightarrow> supervisor" where
  "drain_over d s =
     (case find (\<lambda>x. dr_id x = d \<and> dr_over x = None) (sv_drains s) of
        None \<Rightarrow> s
      | Some x \<Rightarrow> set_over d (unsettled (dr_active x) s) s)"

definition drain_settled :: "nat \<Rightarrow> supervisor \<Rightarrow> supervisor" where
  "drain_settled d s =
     (case find (\<lambda>x. dr_id x = d \<and> dr_over x = None) (sv_drains s) of
        None \<Rightarrow> s
      | Some x \<Rightarrow> if unsettled (dr_active x) s = [] then set_over d [] s else s)"

definition cancel_drain :: "supervisor \<Rightarrow> supervisor" where
  "cancel_drain s = (case sv_cancel s of None \<Rightarrow> s | Some d \<Rightarrow> drain_over d s)"

text \<open>\<^verbatim>\<open>drainInFlightCalls\<close>, up to its wait.\<close>

definition begin_drain :: "restart_reason \<Rightarrow> supervisor \<Rightarrow> supervisor" where
  "begin_drain r s =
     (let active = map fl_id (filter (\<lambda>f. fl_gen f = sv_generation s) (sv_flights s));
          now_over = (active = [] \<or> sv_drain_ms s = 0);
          d = sv_next_run s
      in s\<lparr>sv_drains := sv_drains s @ [\<lparr>dr_id = d, dr_reason = r, dr_active = active,
                                        dr_over = (if now_over then Some active else None)\<rparr>],
           sv_next_run := d + 1, sv_cancel := (if now_over then sv_cancel s else Some d)\<rparr>)"

text \<open>The rest of \<^verbatim>\<open>drainThenRespawn\<close>, up to the loop.\<close>

definition reject_drained :: "nat \<Rightarrow> supervisor \<Rightarrow> supervisor" where
  "reject_drained i s =
     (case find (\<lambda>f. fl_id f = i) (sv_flights s) of
        None \<Rightarrow> s
      | Some f \<Rightarrow>
          if sv_resubmit s then s else settle_call i (Inl (Call_drained (fl_tool f) (fl_args f) (sv_drain_ms s))) s)"

definition drain_rest :: "drain \<Rightarrow> nat list \<Rightarrow> supervisor \<Rightarrow> supervisor" where
  "drain_rest x ov s =
     (let dying = sv_client s;
          s1 = s\<lparr>sv_drains := filter (\<lambda>y. dr_id y \<noteq> dr_id x) (sv_drains s), sv_generation := sv_generation s + 1,
                 sv_client := None, sv_tools := [], sv_timer := False\<rparr>
      in shut_down dying (begin_loop (dr_reason x) True (set_state Sup_reconnecting (fold reject_drained ov s1))))"

definition continue_drain :: "nat \<Rightarrow> supervisor \<Rightarrow> supervisor" where
  "continue_drain d s =
     (case find (\<lambda>x. dr_id x = d) (sv_drains s) of
        None \<Rightarrow> s
      | Some x \<Rightarrow> (case dr_over x of None \<Rightarrow> s | Some ov \<Rightarrow> drain_rest x ov s))"

definition trigger_restart :: "int \<Rightarrow> restart_reason \<Rightarrow> supervisor \<Rightarrow> supervisor" where
  "trigger_restart t r s =
     (if sv_stopped s then s
      else if sv_state s = Sup_reconnecting then s
      else if sv_state s = Sup_draining then cancel_drain s
      else case circuit_allow t s of
          (ok, s1) \<Rightarrow> if \<not> ok then set_state Sup_circuit_open s1 else begin_drain r (set_state Sup_draining s1))"

definition run_task :: "int \<Rightarrow> supervisor \<Rightarrow> supervisor" where
  "run_task t s0 =
     (case sv_tasks s0 of
        [] \<Rightarrow> s0
      | k # ks \<Rightarrow>
          (let s = s0\<lparr>sv_tasks := ks\<rparr>
           in case k of
                Exit_task g r \<Rightarrow> if g \<noteq> sv_generation s then s else trigger_restart t r s
              | Probe_task \<Rightarrow>
                  if sv_stopped s then s
                  else (case circuit_allow t s of
                          (ok, s1) \<Rightarrow>
                            if \<not> ok then s1
                            else if sv_state s1 = Sup_reconnecting then s1
                            else trigger_restart t R_probe s1)))"

text \<open>\<^verbatim>\<open>onExit\<close> of the client \<open>k\<close>.\<close>

definition client_exits :: "nat \<Rightarrow> exit_reason \<Rightarrow> supervisor \<Rightarrow> supervisor" where
  "client_exits k r s =
     (case map_of (sv_boots s) k of
        None \<Rightarrow> s
      | Some g \<Rightarrow>
          if sv_stopped s then s
          else if g \<noteq> sv_generation s then s
          else if r = Exit_shutdown then s
          else s\<lparr>sv_tasks := sv_tasks s @
                   [Exit_task g (if r = Exit_transport_closed then R_transport_closed else R_init_failed)]\<rparr>)"

definition resubmit_calls :: "supervisor \<Rightarrow> supervisor" where
  "resubmit_calls s0 =
     (if sv_after s0 = 0 then s0
      else let s = s0\<lparr>sv_after := sv_after s0 - 1\<rparr>
           in if \<not> sv_resubmit s \<or> sv_state s \<noteq> Sup_ready then s
              else case sv_client s of
                  None \<Rightarrow> s
                | Some k \<Rightarrow> s\<lparr>sv_flights := map (\<lambda>f. f\<lparr>fl_again := fl_again f + 1\<rparr>) (sv_flights s),
                              sv_issued := sv_issued s @ map (\<lambda>f. (fl_id f, k)) (sv_flights s)\<rparr>)"

section \<open>The health check, start and stop\<close>

definition ping_due :: "supervisor \<Rightarrow> supervisor" where
  "ping_due s =
     (if \<not> sv_timer s \<or> sv_stopped s then s
      else if sv_client s = None \<or> sv_state s \<noteq> Sup_ready then schedule_ping s
      else s\<lparr>sv_timer := False, sv_pings := sv_pings s @ [sv_generation s]\<rparr>)"

text \<open>The oldest ping that is out ends.\<close>

definition ping_result :: "int \<Rightarrow> bool \<Rightarrow> supervisor \<Rightarrow> supervisor" where
  "ping_result t ok s0 =
     (case sv_pings s0 of
        [] \<Rightarrow> s0
      | g # gs \<Rightarrow>
          (let s = s0\<lparr>sv_pings := gs\<rparr>
           in if sv_stopped s \<or> g \<noteq> sv_generation s then s
              else if ok then schedule_ping (s\<lparr>sv_ping_failures := 0\<rparr>)
              else if sv_ping_threshold s \<le> sv_ping_failures s + 1 then trigger_restart t R_ping_failed (s\<lparr>sv_ping_failures := 0\<rparr>)
              else schedule_ping (s\<lparr>sv_ping_failures := sv_ping_failures s + 1\<rparr>)))"

definition start_supervisor :: "supervisor \<Rightarrow> supervisor" where
  "start_supervisor s =
     (if sv_stopped s \<or> sv_started s then s
      else begin_loop R_initial False (set_state Sup_starting (s\<lparr>sv_started := True\<rparr>)))"

definition reject_stopped :: "int \<Rightarrow> flight \<Rightarrow> supervisor \<Rightarrow> supervisor" where
  "reject_stopped t f s = (case circuit_state t s of (c, s1) \<Rightarrow> settle_call (fl_id f) (Inl (Server_crashed c Stopped_text)) s1)"

definition stop_supervisor :: "int \<Rightarrow> supervisor \<Rightarrow> supervisor" where
  "stop_supervisor t s =
     (if sv_stopped s then s
      else let s1 = set_state Sup_stopped (cancel_drain (s\<lparr>sv_stopped := True, sv_timer := False\<rparr>));
               s2 = fold (reject_stopped t) (sv_flights s1) (s1\<lparr>sv_client := None\<rparr>)
           in shut_down (sv_client s1) s2)"

datatype sup_event =
    Sup_start
  | Sup_stop int
  | Sup_call int string js
  | Client_answers nat "client_error + client_value"
  | Again_answers nat "client_error + client_value"
  | Client_exits nat exit_reason
  | Run_task int
  | Loop_torn nat
  | Loop_slept nat
  | Booted int nat "client_error + mcp_tool list"
  | Ping_due
  | Ping_result int bool
  | Drain_timeout nat
  | Drain_settled nat
  | Continue_drain nat
  | Resubmit_calls
  | Sup_snapshot int

fun sup_step :: "supervisor \<Rightarrow> sup_event \<Rightarrow> supervisor" where
  "sup_step s Sup_start = start_supervisor s"
| "sup_step s (Sup_stop t) = stop_supervisor t s"
| "sup_step s (Sup_call t n v) = call_tool t n v s"
| "sup_step s (Client_answers i r) = client_answers i r s"
| "sup_step s (Again_answers i r) = again_answers i r s"
| "sup_step s (Client_exits k r) = client_exits k r s"
| "sup_step s (Run_task t) = run_task t s"
| "sup_step s (Loop_torn i) = loop_torn i s"
| "sup_step s (Loop_slept i) = loop_slept i s"
| "sup_step s (Booted t i r) = booted t i r s"
| "sup_step s Ping_due = ping_due s"
| "sup_step s (Ping_result t ok) = ping_result t ok s"
| "sup_step s (Drain_timeout d) = drain_over d s"
| "sup_step s (Drain_settled d) = drain_settled d s"
| "sup_step s (Continue_drain d) = continue_drain d s"
| "sup_step s Resubmit_calls = resubmit_calls s"
| "sup_step s (Sup_snapshot t) = snd (circuit_state t s)"

section \<open>Every call is settled once\<close>

text \<open>What the steps that settle and register nothing leave alone.\<close>

definition books :: "supervisor \<Rightarrow> nat list \<times> (nat \<times> (sup_error + client_value)) list \<times> nat \<times> bool" where
  "books s = (map fl_id (sv_flights s), sv_settled s, sv_next_call s, sv_stopped s)"

definition tally :: "supervisor \<Rightarrow> bool" where
  "tally s =
     (case books s of (ids, out, n, b) \<Rightarrow> mset (map fst out) + mset ids = mset [1..<n] \<and> 0 < n)"

definition counted :: "supervisor \<Rightarrow> bool" where
  "counted s \<longleftrightarrow> tally s \<and> (sv_stopped s \<longrightarrow> sv_flights s = [])"

lemma tally_cong: "books s' = books s \<Longrightarrow> tally s' = tally s"
  by (simp add: tally_def)

lemma counted_cong: "books s' = books s \<Longrightarrow> counted s' = counted s"
  by (simp add: counted_def tally_def books_def) (metis map_is_Nil_conv)

lemma counted_books: "counted s \<Longrightarrow> books s' = books s \<Longrightarrow> counted s'"
  using counted_cong by blast

lemma books_state [simp]: "books (set_state x s) = books s" "books (schedule_probe s) = books s" "books (circuit_event e s) = books s"
  by (simp_all add: books_def set_state_def schedule_probe_def circuit_event_def split: cb_state.split)

lemma books_events: "books (fold (\<lambda>(l, e). circuit_event e) es s) = books s"
  by (induction es arbitrary: s) (simp_all add: case_prod_unfold)

lemma books_circuit [simp]:
  "books (snd (with_circuit f s)) = books s" "books (snd (circuit_allow t s)) = books s" "books (circuit_record t ok s) = books s"
  "books (snd (circuit_state t s)) = books s"
proof -
  have "books (s\<lparr>sv_circuit := b\<rparr>) = books s" for b by (simp add: books_def)
  then show w: "books (snd (with_circuit f s)) = books s" for f :: "breaker \<Rightarrow> 'x \<times> breaker"
    by (simp add: with_circuit_def books_events split: prod.split)
  show "books (snd (circuit_allow t s)) = books s" "books (circuit_record t ok s) = books s" "books (snd (circuit_state t s)) = books s"
    unfolding circuit_allow_def circuit_record_def circuit_state_def by (rule w)+
qed

lemma allowD: "circuit_allow t s = (b, s') \<Longrightarrow> books s' = books s"
  using books_circuit(2) [of t s] by simp

lemma stateD: "circuit_state t s = (b, s') \<Longrightarrow> books s' = books s"
  using books_circuit(4) [of t s] by simp

lemma books_loop [simp]:
  "books (set_loop x s) = books s" "books (end_loop x s) = books s" "books (begin_loop r a s) = books s" "books (loop_head x s) = books s"
  "books (shut_down k s) = books s" "books (schedule_ping s) = books s"
  by (simp_all add: books_def set_loop_def end_loop_def begin_loop_def loop_head_def shut_down_def schedule_ping_def split: option.split)

lemma books_torn [simp]: "books (loop_torn i s) = books s"
  by (simp add: loop_torn_def split: option.split)

lemma books_slept [simp]: "books (loop_slept i s) = books s"
proof -
  have "books (s\<lparr>sv_restarts := a, sv_next_client := b, sv_live := c, sv_boots := d\<rparr>) = books s" for a b c d
    by (simp add: books_def)
  then show ?thesis by (simp add: loop_slept_def Let_def split: option.split)
qed

lemma books_boot [simp]: "books (boot_failed t x s) = books s" "books (boot_done t x k ts s) = books s"
proof -
  have "books (s\<lparr>sv_give_ups := n\<rparr>) = books s" "books (s\<lparr>sv_client := c, sv_tools := ts, sv_give_ups := n\<rparr>) = books s" for n c
    by (simp_all add: books_def)
  then show "books (boot_failed t x s) = books s" "books (boot_done t x k ts s) = books s"
    by (auto simp: boot_failed_def boot_done_def Let_def split: prod.split dest: allowD)
qed

lemma books_booted [simp]: "books (booted t i r s) = books s"
  by (simp add: booted_def split: option.split loop_phase.split sum.split)

lemma books_drain [simp]:
  "books (set_over d ov s) = books s" "books (drain_over d s) = books s" "books (drain_settled d s) = books s"
  "books (cancel_drain s) = books s" "books (begin_drain r s) = books s"
proof -
  show set: "books (set_over d ov s) = books s" for d ov s by (simp add: books_def set_over_def)
  show over: "books (drain_over d s) = books s" for d by (simp add: drain_over_def set split: option.split)
  show "books (drain_settled d s) = books s" by (simp add: drain_settled_def set split: option.split)
  show "books (cancel_drain s) = books s" by (simp add: cancel_drain_def over split: option.split)
  show "books (begin_drain r s) = books s" by (simp add: begin_drain_def Let_def books_def)
qed

lemma books_trigger [simp]: "books (trigger_restart t r s) = books s"
  by (auto simp: trigger_restart_def split: prod.split dest: allowD)

lemma books_task [simp]: "books (run_task t s) = books s"
proof -
  have "books (s\<lparr>sv_tasks := ks\<rparr>) = books s" for ks by (simp add: books_def)
  then show ?thesis by (auto simp: run_task_def Let_def split: list.split sup_task.split prod.split dest: allowD)
qed

lemma books_ping [simp]: "books (ping_due s) = books s" "books (ping_result t ok s) = books s"
proof -
  have "books (s\<lparr>sv_timer := a, sv_pings := b\<rparr>) = books s" "books (s\<lparr>sv_pings := b\<rparr>) = books s"
    "books (s\<lparr>sv_pings := b, sv_ping_failures := n\<rparr>) = books s" for a b n
    by (simp_all add: books_def)
  then show "books (ping_due s) = books s" "books (ping_result t ok s) = books s"
    by (simp_all add: ping_due_def ping_result_def Let_def split: list.split)
qed

lemma books_rest [simp]: "books (client_exits k r s) = books s" "books (resubmit_calls s) = books s" "books (start_supervisor s) = books s"
proof -
  show "books (client_exits k r s) = books s" by (simp add: client_exits_def books_def split: option.split)
  show "books (resubmit_calls s) = books s" by (simp add: resubmit_calls_def Let_def books_def o_def split: option.split)
  have "books (s\<lparr>sv_started := True\<rparr>) = books s" by (simp add: books_def)
  then show "books (start_supervisor s) = books s" by (simp add: start_supervisor_def)
qed

lemma settle_books:
  "i \<in> fl_id ` set (sv_flights s) \<Longrightarrow>
   books (settle_call i r s) = (filter (\<lambda>j. j \<noteq> i) (map fl_id (sv_flights s)), sv_settled s @ [(i, r)], sv_next_call s, sv_stopped s)"
  by (simp add: books_def settle_call_def filter_map o_def)

lemma mset_take_out: "distinct xs \<Longrightarrow> i \<in> set xs \<Longrightarrow> mset xs = add_mset i (mset (filter (\<lambda>j. j \<noteq> i) xs))"
proof (induction xs)
  case (Cons x xs)
  show ?case
  proof (cases "x = i")
    case True
    with Cons.prems(1) have "filter (\<lambda>j. j \<noteq> i) xs = xs" by (auto simp: filter_id_conv)
    with True show ?thesis by simp
  qed (use Cons in simp)
qed simp

lemma tally_settle: "tally s \<Longrightarrow> tally (settle_call i r s)"
proof (cases "i \<in> fl_id ` set (sv_flights s)")
  case True
  let ?ids = "map fl_id (sv_flights s)"
  assume "tally s"
  then have m: "mset (map fst (sv_settled s)) + mset ?ids = mset [1..<sv_next_call s]" "0 < sv_next_call s"
    by (simp_all add: tally_def books_def del: mset_map mset_upt)
  then have "mset (map fst (sv_settled s) @ ?ids) = mset [1..<sv_next_call s]" by simp
  then have "distinct (map fst (sv_settled s) @ ?ids)" using mset_eq_imp_distinct_iff distinct_upt by blast
  then have "distinct ?ids" by simp
  moreover have "i \<in> set ?ids" using True by auto
  ultimately have "mset ?ids = add_mset i (mset (filter (\<lambda>j. j \<noteq> i) ?ids))" by (rule mset_take_out)
  then have "mset (map fst (sv_settled s @ [(i, r)])) + mset (filter (\<lambda>j. j \<noteq> i) ?ids) = mset [1..<sv_next_call s]"
    unfolding m(1) [symmetric] by simp
  with m(2) show ?thesis unfolding tally_def settle_books [OF True] by (simp del: mset_map mset_upt)
qed (simp add: settle_call_def)

lemma counted_settle: "counted s \<Longrightarrow> counted (settle_call i r s)"
  by (simp add: counted_def tally_settle) (simp add: settle_call_def)

lemma register_counted: "counted s \<Longrightarrow> \<not> sv_stopped s \<Longrightarrow> counted (register_call k n v s)"
  by (simp add: counted_def tally_def books_def register_call_def del: mset_upt)

lemma books_next: "books s' = books s \<Longrightarrow> sv_next_call s' = sv_next_call s \<and> sv_stopped s' = sv_stopped s"
  by (simp add: books_def)

lemma books_refuse [simp]: "books (refuse e s) = books s" "books (refuse_crashed t w s) = books s"
  by (auto simp: refuse_def refuse_crashed_def books_def split: prod.split dest: stateD)

lemma books_take: "aggregate_take t s = (e, s') \<Longrightarrow> books s' = books s"
  by (auto simp: aggregate_take_def books_def split: option.splits prod.splits if_splits)

lemma call_tool_cases:
  "books (call_tool t n v s) = books s \<or>
   (\<exists>k s2. call_tool t n v s = register_call k n v s2 \<and> books s2 = books s \<and> \<not> sv_stopped s)"
  using books_take [of t s] allowD
  by (fastforce simp: call_tool_def split: prod.split option.split)

lemma counted_call: "counted s \<Longrightarrow> counted (call_tool t n v s)"
  using call_tool_cases [of t n v s]
proof (elim disjE exE conjE)
  fix k s2
  assume "counted s" "call_tool t n v s = register_call k n v s2" "books s2 = books s" "\<not> sv_stopped s"
  then show ?thesis using counted_cong books_next register_counted by metis
qed (use counted_cong in blast)

lemma counted_rest: "counted s \<Longrightarrow> counted (drain_rest x ov s)"
proof -
  assume ok: "counted s"
  let ?s = "s\<lparr>sv_drains := filter (\<lambda>y. dr_id y \<noteq> dr_id x) (sv_drains s), sv_generation := sv_generation s + 1,
                 sv_client := None, sv_tools := [], sv_timer := False\<rparr>"
  have reject: "counted (fold reject_drained ov u)" if "counted u" for u
    using that by (induction ov arbitrary: u) (simp_all add: reject_drained_def counted_settle split: option.split)
  have "books ?s = books s" by (simp add: books_def)
  then have "counted (fold reject_drained ov ?s)" using ok counted_cong reject by blast
  moreover have "books (drain_rest x ov s) = books (fold reject_drained ov ?s)" by (simp add: drain_rest_def Let_def)
  ultimately show ?thesis using counted_cong by blast
qed

lemma settle_ids: "map fl_id (sv_flights (settle_call i r s)) = filter (\<lambda>j. j \<noteq> i) (map fl_id (sv_flights s))"
proof (cases "i \<in> fl_id ` set (sv_flights s)")
  case False
  then have "filter (\<lambda>j. j \<noteq> i) (map fl_id (sv_flights s)) = map fl_id (sv_flights s)"
    by (intro filter_True) auto
  with False show ?thesis by (simp add: settle_call_def)
qed (simp add: settle_call_def filter_map o_def)

lemma reject_stopped_keeps:
  "tally s \<Longrightarrow> tally (reject_stopped t f s)" "sv_stopped (reject_stopped t f s) = sv_stopped s"
  "map fl_id (sv_flights (reject_stopped t f s)) = filter (\<lambda>i. i \<noteq> fl_id f) (map fl_id (sv_flights s))"
proof -
  obtain c s1 where s1: "circuit_state t s = (c, s1)" by (cases "circuit_state t s")
  have b: "books s1 = books s" using s1 by (rule stateD)
  show "tally s \<Longrightarrow> tally (reject_stopped t f s)"
    using tally_cong [OF b] by (simp add: reject_stopped_def s1 tally_settle)
  show "sv_stopped (reject_stopped t f s) = sv_stopped s"
    using b by (simp add: reject_stopped_def s1 settle_call_def books_def)
  show "map fl_id (sv_flights (reject_stopped t f s)) = filter (\<lambda>i. i \<noteq> fl_id f) (map fl_id (sv_flights s))"
    using b by (simp add: reject_stopped_def s1 settle_ids books_def)
qed

lemma rejected_all:
  "(tally s \<longrightarrow> tally (fold (reject_stopped t) fs s)) \<and> sv_stopped (fold (reject_stopped t) fs s) = sv_stopped s \<and>
   map fl_id (sv_flights (fold (reject_stopped t) fs s)) = filter (\<lambda>i. i \<notin> fl_id ` set fs) (map fl_id (sv_flights s))"
proof (induction fs arbitrary: s)
  case (Cons f fs)
  show ?case using Cons.IH [of "reject_stopped t f s"] reject_stopped_keeps [where t = t and f = f and s = s]
    by (simp add: conj_commute)
qed simp

lemma counted_stop: "counted s \<Longrightarrow> counted (stop_supervisor t s)"
proof (cases "sv_stopped s")
  case False
  assume ok: "counted s"
  define s1 where "s1 = set_state Sup_stopped (cancel_drain (s\<lparr>sv_stopped := True, sv_timer := False\<rparr>))"
  define u where "u = fold (reject_stopped t) (sv_flights s1) (s1\<lparr>sv_client := None\<rparr>)"
  have "books s1 = (map fl_id (sv_flights s), sv_settled s, sv_next_call s, True)"
    by (simp add: s1_def) (simp add: books_def)
  with ok have "tally (s1\<lparr>sv_client := None\<rparr>)" by (simp add: counted_def tally_def books_def del: mset_map mset_upt)
  moreover have "map fl_id (sv_flights u) = []" by (auto simp: u_def rejected_all filter_empty_conv)
  then have "sv_flights u = []" by (simp only: map_is_Nil_conv)
  ultimately have "counted u" by (simp add: counted_def u_def rejected_all)
  moreover have "books (stop_supervisor t s) = books u"
    using False by (simp add: stop_supervisor_def Let_def s1_def u_def)
  ultimately show ?thesis using counted_cong by blast
qed (simp add: stop_supervisor_def)

lemma counted_step: "counted s \<Longrightarrow> counted (sup_step s e)"
proof (cases e)
  case (Continue_drain d)
  assume "counted s"
  then show ?thesis by (auto simp: Continue_drain continue_drain_def counted_rest split: option.split)
next
  case (Client_answers i r)
  assume "counted s"
  then show ?thesis by (simp add: Client_answers client_answers_def counted_settle split: option.split)
next
  case (Again_answers i r)
  assume "counted s"
  then show ?thesis by (simp add: Again_answers again_answers_def counted_settle split: option.split)
qed (simp_all add: counted_stop counted_call counted_books [of s])

interpretation sup_calls: step_invariant sup_step counted
  by unfold_locales (rule counted_step)

lemma create_counted: "create_supervisor now opts = Inr s \<Longrightarrow> counted s"
  by (auto simp: create_supervisor_def counted_def tally_def books_def split: sum.splits option.splits)

text \<open>C33. Whatever crashes, drains, respawns, resubmissions and stops happen and however they interleave, a tool call that the
  supervisor took on is settled at most once and stays registered until then, and after \<^verbatim>\<open>stop\<close> every call is settled.\<close>

theorem tool_calls_settled_once:
  assumes "create_supervisor now opts = Inr s0" "s = run sup_step s0 events"
  shows "mset (map fst (sv_settled s) @ map fl_id (sv_flights s)) = mset [1..<sv_next_call s] \<and> (sv_stopped s \<longrightarrow> sv_flights s = [])"
  using sup_calls.run_good [OF create_counted [OF assms(1)], of events] assms(2)
  by (simp add: counted_def tally_def books_def)

section \<open>Which calls reach a server\<close>

definition limit_allows :: "int \<Rightarrow> supervisor \<Rightarrow> bool" where
  "limit_allows t s = (case sv_bucket s of None \<Rightarrow> True | Some b \<Rightarrow> fst (p_try_take t b))"

text \<open>The gate of the circuit cannot change which client is there, and changes the state only to nothing worse than a probe.\<close>

definition service :: "supervisor \<Rightarrow> nat option \<times> nat \<times> nat list \<times> (nat \<times> nat) list \<times> sup_error list" where
  "service s = (sv_client s, sv_next_call s, sv_live s, sv_issued s, sv_refused s)"

lemma service_events: "service (fold (\<lambda>(l, e). circuit_event e) es s) = service s"
proof (induction es arbitrary: s)
  case (Cons e es)
  obtain l x where e: "e = (l, x)" by (cases e)
  have "service (circuit_event x s) = service s"
    by (simp add: service_def circuit_event_def set_state_def schedule_probe_def split: cb_state.split)
  with Cons show ?case by (simp add: e)
qed simp

lemma service_circuit [simp]: "service (snd (with_circuit f s)) = service s"
proof -
  have "service (s\<lparr>sv_circuit := b\<rparr>) = service s" for b by (simp add: service_def)
  then show ?thesis by (simp add: with_circuit_def service_events split: prod.split)
qed

lemma transition_delivered:
  "delivered (transition_to t x b) = delivered b @ (if br_state b = x then [] else map (\<lambda>l. (l, Transition (br_state b) x t)) (listeners b))"
  by (simp add: transition_to_def Let_def)

lemma state_of_events:
  "\<exists>es. delivered (snd (cb_state_of t b)) = delivered b @ es \<and> list_all (\<lambda>(l, e). tr_to e = HalfOpen) es"
  by (auto simp: cb_state_of_def Let_def transition_delivered list_all_iff split: option.split)

lemma probes_keep_state: "list_all (\<lambda>(l, e). tr_to e = HalfOpen) es \<Longrightarrow> sv_state (fold (\<lambda>(l, e). circuit_event e) es s) = sv_state s"
proof (induction es arbitrary: s)
  case (Cons e es)
  obtain l x where e: "e = (l, x)" by (cases e)
  with Cons have "sv_state (circuit_event x s) = sv_state s" by (simp add: circuit_event_def schedule_probe_def)
  with Cons show ?case by (simp add: e)
qed simp

lemma allow_keeps:
  assumes "circuit_allow t s = (ok, s')"
  shows "ok = fst (cb_allow t (sv_circuit s))" "sv_state s' = sv_state s" "service s' = service s"
proof -
  obtain es where es: "delivered (snd (cb_state_of t (sv_circuit s))) = delivered (sv_circuit s) @ es"
      "list_all (\<lambda>(l, e). tr_to e = HalfOpen) es"
    using state_of_events by blast
  then show "sv_state s' = sv_state s"
    using assms probes_keep_state [OF es(2)]
    by (auto simp: circuit_allow_def with_circuit_def cb_allow_def split: prod.splits)
  show "ok = fst (cb_allow t (sv_circuit s))"
    using assms by (auto simp: circuit_allow_def with_circuit_def split: prod.splits)
  have "snd (with_circuit (cb_allow t) s) = s'" using assms by (simp add: circuit_allow_def)
  then show "service s' = service s" using service_circuit by metis
qed

lemma refused_once:
  "sv_issued (refuse_crashed t w s) = sv_issued s" "\<exists>e. sv_refused (refuse_crashed t w s) = sv_refused s @ [e]"
  "sv_next_call (refuse_crashed t w s) = sv_next_call s"
proof -
  obtain c s1 where s1: "circuit_state t s = (c, s1)" by (cases "circuit_state t s")
  have "snd (with_circuit (cb_state_of t) s) = s1" using s1 by (simp add: circuit_state_def)
  then have "service s1 = service s" using service_circuit by metis
  then show "sv_issued (refuse_crashed t w s) = sv_issued s" "\<exists>e. sv_refused (refuse_crashed t w s) = sv_refused s @ [e]"
    "sv_next_call (refuse_crashed t w s) = sv_next_call s"
    by (simp_all add: refuse_crashed_def s1 refuse_def service_def)
qed

text \<open>C34. A tool call is handed to the server exactly when the supervisor is not stopped, the limit of the server has a token, the
  circuit admits it and a client is ready; otherwise nothing is sent and the caller gets one error at once.\<close>

theorem call_reaches_ready_server:
  "let s' = call_tool t n v s
   in if \<not> sv_stopped s \<and> limit_allows t s \<and> fst (cb_allow t (sv_circuit s)) \<and> sv_state s = Sup_ready \<and> sv_client s \<noteq> None
      then sv_issued s' = sv_issued s @ [(sv_next_call s, the (sv_client s))] \<and> sv_refused s' = sv_refused s
      else sv_issued s' = sv_issued s \<and> (\<exists>e. sv_refused s' = sv_refused s @ [e])"
proof -
  obtain e s1 where s1: "aggregate_take t s = (e, s1)" by (cases "aggregate_take t s")
  have e: "(e = None) = limit_allows t s" "sv_state s1 = sv_state s" "service s1 = service s" "sv_circuit s1 = sv_circuit s"
    using s1 by (auto simp: aggregate_take_def limit_allows_def service_def split: option.splits prod.splits if_splits)
  obtain ok s2 where s2: "circuit_allow t s1 = (ok, s2)" by (cases "circuit_allow t s1")
  note a = allow_keeps [OF s2]
  have f: "sv_client s2 = sv_client s" "sv_issued s1 = sv_issued s" "sv_issued s2 = sv_issued s" "sv_refused s2 = sv_refused s"
    "sv_refused s1 = sv_refused s" "sv_next_call s2 = sv_next_call s"
    using a(3) e(3) by (simp_all add: service_def)
  have r: "\<exists>e. sv_refused (refuse_crashed t w s2) = sv_refused s @ [e]" for w
    using refused_once(2) [of t w s2] f(4) by simp
  show ?thesis
    using e(1) a(1,2) e(2,4) f
    by (cases e) (auto simp: call_tool_def s1 s2 refuse_def register_call_def Let_def r refused_once split: option.split)
qed

section \<open>How the circuit opens\<close>

text \<open>One restart loop that has seen \<open>m\<close> boots fail since the circuit was last fresh, and sleeps.\<close>

definition retrying :: "nat \<Rightarrow> nat \<Rightarrow> supervisor \<Rightarrow> bool" where
  "retrying i m s \<longleftrightarrow>
     (\<exists>x. sv_loops s = [x] \<and> lp_id x = i \<and> lp_phase x = Backing_off \<and> lp_attempt x = m mod sv_threshold s) \<and>
     breaker_ok (sv_circuit s) \<and> br_state (sv_circuit s) = Closed \<and>
     consecutive_failures (sv_circuit s) = int (m div sv_threshold s) \<and>
     failure_threshold (sv_circuit s) = int (sv_threshold s) \<and> 0 < reset_timeout_ms (sv_circuit s) \<and>
     0 < sv_threshold s \<and> \<not> sv_stopped s"

definition attempt_fails :: "int \<Rightarrow> nat \<Rightarrow> client_error \<Rightarrow> sup_event list" where
  "attempt_fails t i e = [Loop_slept i, Booted t i (Inl e)]"

lemma record_closed:
  assumes "breaker_ok (sv_circuit s)" "br_state (sv_circuit s) = Closed"
    and "consecutive_failures (sv_circuit s) + 1 < failure_threshold (sv_circuit s)"
  shows "circuit_record t False s =
    s\<lparr>sv_circuit := (sv_circuit s)\<lparr>consecutive_failures := consecutive_failures (sv_circuit s) + 1, consecutive_successes := 0\<rparr>\<rparr>"
  using failure_step_closed [OF assms(1,2)] assms(3)
  by (simp add: circuit_record_def with_circuit_def cb_record_def Let_def)

lemma allow_closed:
  "breaker_ok (sv_circuit s) \<Longrightarrow> br_state (sv_circuit s) = Closed \<Longrightarrow> circuit_allow t s = (True, s)"
  by (simp add: circuit_allow_def with_circuit_def cb_allow_def closed_stays)

lemma boot_fails_once:
  assumes "retrying i m s"
  shows "\<exists>x u. run sup_step s (attempt_fails t i e) = boot_failed t x u \<and> lp_id x = i \<and> lp_attempt x = m mod sv_threshold s \<and>
    sv_loops u = [x] \<and> sv_circuit u = sv_circuit s \<and> sv_threshold u = sv_threshold s \<and> \<not> sv_stopped u \<and> sv_state u = sv_state s \<and>
    length (sv_restarts u) = length (sv_restarts s) + 1"
proof -
  obtain x where x: "sv_loops s = [x]" "lp_id x = i" "lp_phase x = Backing_off" "lp_attempt x = m mod sv_threshold s" "\<not> sv_stopped s"
    using assms by (auto simp: retrying_def)
  let ?x = "x\<lparr>lp_phase := Booting (sv_next_client s) (sv_generation s)\<rparr>"
  let ?u = "s\<lparr>sv_restarts := sv_restarts s @ [lp_reason x], sv_next_client := sv_next_client s + 1, sv_live := sv_live s @ [sv_next_client s],
      sv_boots := sv_boots s @ [(sv_next_client s, sv_generation s)], sv_loops := [?x]\<rparr>"
  have "run sup_step s (attempt_fails t i e) = boot_failed t ?x ?u"
    using x by (simp add: attempt_fails_def loop_slept_def find_loop_def Let_def set_loop_def booted_def)
  then show ?thesis using x by (intro exI [of _ ?x] exI [of _ ?u]) simp
qed

lemma retry_step:
  assumes "retrying i m s" "m + 1 < sv_threshold s * sv_threshold s"
  shows "retrying i (m + 1) (run sup_step s (attempt_fails t i e)) \<and>
    sv_state (run sup_step s (attempt_fails t i e)) = sv_state s \<and>
    sv_threshold (run sup_step s (attempt_fails t i e)) = sv_threshold s \<and>
    length (sv_restarts (run sup_step s (attempt_fails t i e))) = length (sv_restarts s) + 1"
proof -
  let ?th = "sv_threshold s"
  obtain x u where x: "run sup_step s (attempt_fails t i e) = boot_failed t x u" "lp_id x = i" "lp_attempt x = m mod ?th"
    and u: "sv_loops u = [x]" "sv_circuit u = sv_circuit s" "sv_threshold u = ?th" "\<not> sv_stopped u" "sv_state u = sv_state s"
      "length (sv_restarts u) = length (sv_restarts s) + 1"
    using boot_fails_once [OF assms(1)] by metis
  have b: "breaker_ok (sv_circuit s)" "br_state (sv_circuit s) = Closed" "consecutive_failures (sv_circuit s) = int (m div ?th)"
    "failure_threshold (sv_circuit s) = int ?th" "0 < reset_timeout_ms (sv_circuit s)" "0 < ?th"
    using assms(1) by (simp_all add: retrying_def)
  show ?thesis
  proof (cases "m mod ?th + 1 < ?th")
    case True
    then have "(m + 1) mod ?th = m mod ?th + 1" "(m + 1) div ?th = m div ?th" by (simp_all add: mod_Suc div_Suc)
    then show ?thesis
      using True x(2,3) u b by (simp add: x(1) boot_failed_def Let_def loop_head_def set_loop_def retrying_def)
  next
    case False
    moreover have "m mod ?th < ?th" using b(6) by simp
    ultimately have wrap: "m mod ?th + 1 = ?th" by linarith
    then have next_m: "(m + 1) mod ?th = 0" "(m + 1) div ?th = m div ?th + 1" by (simp_all add: mod_Suc div_Suc)
    have "m + 1 = (m mod ?th + 1) + ?th * (m div ?th)" by simp
    then have "m + 1 = (m div ?th + 1) * ?th" unfolding wrap by (simp add: algebra_simps)
    with assms(2) have "(m div ?th + 1) * ?th < ?th * ?th" by (simp only:)
    then have less: "m div ?th + 1 < ?th" by (simp only: mult_less_cancel2)
    let ?b = "(sv_circuit s)\<lparr>consecutive_failures := consecutive_failures (sv_circuit s) + 1, consecutive_successes := 0\<rparr>"
    have rec: "circuit_record t False (u\<lparr>sv_give_ups := Suc (sv_give_ups u)\<rparr>) = u\<lparr>sv_give_ups := Suc (sv_give_ups u), sv_circuit := ?b\<rparr>"
      using record_closed [of "u\<lparr>sv_give_ups := Suc (sv_give_ups u)\<rparr>" t] b u(2) less by simp
    have ok: "breaker_ok ?b" "br_state ?b = Closed" using b less by (simp_all add: breaker_ok_def)
    then have "circuit_allow t (u\<lparr>sv_give_ups := Suc (sv_give_ups u), sv_circuit := ?b\<rparr>) = (True, u\<lparr>sv_give_ups := Suc (sv_give_ups u), sv_circuit := ?b\<rparr>)"
      by (intro allow_closed) simp_all
    then show ?thesis
      using wrap x(2,3) u b ok next_m
      by (simp add: x(1) boot_failed_def Let_def rec loop_head_def set_loop_def retrying_def)
  qed
qed

lemma events_frame:
  "sv_loops (fold (\<lambda>(l, e). circuit_event e) es s) = sv_loops s \<and> sv_circuit (fold (\<lambda>(l, e). circuit_event e) es s) = sv_circuit s \<and>
   sv_restarts (fold (\<lambda>(l, e). circuit_event e) es s) = sv_restarts s"
proof (induction es arbitrary: s)
  case (Cons e es)
  obtain l x where e: "e = (l, x)" by (cases e)
  have "sv_loops (circuit_event x s) = sv_loops s \<and> sv_circuit (circuit_event x s) = sv_circuit s \<and>
      sv_restarts (circuit_event x s) = sv_restarts s"
    by (simp add: circuit_event_def set_state_def schedule_probe_def split: cb_state.split)
  with Cons show ?case by (simp add: e)
qed simp

lemma retry_opens:
  assumes "retrying i m s" "m + 1 = sv_threshold s * sv_threshold s"
  shows "sv_state (run sup_step s (attempt_fails t i e)) = Sup_circuit_open \<and> sv_loops (run sup_step s (attempt_fails t i e)) = [] \<and>
    br_state (sv_circuit (run sup_step s (attempt_fails t i e))) = Open \<and>
    length (sv_restarts (run sup_step s (attempt_fails t i e))) = length (sv_restarts s) + 1"
proof -
  let ?th = "sv_threshold s"
  obtain x u where x: "run sup_step s (attempt_fails t i e) = boot_failed t x u" "lp_id x = i" "lp_attempt x = m mod ?th"
    and u: "sv_loops u = [x]" "sv_circuit u = sv_circuit s" "sv_threshold u = ?th" "\<not> sv_stopped u" "sv_state u = sv_state s"
      "length (sv_restarts u) = length (sv_restarts s) + 1"
    using boot_fails_once [OF assms(1)] by metis
  have b: "breaker_ok (sv_circuit s)" "br_state (sv_circuit s) = Closed" "consecutive_failures (sv_circuit s) = int (m div ?th)"
    "failure_threshold (sv_circuit s) = int ?th" "0 < reset_timeout_ms (sv_circuit s)" "0 < ?th"
    using assms(1) by (simp_all add: retrying_def)
  obtain q where q: "?th = Suc q" using b(6) by (cases ?th) auto
  have "m = q + q * ?th" using assms(2) by (simp add: q)
  moreover have "(q + q * ?th) mod ?th = q mod ?th" "(q + q * ?th) div ?th = q + q div ?th"
    using mod_mult_self1 [of q q ?th] div_mult_self1 [of ?th q q] b(6) by simp_all
  moreover have "q mod ?th = q" "q div ?th = 0" using q by simp_all
  ultimately have m: "m mod ?th = q" "m div ?th = q" by simp_all
  let ?b = "(sv_circuit s)\<lparr>consecutive_failures := consecutive_failures (sv_circuit s) + 1, consecutive_successes := 0\<rparr>"
  let ?c = "transition_to t Open ?b"
  have rec: "cb_record t False (sv_circuit s) = ?c"
    using failure_step_closed [OF b(1,2)] b(3,4) m(2) q by (simp add: cb_record_def Let_def)
  define v where "v = circuit_record t False (u\<lparr>sv_give_ups := Suc (sv_give_ups u)\<rparr>)"
  have v: "sv_loops v = [x]" "sv_circuit v = ?c" "sv_restarts v = sv_restarts u"
    using u(1,2) rec by (simp_all add: v_def circuit_record_def with_circuit_def events_frame)
  have "br_state ?c = Open" "opened_at ?c = Some t" "t - t < reset_timeout_ms ?c"
    using b(2,5) by (simp_all add: transition_simps)
  then have "circuit_allow t v = (False, v)"
    using open_waits by (simp add: circuit_allow_def with_circuit_def cb_allow_def v(2))
  then show ?thesis
    using x(2,3) u m q v \<open>br_state ?c = Open\<close>
    by (simp add: x(1) boot_failed_def Let_def v_def [symmetric] end_loop_def set_state_def)
qed

lemma retries:
  assumes "retrying i m s" "m + n < sv_threshold s * sv_threshold s"
  shows "retrying i (m + n) (run sup_step s (concat (replicate n (attempt_fails t i e)))) \<and>
    sv_state (run sup_step s (concat (replicate n (attempt_fails t i e)))) = sv_state s \<and>
    sv_threshold (run sup_step s (concat (replicate n (attempt_fails t i e)))) = sv_threshold s \<and>
    length (sv_restarts (run sup_step s (concat (replicate n (attempt_fails t i e))))) = length (sv_restarts s) + n"
  using assms
proof (induction n arbitrary: m s)
  case (Suc n)
  let ?s = "run sup_step s (attempt_fails t i e)"
  have "retrying i (m + 1) ?s" "sv_state ?s = sv_state s" "sv_threshold ?s = sv_threshold s" "length (sv_restarts ?s) = length (sv_restarts s) + 1"
    using retry_step [OF Suc.prems(1)] Suc.prems(2) by simp_all
  with Suc.IH [of "m + 1" ?s] Suc.prems(2) show ?case by (simp add: run_append)
qed simp


section \<open>Interleavings that go wrong\<close>

text \<open>What \<^verbatim>\<open>stop\<close> does not touch.\<close>

definition boots :: "supervisor \<Rightarrow> restart_run list \<times> nat \<times> nat list \<times> nat" where
  "boots s = (sv_loops s, sv_generation s, sv_live s, sv_threshold s)"

lemma boots_events: "boots (fold (\<lambda>(l, e). circuit_event e) es s) = boots s"
proof (induction es arbitrary: s)
  case (Cons e es)
  obtain l x where e: "e = (l, x)" by (cases e)
  have "boots (circuit_event x s) = boots s"
    by (simp add: boots_def circuit_event_def set_state_def schedule_probe_def split: cb_state.split)
  with Cons show ?case by (simp add: e)
qed simp

lemma boots_circuit: "boots (snd (with_circuit f s)) = boots s"
proof -
  have "boots (s\<lparr>sv_circuit := b\<rparr>) = boots s" for b by (simp add: boots_def)
  then show ?thesis by (simp add: with_circuit_def boots_events split: prod.split)
qed

lemma boots_stopping:
  "boots (fold (reject_stopped t) fs s) = boots s" "boots (cancel_drain s) = boots s" "boots (set_state n s) = boots s"
proof -
  have one: "boots (reject_stopped t f s) = boots s" for f s
  proof -
    obtain c s1 where s1: "circuit_state t s = (c, s1)" by (cases "circuit_state t s")
    then have "snd (with_circuit (cb_state_of t) s) = s1" by (simp add: circuit_state_def)
    then have "boots s1 = boots s" using boots_circuit by metis
    then show ?thesis by (simp add: reject_stopped_def s1 settle_call_def boots_def)
  qed
  show "boots (fold (reject_stopped t) fs s) = boots s" by (induction fs arbitrary: s) (simp_all add: one)
  show "boots (cancel_drain s) = boots s"
    by (simp add: cancel_drain_def drain_over_def set_over_def boots_def split: option.split)
  show "boots (set_state n s) = boots s" by (simp add: set_state_def boots_def)
qed

text \<open>A supervisor that is stopped while a client boots comes back: when the boot ends, the client is installed, the state is
  \<^verbatim>\<open>ready\<close> although \<^verbatim>\<open>stopped\<close> is documented as terminal, and the process stays alive, since a second \<^verbatim>\<open>stop\<close> does nothing.\<close>

lemma stop_during_boot_leaks:
  assumes "find_loop i s = Some x" "lp_phase x = Booting k (sv_generation s)" "\<not> sv_stopped s" "k \<in> set (sv_live s)"
    and "sv_client s \<noteq> Some k" "sv_cancel s = None"
    and "s' = run sup_step s [Sup_stop t, Booted u i (Inr tools)]"
  shows "sv_state s' = Sup_ready \<and> sv_client s' = Some k \<and> k \<in> set (sv_live s') \<and> sv_stopped s' \<and> stop_supervisor v s' = s'"
proof -
  define s1 where "s1 = stop_supervisor t s"
  let ?a = "set_state Sup_stopped (s\<lparr>sv_stopped := True, sv_timer := False\<rparr>)"
  have a: "boots ?a = boots s" "sv_client ?a = sv_client s"
    by (simp_all add: boots_def set_state_def)
  have s1: "s1 = shut_down (sv_client s) (fold (reject_stopped t) (sv_flights ?a) (?a\<lparr>sv_client := None\<rparr>))"
    using assms(3,6) a(2) by (simp add: s1_def stop_supervisor_def Let_def cancel_drain_def)
  have "boots (?a\<lparr>sv_client := None\<rparr>) = boots ?a" by (simp add: boots_def)
  then have "boots (fold (reject_stopped t) (sv_flights ?a) (?a\<lparr>sv_client := None\<rparr>)) = boots s"
    unfolding boots_stopping(1) using a(1) by metis
  then have b: "sv_loops s1 = sv_loops s" "sv_generation s1 = sv_generation s" "k \<in> set (sv_live s1)"
    using assms(4,5) by (auto simp: s1 shut_down_def boots_def split: option.splits)
  have st: "sv_stopped s1"
    by (simp add: s1 shut_down_def rejected_all set_state_def split: option.split)
  have "find_loop i s1 = Some x" using assms(1) b(1) by (simp add: find_loop_def)
  then have s': "s' = boot_done u x k tools s1"
    using assms(2,7) b(2) by (simp add: s1_def [symmetric] booted_def)
  let ?r = "circuit_record u True (s1\<lparr>sv_client := Some k, sv_tools := tools, sv_give_ups := 0\<rparr>)"
  have "service ?r = service (s1\<lparr>sv_client := Some k, sv_tools := tools, sv_give_ups := 0\<rparr>)"
    unfolding circuit_record_def by (rule service_circuit)
  then have r: "sv_client ?r = Some k" "sv_live ?r = sv_live s1" by (simp_all add: service_def)
  have "books ?r = books s1" by (simp) (simp add: books_def)
  then have "sv_stopped ?r" using st by (simp add: books_def)
  then have "sv_stopped s'" "sv_state s' = Sup_ready" "sv_client s' = Some k" "sv_live s' = sv_live s1"
    using r by (simp_all add: s' boot_done_def Let_def end_loop_def schedule_ping_def set_state_def)
  with b(3) show ?thesis by (simp add: stop_supervisor_def)
qed

text \<open>A supervisor that was just created.\<close>

lemma created:
  assumes "create_supervisor now opts = Inr s"
  obtains th pth dms rs b c where
    "s = \<lparr>sv_threshold = th, sv_ping_threshold = pth, sv_drain_ms = dms, sv_resubmit = rs, sv_bucket = b, sv_circuit = c,
           sv_state = Sup_starting, sv_client = None, sv_tools = [], sv_restarts = [], sv_give_ups = 0, sv_ping_failures = 0,
           sv_started = False, sv_stopped = False, sv_timer = False, sv_pings = [], sv_generation = 0, sv_flights = [],
           sv_next_call = 1, sv_drains = [], sv_cancel = None, sv_loops = [], sv_next_run = 0, sv_after = 0, sv_tasks = [],
           sv_boots = [], sv_next_client = 0, sv_live = [], sv_issued = [], sv_settled = [], sv_refused = [], sv_opens = 0,
           sv_history = []\<rparr>"
    "\<And>t. cb_allow t c = (True, c)" "\<And>t. cb_record t True c = c" "\<And>t. cb_state_of t c = (Closed, c)"
    "rs = so_resubmit opts" "th = nat (max 1 (opt_or (so_threshold opts) 5))"
proof -
  let ?c = "on_transition 0 (create_breaker (Some (max 1 (opt_or (so_threshold opts) 5))) (Some 1) (Some (opt_or (so_reset_ms opts) 30000)))"
  have c: "cb_state_of t ?c = (Closed, ?c)" for t
    by (simp add: cb_state_of_def on_transition_def create_breaker_def)
  have "cb_allow t ?c = (True, ?c)" "cb_record t True ?c = ?c" for t
    using c [of t] by (simp_all add: cb_allow_def cb_record_def on_success_def on_transition_def create_breaker_def)
  with c that show thesis
    using assms by (auto simp: create_supervisor_def split: sum.splits)
qed

lemmas circuit_calls = circuit_allow_def circuit_record_def circuit_state_def with_circuit_def

lemmas loop_steps = find_loop_def set_loop_def end_loop_def begin_loop_def loop_head_def loop_torn_def loop_slept_def booted_def
  boot_failed_def boot_done_def shut_down_def schedule_ping_def

lemmas restart_steps = start_supervisor_def client_exits_def run_task_def trigger_restart_def begin_drain_def continue_drain_def drain_rest_def
  set_state_def

text \<open>When the first handshake of a server fails, the exit of the client starts a second restart loop beside the first, because
  the state is still \<^verbatim>\<open>starting\<close>. Both loops boot a client; the one that is installed first is forgotten without being shut
  down, and survives even \<^verbatim>\<open>stop\<close>.\<close>

lemma first_failure_boots_twice:
  assumes "create_supervisor now opts = Inr s" "1 < sv_threshold s"
    and "s' = run sup_step s [Sup_start, Loop_torn 0, Loop_slept 0, Client_exits 0 Exit_init_failed, Booted t 0 (Inl e), Run_task t,
                  Continue_drain 1, Loop_torn 2, Loop_slept 0, Loop_slept 2, Booted t 2 (Inr ts), Booted t 0 (Inr ts')]"
  shows "sv_state s' = Sup_ready \<and> sv_client s' = Some 1 \<and> sv_live s' = [0, 1, 2] \<and> sv_live (sup_step s' (Sup_stop t)) = [0, 2]"
proof -
  from assms(1) obtain th pth dms rs b c where s: "s = \<lparr>sv_threshold = th, sv_ping_threshold = pth, sv_drain_ms = dms, sv_resubmit = rs,
        sv_bucket = b, sv_circuit = c,
           sv_state = Sup_starting, sv_client = None, sv_tools = [], sv_restarts = [], sv_give_ups = 0, sv_ping_failures = 0,
           sv_started = False, sv_stopped = False, sv_timer = False, sv_pings = [], sv_generation = 0, sv_flights = [],
           sv_next_call = 1, sv_drains = [], sv_cancel = None, sv_loops = [], sv_next_run = 0, sv_after = 0, sv_tasks = [],
           sv_boots = [], sv_next_client = 0, sv_live = [], sv_issued = [], sv_settled = [], sv_refused = [], sv_opens = 0,
           sv_history = []\<rparr>"
    and c: "\<And>t. cb_allow t c = (True, c)" "\<And>t. cb_record t True c = c"
    by (rule created) blast
  have s': "sv_state s' = Sup_ready \<and> sv_client s' = Some 1 \<and> sv_live s' = [0, 1, 2] \<and> sv_flights s' = [] \<and> \<not> sv_stopped s' \<and> sv_cancel s' = None"
    using assms(2,3) by (simp add: s c circuit_calls loop_steps restart_steps Let_def)
  then show ?thesis
    by (simp add: stop_supervisor_def cancel_drain_def set_state_def shut_down_def Let_def)
qed


text \<open>Stopping during a drain: the drain goes on when its wait is cancelled, and ends in the state \<^verbatim>\<open>reconnecting\<close>, which is then for good.\<close>

lemma rejected_state: "sv_state (fold reject_drained ov s) = sv_state s"
  by (induction ov arbitrary: s) (simp_all add: reject_drained_def settle_call_def split: option.split)

lemma drain_ends_reconnecting: "sv_state (drain_rest x ov s) = Sup_reconnecting"
  by (simp add: drain_rest_def Let_def shut_down_def begin_loop_def set_state_def split: option.split)

lemma torn_after_stop: "sv_stopped s \<Longrightarrow> sv_state (loop_torn i s) = sv_state s"
  by (simp add: loop_torn_def loop_head_def end_loop_def split: option.split)

text \<open>With resubmission, a call that is made on a fresh client before the calls of the old one are sent again, as a listener of the
  state \<^verbatim>\<open>ready\<close> may, is itself sent again: the tool runs twice on the same server.\<close>

lemma fresh_call_runs_twice:
  assumes "sv_resubmit s" "0 < sv_after s" "\<not> sv_stopped s" "limit_allows t s"
    and "sv_state s = Sup_ready" "sv_client s = Some k" "breaker_ok (sv_circuit s)" "br_state (sv_circuit s) = Closed"
  shows "sv_issued (run sup_step s [Sup_call t n v, Resubmit_calls]) =
    sv_issued s @ [(sv_next_call s, k)] @ map (\<lambda>f. (fl_id f, k)) (sv_flights s) @ [(sv_next_call s, k)]"
proof -
  have allow: "cb_allow t (sv_circuit s) = (True, sv_circuit s)"
    using assms(7,8) by (simp add: cb_allow_def closed_stays)
  obtain s1 where s1: "aggregate_take t s = (None, s1)" and c: "sv_circuit s1 = sv_circuit s" "sv_state s1 = Sup_ready"
      "sv_client s1 = Some k" "sv_issued s1 = sv_issued s" "sv_flights s1 = sv_flights s" "sv_next_call s1 = sv_next_call s"
      "sv_resubmit s1" "sv_after s1 = sv_after s"
    using assms(1,2,4,5,6)
    by (cases "sv_bucket s"; cases "p_try_take t (the (sv_bucket s))") (auto simp: aggregate_take_def limit_allows_def)
  have "call_tool t n v s = register_call k n v s1"
    using assms(3) c allow by (simp add: call_tool_def s1 circuit_allow_def with_circuit_def c(1) [symmetric])
  then show ?thesis
    using assms(2) c by (simp add: resubmit_calls_def Let_def register_call_def)
qed

section \<open>The pace of the attempts\<close>

text \<open>The loops and their limit, which most steps leave alone.\<close>

definition pace :: "supervisor \<Rightarrow> restart_run list \<times> nat" where
  "pace s = (sv_loops s, sv_threshold s)"

definition paced :: "supervisor \<Rightarrow> bool" where
  "paced s = (case pace s of (xs, n) \<Rightarrow> 0 < n \<and> list_all (\<lambda>x. lp_attempt x < n) xs)"

lemma pace_boots: "boots s' = boots s \<Longrightarrow> pace s' = pace s"
  by (simp add: boots_def pace_def)

lemma paced_cong: "pace s' = pace s \<Longrightarrow> paced s' = paced s"
  by (simp add: paced_def)

lemma paced_pace: "paced s \<Longrightarrow> pace s' = pace s \<Longrightarrow> paced s'"
  using paced_cong by blast

lemma pace_circuit [simp]:
  "pace (snd (with_circuit f s)) = pace s" "pace (snd (circuit_allow t s)) = pace s" "pace (circuit_record t ok s) = pace s"
  "pace (snd (circuit_state t s)) = pace s"
  unfolding circuit_allow_def circuit_record_def circuit_state_def by (rule pace_boots, rule boots_circuit)+

lemma pace_allow: "circuit_allow t s = (b, s') \<Longrightarrow> pace s' = pace s"
  using pace_circuit(2) [of t s] by simp

lemma pace_state: "circuit_state t s = (b, s') \<Longrightarrow> pace s' = pace s"
  using pace_circuit(4) [of t s] by simp

lemma pace_small [simp]:
  "pace (set_state n s) = pace s" "pace (settle_call i r s) = pace s" "pace (refuse e s) = pace s" "pace (register_call k m v s) = pace s"
  "pace (shut_down c s) = pace s" "pace (schedule_ping s) = pace s" "pace (set_over d ov s) = pace s" "pace (begin_drain x s) = pace s"
  by (simp_all add: pace_def set_state_def settle_call_def refuse_def register_call_def shut_down_def schedule_ping_def set_over_def
      begin_drain_def Let_def split: option.split)

lemma pace_fields [simp]:
  "pace (s\<lparr>sv_tasks := a\<rparr>) = pace s" "pace (s\<lparr>sv_pings := b\<rparr>) = pace s" "pace (s\<lparr>sv_timer := c\<rparr>) = pace s"
  "pace (s\<lparr>sv_ping_failures := n\<rparr>) = pace s" "pace (s\<lparr>sv_give_ups := n\<rparr>) = pace s" "pace (s\<lparr>sv_client := k\<rparr>) = pace s"
  "pace (s\<lparr>sv_tools := ts\<rparr>) = pace s" "pace (s\<lparr>sv_started := f\<rparr>) = pace s" "pace (s\<lparr>sv_stopped := f\<rparr>) = pace s"
  by (simp_all add: pace_def)

lemma pace_drain [simp]: "pace (drain_over d s) = pace s" "pace (drain_settled d s) = pace s" "pace (cancel_drain s) = pace s"
  by (simp_all add: drain_over_def drain_settled_def cancel_drain_def split: option.split)

lemma pace_crashed [simp]: "pace (refuse_crashed t w s) = pace s"
  by (auto simp: refuse_crashed_def split: prod.split dest: pace_state)

lemma pace_take: "aggregate_take t s = (e, s') \<Longrightarrow> pace s' = pace s"
  by (auto simp: aggregate_take_def pace_def split: option.splits prod.splits if_splits)

lemma pace_call [simp]: "pace (call_tool t n v s) = pace s"
proof -
  obtain e s1 where s1: "aggregate_take t s = (e, s1)" by (cases "aggregate_take t s")
  obtain ok s2 where s2: "circuit_allow t s1 = (ok, s2)" by (cases "circuit_allow t s1")
  have "pace s1 = pace s" "pace s2 = pace s" using pace_take [OF s1] pace_allow [OF s2] by simp_all
  then show ?thesis by (cases e) (simp_all add: call_tool_def s1 s2 split: option.split)
qed

lemma pace_answers [simp]: "pace (client_answers i r s) = pace s" "pace (again_answers i r s) = pace s"
  by (simp_all add: client_answers_def again_answers_def split: option.split)

lemma pace_trigger [simp]: "pace (trigger_restart t r s) = pace s"
  by (auto simp: trigger_restart_def split: prod.split dest: pace_allow)

lemma pace_task [simp]: "pace (run_task t s) = pace s"
  by (auto simp: run_task_def Let_def split: list.split sup_task.split prod.split dest: pace_allow)

lemma pace_ping [simp]: "pace (ping_due s) = pace s" "pace (ping_result t ok s) = pace s"
  by (simp_all add: ping_due_def ping_result_def Let_def split: list.split)

lemma pace_rest [simp]: "pace (client_exits k r s) = pace s" "pace (resubmit_calls s) = pace s" "pace (stop_supervisor t s) = pace s"
proof -
  show "pace (client_exits k r s) = pace s" by (simp add: client_exits_def split: option.split)
  show "pace (resubmit_calls s) = pace s" by (simp add: resubmit_calls_def Let_def pace_def split: option.split)
  have inner: "pace (fold (reject_stopped t) fs u) = pace u" for fs u by (rule pace_boots) (rule boots_stopping)
  show "pace (stop_supervisor t s) = pace s"
    unfolding stop_supervisor_def Let_def by (simp only: inner pace_small pace_drain pace_fields simp_thms split: if_split)
qed

lemma paced_loop:
  "paced s \<Longrightarrow> paced (end_loop x s)" "paced s \<Longrightarrow> paced (begin_loop r a s)"
  "paced s \<Longrightarrow> lp_attempt x < sv_threshold s \<Longrightarrow> paced (set_loop x s)"
  "paced s \<Longrightarrow> lp_attempt x < sv_threshold s \<Longrightarrow> paced (loop_head x s)"
  by (auto simp: paced_def pace_def end_loop_def begin_loop_def set_loop_def loop_head_def list_all_iff)

lemma paced_found: "paced s \<Longrightarrow> find_loop i s = Some x \<Longrightarrow> lp_attempt x < sv_threshold s"
  by (auto simp: paced_def pace_def find_loop_def list_all_iff find_Some_iff)

lemma paced_failed:
  assumes "paced s"
  shows "paced (boot_failed t x s)"
proof (cases "lp_attempt x + 1 < sv_threshold s")
  case True
  with assms show ?thesis by (simp add: boot_failed_def Let_def paced_loop)
next
  case False
  define s1 where "s1 = circuit_record t False (s\<lparr>sv_give_ups := sv_give_ups s + 1\<rparr>)"
  obtain ok s2 where s2: "circuit_allow t s1 = (ok, s2)" by (cases "circuit_allow t s1")
  have p: "pace s2 = pace s" using pace_allow [OF s2] by (simp add: s1_def)
  then have ok: "paced s2" "0 < sv_threshold s2" using assms paced_cong by (auto simp: paced_def pace_def)
  then have "paced (set_state Sup_circuit_open s2)" using paced_pace pace_small(1) by blast
  moreover have "boot_failed t x s =
      (if \<not> ok then end_loop (x\<lparr>lp_attempt := lp_attempt x + 1, lp_reason := R_init_failed\<rparr>) (set_state Sup_circuit_open s2)
       else loop_head (x\<lparr>lp_reason := R_init_failed, lp_attempt := 0\<rparr>) s2)"
    using False s2 by (simp add: boot_failed_def Let_def s1_def)
  ultimately show ?thesis using ok by (simp add: paced_loop)
qed

lemma paced_booted: "paced s \<Longrightarrow> paced (booted t i r s)"
proof -
  assume ok: "paced s"
  have "paced (boot_done t x k ts s)" for x k ts
  proof -
    have "pace (schedule_ping (set_state Sup_ready (circuit_record t True (s\<lparr>sv_client := Some k, sv_tools := ts, sv_give_ups := 0\<rparr>)))) = pace s"
      by simp
    with ok have "paced (schedule_ping (set_state Sup_ready (circuit_record t True (s\<lparr>sv_client := Some k, sv_tools := ts, sv_give_ups := 0\<rparr>))))"
      by (rule paced_pace)
    then show ?thesis by (simp add: boot_done_def Let_def paced_loop)
  qed
  moreover have "paced (boot_failed t x (shut_down k s))" for x k
    using ok paced_pace pace_small(5) paced_failed by blast
  ultimately show ?thesis using ok paced_failed
    by (simp add: booted_def split: option.split loop_phase.split sum.split)
qed

lemma paced_slept: "paced s \<Longrightarrow> paced (loop_slept i s)"
proof (cases "find_loop i s")
  case (Some x)
  assume ok: "paced s"
  let ?s = "s\<lparr>sv_restarts := sv_restarts s @ [lp_reason x], sv_next_client := sv_next_client s + 1, sv_live := sv_live s @ [sv_next_client s],
      sv_boots := sv_boots s @ [(sv_next_client s, sv_generation s)]\<rparr>"
  have "lp_attempt x < sv_threshold s" using ok Some by (rule paced_found)
  moreover have "paced ?s" using ok by (simp add: paced_def pace_def)
  ultimately have "paced (set_loop (x\<lparr>lp_phase := Booting (sv_next_client s) (sv_generation s)\<rparr>) ?s)"
    by (intro paced_loop) simp_all
  then show ?thesis using ok Some by (simp add: loop_slept_def Let_def paced_loop)
qed (simp add: loop_slept_def)

lemma paced_drained: "paced s \<Longrightarrow> paced (continue_drain d s)"
proof -
  assume ok: "paced s"
  have "pace (fold reject_drained ov u) = pace u" for ov u
    by (induction ov arbitrary: u) (simp_all add: reject_drained_def split: option.split)
  moreover have "pace (s\<lparr>sv_drains := a, sv_generation := b, sv_client := c, sv_tools := e, sv_timer := f\<rparr>) = pace s" for a b c e f
    by (simp add: pace_def)
  ultimately have "paced (set_state Sup_reconnecting (fold reject_drained ov
      (s\<lparr>sv_drains := a, sv_generation := b, sv_client := c, sv_tools := e, sv_timer := f\<rparr>)))" for ov a b c e f
    using ok by (intro paced_pace [OF ok]) simp
  then have "paced (drain_rest x ov s)" for x ov
    unfolding drain_rest_def Let_def using paced_pace [OF _ pace_small(5)] paced_loop(2) by blast
  with ok show ?thesis by (simp add: continue_drain_def split: option.split)
qed

lemma paced_step: "paced s \<Longrightarrow> paced (sup_step s e)"
proof (cases e)
  case Sup_start
  assume ok: "paced s"
  then have "paced (set_state Sup_starting (s\<lparr>sv_started := True\<rparr>))" by (rule paced_pace) simp
  with ok show ?thesis by (simp add: Sup_start start_supervisor_def paced_loop)
next
  case (Loop_torn i)
  assume "paced s"
  then show ?thesis by (auto simp: Loop_torn loop_torn_def paced_loop paced_found split: option.split)
qed (auto simp: paced_booted paced_slept paced_drained intro: paced_pace)

interpretation sup_pace: step_invariant sup_step paced
  by unfold_locales (rule paced_step)

text \<open>The delay of every attempt that is being waited for.\<close>

definition delays :: "supervisor \<Rightarrow> nat list" where
  "delays s = map (\<lambda>x. default_supervisor_backoff (lp_attempt x)) (filter (\<lambda>x. lp_phase x = Backing_off) (sv_loops s))"

lemma create_paced: "create_supervisor now opts = Inr s \<Longrightarrow> paced s"
  by (auto simp: create_supervisor_def paced_def pace_def split: sum.splits option.splits)

lemma backoff_mono: "m \<le> n \<Longrightarrow> default_supervisor_backoff m \<le> default_supervisor_backoff n"
proof -
  assume "m \<le> n"
  then have "(2::nat) ^ m \<le> 2 ^ n" by simp
  then have "1000 * 2 ^ m \<le> 1000 * (2::nat) ^ n" by simp
  then show ?thesis unfolding default_supervisor_backoff_def by linarith
qed

text \<open>No attempt waits longer than the delay of attempt number \<^verbatim>\<open>circuitThreshold - 1\<close>, since the count of a loop starts again when it
  gives up: with the default threshold of 5 that is 16 s, not the documented minute.\<close>

lemma respawn_delay_bounded:
  assumes "create_supervisor now opts = Inr s0" "s = run sup_step s0 events" "x \<in> set (delays s)"
  shows "x \<le> default_supervisor_backoff (sv_threshold s - 1)"
proof -
  have "paced s" using sup_pace.run_good [OF create_paced [OF assms(1)]] assms(2) by simp
  then have "lp_attempt y \<le> sv_threshold s - 1" if "y \<in> set (sv_loops s)" for y
    using that by (auto simp: paced_def pace_def list_all_iff)
  with assms(3) show ?thesis by (auto simp: delays_def backoff_mono)
qed

section \<open>Instances\<close>

definition plain_options :: sup_options where
  "plain_options = \<lparr>so_rate = None, so_drain_ms = None, so_resubmit = True, so_ping_threshold = None, so_threshold = Some 2, so_reset_ms = None\<rparr>"

definition plain_supervisor :: supervisor where
  "plain_supervisor = (case create_supervisor 0 plain_options of Inr s \<Rightarrow> s)"

lemma plain_made: "create_supervisor 0 plain_options = Inr plain_supervisor" "sv_threshold plain_supervisor = 2"
  by (simp_all add: plain_supervisor_def create_supervisor_def plain_options_def opt_or_def)

definition first_sleep :: supervisor where
  "first_sleep = run sup_step plain_supervisor [Sup_start, Loop_torn 0]"

definition plain_booting :: supervisor where
  "plain_booting = run sup_step first_sleep [Loop_slept 0]"

lemmas plain_simps = plain_supervisor_def create_supervisor_def plain_options_def first_sleep_def plain_booting_def start_supervisor_def
  begin_loop_def set_state_def loop_torn_def loop_slept_def find_loop_def loop_head_def set_loop_def on_transition_def create_breaker_def
  opt_or_def

lemma plain_retrying: "retrying 0 0 first_sleep"
  by (simp add: retrying_def plain_simps breaker_ok_def Let_def)

theorem tool_calls_settled_once_witness:
  "\<exists>s. s = run sup_step plain_supervisor [Sup_start, Sup_stop 0] \<and>
     mset (map fst (sv_settled s) @ map fl_id (sv_flights s)) = mset [1..<sv_next_call s]"
  using tool_calls_settled_once [OF plain_made(1) refl] by blast


lemma stop_during_boot_leaks_instance:
  "\<exists>s'. s' = run sup_step plain_booting [Sup_stop 0, Booted 0 0 (Inr [])] \<and> sv_state s' = Sup_ready \<and> sv_stopped s'"
proof -
  obtain x where "find_loop 0 plain_booting = Some x" "lp_phase x = Booting 0 (sv_generation plain_booting)" "\<not> sv_stopped plain_booting"
      "0 \<in> set (sv_live plain_booting)" "sv_client plain_booting \<noteq> Some 0" "sv_cancel plain_booting = None"
    by (simp add: plain_simps Let_def)
  from stop_during_boot_leaks [OF this refl, of 0 0 "[]"] show ?thesis by blast
qed

lemma first_failure_boots_twice_instance:
  "\<exists>s'. s' = run sup_step plain_supervisor [Sup_start, Loop_torn 0, Loop_slept 0, Client_exits 0 Exit_init_failed,
                Booted 0 0 (Inl (Unavailable Client_failed)), Run_task 0, Continue_drain 1, Loop_torn 2, Loop_slept 0, Loop_slept 2,
                Booted 0 2 (Inr []), Booted 0 0 (Inr [])] \<and>
        sv_live (sup_step s' (Sup_stop 0)) = [0, 2]"
  using first_failure_boots_twice [OF plain_made(1) _ refl, of 0 "Unavailable Client_failed" "[]" "[]"] plain_made(2) by simp

definition fresh_supervisor :: supervisor where
  "fresh_supervisor = plain_supervisor\<lparr>sv_state := Sup_ready, sv_client := Some 1, sv_after := 1\<rparr>"

lemma fresh_call_runs_twice_instance:
  "sv_issued (run sup_step fresh_supervisor [Sup_call 0 ''pay'' JNull, Resubmit_calls]) = [(1, 1), (1, 1)]"
proof -
  have f: "sv_resubmit fresh_supervisor" "0 < sv_after fresh_supervisor" "\<not> sv_stopped fresh_supervisor" "limit_allows 0 fresh_supervisor"
    "sv_state fresh_supervisor = Sup_ready" "sv_client fresh_supervisor = Some 1" "breaker_ok (sv_circuit fresh_supervisor)"
    "br_state (sv_circuit fresh_supervisor) = Closed"
    by (simp_all add: fresh_supervisor_def plain_simps breaker_ok_def limit_allows_def)
  show ?thesis using fresh_call_runs_twice [OF f, of "''pay''" JNull]
    by (simp add: fresh_supervisor_def plain_simps)
qed

lemma respawn_delay_bounded_instance:
  "1000 \<in> set (delays first_sleep) \<and> (1000::nat) \<le> default_supervisor_backoff (sv_threshold first_sleep - 1)"
proof -
  have d: "1000 \<in> set (delays first_sleep)" by (simp add: delays_def plain_simps default_supervisor_backoff_def)
  with respawn_delay_bounded [OF plain_made(1) first_sleep_def d] show ?thesis by simp
qed

end
