(* ===== verification/Renderer.thy ===== *)
theory Renderer imports Framing "HOL-Library.Sublist" begin

text \<open>
  Outgoing text of the channels, \<^verbatim>\<open>core/src/channels/renderer\<close>: splitting long messages (\<^verbatim>\<open>splitter.ts\<close>), escaping for Telegram
  (\<^verbatim>\<open>escape-markdown-v2.ts\<close>), and degrading rich blocks a channel cannot show (\<^verbatim>\<open>fallback.ts\<close>, \<^verbatim>\<open>capabilities-degrade.ts\<close>).
  Lengths and limits are whole numbers. The bullet, the dash and the ellipsis, one code unit each, are spelled by their
  Windows-1252 codes.

  Shown: the splitter loses nothing, keeps code blocks whole and respects the limit unless a code block alone exceeds it;
  escaped text is read back; degrading keeps every block.
\<close>

section \<open>Searching\<close>

text \<open>The text before the first occurrence of \<open>d\<close>, and the text after it.\<close>

fun split_sub :: "string \<Rightarrow> string \<Rightarrow> (string \<times> string) option" where
  "split_sub d [] = (if d = [] then Some ([], []) else None)"
| "split_sub d (c # s) =
     (if is_prefix_of d (c # s) then Some ([], drop (length d) (c # s))
      else map_option (\<lambda>(l, r). (c # l, r)) (split_sub d s))"

lemma is_prefix_of_iff: "is_prefix_of d s \<longleftrightarrow> (\<exists>r. s = d @ r)"
  by (induction d s rule: is_prefix_of.induct) auto

lemma split_sub_append: "split_sub d s = Some (l, r) \<Longrightarrow> s = l @ d @ r"
proof (induction s arbitrary: l)
  case (Cons c s)
  then show ?case by (auto simp: is_prefix_of_iff split: if_splits)
qed (auto split: if_splits)

lemma split_sub_shorter: "d \<noteq> [] \<Longrightarrow> split_sub d s = Some (l, r) \<Longrightarrow> length r < length s"
  using split_sub_append [of d s l r] by simp

section \<open>Splitting long messages\<close>

abbreviation fence :: string where
  "fence \<equiv> [CHR 0x60, CHR 0x60, CHR 0x60]"

datatype text_segment = Text_seg (seg_text: string) | Fence_seg (seg_text: string)

function (sequential) segment_fences :: "string \<Rightarrow> text_segment list" where
  "segment_fences msg =
     (if msg = [] then []
      else case split_sub fence msg of
          None \<Rightarrow> [Text_seg msg]
        | Some (pre, rest) \<Rightarrow>
            (if pre \<noteq> [] then [Text_seg pre] else []) @
            (case split_sub fence rest of
               None \<Rightarrow> [Text_seg (fence @ rest)]
             | Some (inner, after) \<Rightarrow> Fence_seg (fence @ inner @ fence) # segment_fences after))"
  by pat_completeness auto
termination
  by (relation "measure length") (auto dest!: split_sub_append)

declare segment_fences.simps [simp del]

function (sequential) split_keeping :: "string \<Rightarrow> string \<Rightarrow> string list" where
  "split_keeping d msg =
     (if msg = [] \<or> d = [] then []
      else case split_sub d msg of
          None \<Rightarrow> [msg]
        | Some (pre, rest) \<Rightarrow> (pre @ d) # split_keeping d rest)"
  by pat_completeness auto
termination
  by (relation "measure (\<lambda>(d, s). length s)") (auto dest: split_sub_shorter)

declare split_keeping.simps [simp del]

function (sequential) hard_cut :: "nat \<Rightarrow> string \<Rightarrow> string list" where
  "hard_cut b w = (if w = [] \<or> b = 0 then [] else take b w # hard_cut b (drop b w))"
  by pat_completeness auto
termination
  by (relation "measure (\<lambda>(b, w). length w)") auto

declare hard_cut.simps [simp del]

text \<open>A unit: a text, and whether it is a chunk of its own.\<close>

type_synonym split_unit = "string \<times> bool"

definition word_units :: "nat \<Rightarrow> string \<Rightarrow> split_unit list" where
  "word_units b w = (if length w \<le> b then [(w, False)] else map (\<lambda>x. (x, False)) (hard_cut b w))"

definition line_units :: "nat \<Rightarrow> string \<Rightarrow> split_unit list" where
  "line_units b l = (if length l \<le> b then [(l, False)] else concat (map (word_units b) (split_keeping '' '' l)))"

definition para_units :: "nat \<Rightarrow> string \<Rightarrow> split_unit list" where
  "para_units b p = (if length p \<le> b then [(p, False)] else concat (map (line_units b) (split_keeping [CHR 0x0A] p)))"

definition segment_units :: "nat \<Rightarrow> text_segment \<Rightarrow> split_unit list" where
  "segment_units b s =
     (case s of
        Fence_seg t \<Rightarrow> [(t, b < length t)]
      | Text_seg t \<Rightarrow> concat (map (para_units b) (split_keeping [CHR 0x0A, CHR 0x0A] t)))"

definition flush :: "string list \<times> string \<Rightarrow> string list \<times> string" where
  "flush st = (case st of (chunks, buf) \<Rightarrow> (if buf \<noteq> [] then chunks @ [buf] else chunks, []))"

definition pack_unit :: "nat \<Rightarrow> split_unit \<Rightarrow> string list \<times> string \<Rightarrow> string list \<times> string" where
  "pack_unit b u st =
     (case u of (t, oversized) \<Rightarrow>
        if oversized then (case flush st of (chunks, buf) \<Rightarrow> (chunks @ [t], buf))
        else (case (if snd st \<noteq> [] \<and> b < length (snd st) + length t then flush st else st) of
                (chunks, buf) \<Rightarrow> (chunks, buf @ t)))"

definition pack :: "nat \<Rightarrow> split_unit list \<Rightarrow> string list" where
  "pack b us = fst (flush (fold (pack_unit b) us ([], [])))"

text \<open>A natural number in decimal, as a template string spells it.\<close>

fun decimal :: "nat \<Rightarrow> string" where
  "decimal n = (if n < 10 then [char_of (48 + n)] else decimal (n div 10) @ [char_of (48 + n mod 10)])"

declare decimal.simps [simp del]

definition numbered :: "string list \<Rightarrow> string list" where
  "numbered cs =
     (if length cs = 1 then cs
      else map (\<lambda>(i, c). c @ '' ('' @ decimal (i + 1) @ ''/'' @ decimal (length cs) @ '')'') (enumerate 0 cs))"

definition split_budget :: "int \<Rightarrow> int option \<Rightarrow> nat" where
  "split_budget max_len reserve = nat (max 1 (max_len - (case reserve of None \<Rightarrow> 12 | Some r \<Rightarrow> r)))"

definition split_chunks :: "nat \<Rightarrow> string \<Rightarrow> string list" where
  "split_chunks b msg = pack b (concat (map (segment_units b) (segment_fences msg)))"

definition split_long_text :: "string \<Rightarrow> int \<Rightarrow> int option \<Rightarrow> int + string list" where
  "split_long_text msg max_len reserve =
     (if max_len \<le> 0 then Inl max_len
      else if int (length msg) \<le> max_len then Inr [msg]
      else Inr (numbered (split_chunks (split_budget max_len reserve) msg)))"

section \<open>Nothing is lost\<close>

lemma concat_segments: "concat (map seg_text (segment_fences msg)) = msg"
proof (induction msg rule: segment_fences.induct)
  case (1 msg)
  show ?case
  proof (cases "msg = []")
    case True
    then show ?thesis by (simp add: segment_fences.simps)
  next
    case False
    show ?thesis
    proof (cases "split_sub fence msg")
      case None
      with False show ?thesis by (simp add: segment_fences.simps [of msg])
    next
      case (Some e)
      obtain pre rest where e: "e = (pre, rest)" by (cases e)
      have msg: "msg = pre @ fence @ rest" using split_sub_append Some e by blast
      show ?thesis
      proof (cases "split_sub fence rest")
        case None
        with False Some e have "segment_fences msg = (if pre \<noteq> [] then [Text_seg pre] else []) @ [Text_seg (fence @ rest)]"
          by (simp add: segment_fences.simps [of msg])
        with msg show ?thesis by simp
      next
        case (Some e')
        obtain inner after where e': "e' = (inner, after)" by (cases e')
        have "rest = inner @ fence @ after" using split_sub_append Some e' by blast
        moreover have "concat (map seg_text (segment_fences after)) = after"
          using 1 [OF False \<open>split_sub fence msg = Some e\<close> e [symmetric] Some e' [symmetric]] .
        moreover have "segment_fences msg = (if pre \<noteq> [] then [Text_seg pre] else []) @ Fence_seg (fence @ inner @ fence) # segment_fences after"
          using False \<open>split_sub fence msg = Some e\<close> e Some e' by (simp add: segment_fences.simps [of msg])
        ultimately show ?thesis using msg by simp
      qed
    qed
  qed
qed

lemma fence_seg_form: "Fence_seg t \<in> set (segment_fences msg) \<Longrightarrow> \<exists>inner. t = fence @ inner @ fence"
proof (induction msg rule: segment_fences.induct)
  case (1 msg)
  show ?case
    using 1(2) 1(1)
    by (auto simp: segment_fences.simps [of "[]"] segment_fences.simps [of msg] split: if_splits option.splits)
qed

lemma concat_split_keeping: "d \<noteq> [] \<Longrightarrow> concat (split_keeping d msg) = msg"
proof (induction d msg rule: split_keeping.induct)
  case (1 d msg)
  then show ?case
    by (auto simp: split_keeping.simps [of d "[]"] split_keeping.simps [of d msg] dest: split_sub_append split: option.splits)
qed

lemma concat_hard_cut: "0 < b \<Longrightarrow> concat (hard_cut b w) = w"
  by (induction b w rule: hard_cut.induct) (subst hard_cut.simps, auto)

abbreviation unit_texts :: "split_unit list \<Rightarrow> string" where
  "unit_texts us \<equiv> concat (map fst us)"

lemma unit_texts_concat: "(\<And>x. unit_texts (f x) = x) \<Longrightarrow> unit_texts (concat (map f xs)) = concat xs"
  by (induction xs) simp_all

lemma texts_word: "0 < b \<Longrightarrow> unit_texts (word_units b w) = w"
  by (simp add: word_units_def comp_def concat_hard_cut)

lemma texts_line: "0 < b \<Longrightarrow> unit_texts (line_units b l) = l"
  by (simp add: line_units_def unit_texts_concat texts_word concat_split_keeping)

lemma texts_para: "0 < b \<Longrightarrow> unit_texts (para_units b p) = p"
  by (simp add: para_units_def unit_texts_concat texts_line concat_split_keeping)

lemma texts_segment: "0 < b \<Longrightarrow> unit_texts (segment_units b s) = seg_text s"
  by (cases s) (simp_all add: segment_units_def unit_texts_concat texts_para concat_split_keeping)

lemma texts_segments: "0 < b \<Longrightarrow> unit_texts (concat (map (segment_units b) ss)) = concat (map seg_text ss)"
  by (induction ss) (simp_all add: texts_segment)

lemma concat_flush: "concat (fst (flush st)) = concat (fst st) @ snd st" "snd (flush st) = []"
  by (simp_all add: flush_def split: prod.split)

lemma concat_pack_unit: "concat (fst (pack_unit b u st)) @ snd (pack_unit b u st) = concat (fst st) @ snd st @ fst u"
  using concat_flush [of st] by (auto simp: pack_unit_def split: prod.splits)

lemma concat_pack_units: "concat (fst (fold (pack_unit b) us st)) @ snd (fold (pack_unit b) us st) = concat (fst st) @ snd st @ unit_texts us"
proof (induction us arbitrary: st)
  case (Cons u us)
  show ?case using Cons.IH [of "pack_unit b u st"] concat_pack_unit [of b u st] by simp
qed simp

lemma concat_chunks: "0 < b \<Longrightarrow> concat (split_chunks b msg) = msg"
  using concat_pack_units [of b "concat (map (segment_units b) (segment_fences msg))" "([], [])"]
  by (simp add: split_chunks_def pack_def concat_flush texts_segments concat_segments)

section \<open>Chunks are short\<close>

lemma hard_cut_short: "x \<in> set (hard_cut b w) \<Longrightarrow> length x \<le> b"
proof (induction b w rule: hard_cut.induct)
  case (1 b w)
  then show ?case by (auto simp: hard_cut.simps [of b w] split: if_splits)
qed

definition fits :: "nat \<Rightarrow> split_unit \<Rightarrow> bool" where
  "fits b u \<longleftrightarrow> \<not> snd u \<and> length (fst u) \<le> b"

lemma fits_concat: "(\<And>x. list_all (fits b) (f x)) \<Longrightarrow> list_all (fits b) (concat (map f xs))"
  by (induction xs) simp_all

lemma fits_word: "list_all (fits b) (word_units b w)"
  by (auto simp: word_units_def fits_def list_all_iff hard_cut_short)

lemma fits_line: "list_all (fits b) (line_units b l)"
  by (simp add: line_units_def fits_concat fits_word) (simp add: fits_def)

lemma fits_para: "list_all (fits b) (para_units b p)"
  by (simp add: para_units_def fits_concat fits_line) (simp add: fits_def)

lemma fits_segment: "u \<in> set (segment_units b s) \<Longrightarrow> fits b u \<or> (\<exists>t. s = Fence_seg t \<and> u = (t, True) \<and> b < length t)"
  using fits_concat [of b "para_units b" "split_keeping [CHR 0x0A, CHR 0x0A] (seg_text s)", OF fits_para]
  by (cases s) (auto simp: segment_units_def fits_def list_all_iff)

text \<open>What packing keeps: chunks are short unless they are an oversized unit, the buffer is short, and the units seen so far are
  whole in a chunk or in the buffer.\<close>

definition packed :: "nat \<Rightarrow> split_unit list \<Rightarrow> string list \<times> string \<Rightarrow> bool" where
  "packed b us st \<longleftrightarrow>
     length (snd st) \<le> b \<and> (\<forall>c \<in> set (fst st). length c \<le> b \<or> (c, True) \<in> set us) \<and>
     (\<forall>u \<in> set us. \<exists>c \<in> set (fst st @ [snd st]). sublist (fst u) c)"

lemma packed_flush: "packed b us st \<Longrightarrow> packed b us (flush st)"
  by (auto simp: packed_def flush_def split: prod.splits)

lemma packed_unit:
  assumes "packed b us st" "fits b u \<or> snd u"
  shows "packed b (us @ [u]) (pack_unit b u st)"
proof -
  obtain t big where u: "u = (t, big)" by (cases u)
  obtain cs buf where f: "flush st = (cs, buf)" by fastforce
  have buf: "buf = []" using concat_flush(2) [of st] f by simp
  have fl: "packed b us (cs, [])" using packed_flush [OF assms(1)] f buf by simp
  show ?thesis
  proof (cases big)
    case True
    then show ?thesis using fl u f buf by (auto simp: pack_unit_def packed_def)
  next
    case False
    then have len: "length t \<le> b" using assms(2) u by (simp add: fits_def)
    show ?thesis
    proof (cases "snd st \<noteq> [] \<and> b < length (snd st) + length t")
      case True
      then show ?thesis using fl u f buf False len by (auto simp: pack_unit_def packed_def)
    next
      case small: False
      obtain cs0 buf0 where st: "st = (cs0, buf0)" by (cases st)
      have "length (buf0 @ t) \<le> b" using small len st by auto
      moreover have "sublist x (buf0 @ t)" if "sublist x buf0" for x using that by (metis prefix_imp_sublist prefix_order.order_refl prefixI sublist_order.order_trans)
      ultimately show ?thesis
        using assms(1) u small st False by (auto simp: pack_unit_def packed_def)
    qed
  qed
qed

lemma packed_units: "packed b us st \<Longrightarrow> \<forall>u \<in> set vs. fits b u \<or> snd u \<Longrightarrow> packed b (us @ vs) (fold (pack_unit b) vs st)"
proof (induction vs arbitrary: us st)
  case (Cons v vs)
  then show ?case using Cons.IH [of "us @ [v]" "pack_unit b v st"] packed_unit [of b us st v] by simp
qed simp

lemma packed_pack:
  assumes "\<forall>u \<in> set us. fits b u \<or> snd u"
  shows "\<forall>c \<in> set (pack b us). length c \<le> b \<or> (c, True) \<in> set us"
    and "\<forall>u \<in> set us. fst u \<noteq> [] \<longrightarrow> (\<exists>c \<in> set (pack b us). sublist (fst u) c)"
proof -
  have "packed b [] ([], [])" by (simp add: packed_def)
  from packed_flush [OF packed_units [OF this assms]]
  have "packed b us (pack b us, [])" by (simp add: pack_def) (metis concat_flush(2) prod.collapse)
  then show "\<forall>c \<in> set (pack b us). length c \<le> b \<or> (c, True) \<in> set us"
    "\<forall>u \<in> set us. fst u \<noteq> [] \<longrightarrow> (\<exists>c \<in> set (pack b us). sublist (fst u) c)"
    by (auto simp: packed_def)
qed

lemma length_decimal: "n < 10 ^ k \<Longrightarrow> 0 < k \<Longrightarrow> length (decimal n) \<le> k"
proof (induction n arbitrary: k rule: decimal.induct)
  case (1 n)
  show ?case
  proof (cases "n < 10")
    case True
    with 1(3) show ?thesis by (simp add: decimal.simps [of n])
  next
    case False
    obtain j where k: "k = Suc j" using 1(3) by (cases k) simp_all
    have "n div 10 < 10 ^ j" using 1(2) by (simp add: k less_mult_imp_div_less mult.commute)
    moreover have "0 < j"
    proof (rule ccontr)
      assume "\<not> 0 < j"
      with 1(2) False show False by (simp add: k)
    qed
    ultimately have "length (decimal (n div 10)) \<le> j" using 1(1) [OF False] by blast
    with False show ?thesis by (simp add: decimal.simps [of n] k)
  qed
qed

lemma chunk_units_ok: "\<forall>u \<in> set (concat (map (segment_units b) ss)). fits b u \<or> snd u"
  using fits_segment by fastforce

lemma numbered_length:
  assumes "length cs < 10000" "\<forall>c \<in> set cs. length c \<le> b"
  shows "\<forall>c \<in> set (numbered cs). length c \<le> b + 12"
proof (cases "length cs = 1")
  case True
  with assms(2) show ?thesis by (auto simp: numbered_def)
next
  case False
  have "length (decimal n) \<le> 4" if "n < 10000" for n using length_decimal [of n 4] that by simp
  then have "length c + length (decimal (i + 1)) + length (decimal (length cs)) + 4 \<le> b + 12" if "(i, c) \<in> set (enumerate 0 cs)" for i c
  proof -
    have "i < length cs" "c \<in> set cs" using that by (auto simp: in_set_enumerate_eq)
    then have "length c \<le> b" "length (decimal (i + 1)) \<le> 4" "length (decimal (length cs)) \<le> 4"
      using assms \<open>\<And>n. n < 10000 \<Longrightarrow> length (decimal n) \<le> 4\<close> by auto
    then show ?thesis by linarith
  qed
  with False show ?thesis by (fastforce simp: numbered_def)
qed

lemma numbered_extends: "c \<in> set cs \<Longrightarrow> \<exists>x. c @ x \<in> set (numbered cs)"
proof (cases "length cs = 1")
  case True
  moreover assume "c \<in> set cs"
  ultimately show ?thesis by (intro exI [of _ "[]"]) (simp add: numbered_def)
next
  case False
  assume "c \<in> set cs"
  then obtain i where "i < length cs" "cs ! i = c" by (auto simp: in_set_conv_nth)
  then have "(i, c) \<in> set (enumerate 0 cs)" by (simp add: in_set_enumerate_eq)
  from imageI [OF this, of "\<lambda>(i, c). c @ '' ('' @ decimal (i + 1) @ ''/'' @ decimal (length cs) @ '')''"] False
  show ?thesis by (intro exI [of _ "'' ('' @ decimal (i + 1) @ ''/'' @ decimal (length cs) @ '')''"]) (simp add: numbered_def)
qed

section \<open>Properties of the splitter\<close>

text \<open>C28. The splitter loses no character: the pieces it sends, without their numbers, make up the text, and it answers for every
  positive limit.\<close>

theorem split_is_lossless:
  "if 0 < max_len then \<exists>cs. concat cs = msg \<and> split_long_text msg max_len reserve = Inr (numbered cs)
   else split_long_text msg max_len reserve = Inl max_len"
proof -
  have "0 < split_budget max_len reserve" by (simp add: split_budget_def)
  from concat_chunks [OF this, of msg] show ?thesis
    by (auto simp: split_long_text_def intro: exI [of _ "[msg]"] simp: numbered_def [of "[msg]"])
qed

text \<open>With the default reserve and fewer than ten thousand pieces, no message is longer than the limit, unless a code block
  alone is longer than what the reserve leaves of the limit.\<close>

lemma split_within_limit:
  assumes "12 < max_len" "split_long_text msg max_len None = Inr out" "length out < 10000"
    and "\<forall>t. Fence_seg t \<in> set (segment_fences msg) \<longrightarrow> int (length t) \<le> max_len - 12"
  shows "\<forall>c \<in> set out. int (length c) \<le> max_len"
proof (cases "int (length msg) \<le> max_len")
  case True
  with assms(1,2) show ?thesis by (auto simp: split_long_text_def)
next
  case False
  define b where "b = split_budget max_len None"
  have b: "int b + 12 = max_len" using assms(1) by (simp add: b_def split_budget_def)
  define us where "us = concat (map (segment_units b) (segment_fences msg))"
  have out: "out = numbered (pack b us)"
    using False assms(1,2) by (simp add: split_long_text_def split_chunks_def b_def us_def)
  have "(c, True) \<notin> set us" for c
  proof
    assume "(c, True) \<in> set us"
    then obtain s where s: "s \<in> set (segment_fences msg)" "(c, True) \<in> set (segment_units b s)" by (auto simp: us_def)
    then obtain t where "s = Fence_seg t" "b < length t" using fits_segment [OF s(2)] by (auto simp: fits_def)
    with s(1) assms(4) b show False by fastforce
  qed
  then have "\<forall>c \<in> set (pack b us). length c \<le> b" using packed_pack(1) [OF chunk_units_ok, of b "segment_fences msg", folded us_def] by blast
  moreover have "length (pack b us) < 10000" using assms(3) out by (simp add: numbered_def split: if_splits)
  ultimately have "\<forall>c \<in> set out. length c \<le> b + 12" unfolding out by (rule numbered_length [rotated])
  with b show ?thesis by fastforce
qed

text \<open>A code block is never cut: it stands whole in one of the messages.\<close>

lemma code_block_stays_whole:
  assumes "Fence_seg t \<in> set (segment_fences msg)" "split_long_text msg max_len reserve = Inr out"
  shows "\<exists>c \<in> set out. sublist t c"
proof -
  define us where "us = concat (map (segment_units (split_budget max_len reserve)) (segment_fences msg))"
  have t: "t \<noteq> []" using fence_seg_form [OF assms(1)] by auto
  have sub: "sublist t msg"
  proof -
    obtain xs ys where "segment_fences msg = xs @ Fence_seg t # ys" using split_list [OF assms(1)] by blast
    then have "msg = concat (map seg_text xs) @ t @ concat (map seg_text ys)" using concat_segments [of msg] by simp
    then show ?thesis by (metis sublist_appendI)
  qed
  have "(t, split_budget max_len reserve < length t) \<in> set us" using assms(1) by (force simp: us_def segment_units_def)
  then obtain c where c: "c \<in> set (pack (split_budget max_len reserve) us)" "sublist t c"
    using packed_pack(2) [OF chunk_units_ok] t unfolding us_def by fastforce
  have wrap: "\<exists>d \<in> set (numbered cs). sublist t d" if mem: "c \<in> set cs" for cs
  proof -
    obtain x where "c @ x \<in> set (numbered cs)" using numbered_extends [OF mem] by blast
    moreover have "sublist t (c @ x)" using c(2) by (metis sublist_appendI sublist_order.order_trans append_Nil)
    ultimately show ?thesis by blast
  qed
  show ?thesis
    using assms(2) sub wrap [of "split_chunks (split_budget max_len reserve) msg"] c(1)
    by (auto simp: split_long_text_def split_chunks_def us_def split: if_splits)
qed

text \<open>A code block that is longer than the limit goes out as one message over the limit.\<close>

lemma long_code_block_exceeds_limit:
  assumes "split_sub fence (inner @ fence) = Some (inner, [])" "0 < max_len" "max_len < int (length inner) + 6"
    and "split_budget max_len reserve < length inner + 6"
  shows "split_long_text (fence @ inner @ fence) max_len reserve = Inr [fence @ inner @ fence]"
proof -
  let ?t = "fence @ inner @ fence"
  have "segment_fences ?t = [Fence_seg ?t]"
    using assms(1) by (subst segment_fences.simps) (simp add: segment_fences.simps [of "[]"])
  then show ?thesis
    using assms(2-4)
    by (simp add: split_long_text_def split_chunks_def segment_units_def pack_def pack_unit_def flush_def numbered_def)
qed

section \<open>Escaping for Telegram\<close>

definition outside_escapes :: string where
  "outside_escapes = ''_*[]()~`>#+-=|{}.!''"

definition escape_outside :: "string \<Rightarrow> string" where
  "escape_outside s = concat (map (\<lambda>c. if c \<in> set outside_escapes \<or> c = CHR 0x5C then [CHR 0x5C, c] else [c]) s)"

definition escape_inside_code :: "string \<Rightarrow> string" where
  "escape_inside_code s = concat (map (\<lambda>c. if c = CHR 0x5C \<or> c = CHR 0x60 then [CHR 0x5C, c] else [c]) s)"

abbreviation tick :: char where
  "tick \<equiv> CHR 0x60"

function (sequential) escape_markdown :: "string \<Rightarrow> string" where
  "escape_markdown [] = []"
| "escape_markdown (c # s) =
     (if is_prefix_of fence (c # s) then
        (case split_sub fence (drop 3 (c # s)) of
           None \<Rightarrow> escape_outside (c # s)
         | Some (inner, rest) \<Rightarrow> fence @ escape_inside_code inner @ fence @ escape_markdown rest)
      else if c = tick then
        (case split_sub [tick] s of
           None \<Rightarrow> escape_outside (c # s)
         | Some (inner, rest) \<Rightarrow> [tick] @ escape_inside_code inner @ [tick] @ escape_markdown rest)
      else escape_outside (takeWhile (\<lambda>x. x \<noteq> tick) (c # s)) @ escape_markdown (dropWhile (\<lambda>x. x \<noteq> tick) (c # s)))"
  by pat_completeness auto
termination
  by (relation "measure length") (auto dest!: split_sub_append simp: less_Suc_eq_le length_dropWhile_le is_prefix_of_iff)

declare escape_markdown.simps(2) [simp del]

text \<open>What a text means: plain characters, inline code, code blocks. An opening without an end is plain text.\<close>

datatype md_item = Plain char | Inline string | Block string

function (sequential) meaning :: "string \<Rightarrow> md_item list" where
  "meaning [] = []"
| "meaning (c # s) =
     (if is_prefix_of fence (c # s) then
        (case split_sub fence (drop 3 (c # s)) of
           None \<Rightarrow> map Plain (c # s)
         | Some (inner, rest) \<Rightarrow> Block inner # meaning rest)
      else if c = tick then
        (case split_sub [tick] s of
           None \<Rightarrow> map Plain (c # s)
         | Some (inner, rest) \<Rightarrow> Inline inner # meaning rest)
      else Plain c # meaning s)"
  by pat_completeness auto
termination
  by (relation "measure length") (auto dest!: split_sub_append simp: is_prefix_of_iff)

declare meaning.simps(2) [simp del]

text \<open>How MarkdownV2 reads a body: a backslash makes the next character plain, a special character without one is an error, code runs to
  the next unescaped delimiter.\<close>

fun read_code :: "string \<Rightarrow> string \<Rightarrow> (string \<times> string) option" where
  "read_code d [] = None"
| "read_code d [c] = (if is_prefix_of d [c] then Some ([], []) else None)"
| "read_code d (c # e # s) =
     (if is_prefix_of d (c # e # s) then Some ([], drop (length d) (c # e # s))
      else if c = CHR 0x5C then map_option (\<lambda>(l, r). (e # l, r)) (read_code d s)
      else map_option (\<lambda>(l, r). (c # l, r)) (read_code d (e # s)))"

lemma read_code_shorter: "read_code d s = Some (l, r) \<Longrightarrow> length r \<le> length s"
  by (induction d s arbitrary: l rule: read_code.induct) (auto split: if_splits)

function (sequential) read_markdown :: "string \<Rightarrow> md_item list option" where
  "read_markdown [] = Some []"
| "read_markdown (c # s) =
     (if is_prefix_of fence (c # s) then
        (case read_code fence (drop 3 (c # s)) of
           None \<Rightarrow> None
         | Some (inner, rest) \<Rightarrow> map_option ((#) (Block inner)) (read_markdown rest))
      else if c = tick then
        (case read_code [tick] s of
           None \<Rightarrow> None
         | Some (inner, rest) \<Rightarrow> map_option ((#) (Inline inner)) (read_markdown rest))
      else if c = CHR 0x5C then
        (case s of [] \<Rightarrow> None | e # r \<Rightarrow> map_option ((#) (Plain e)) (read_markdown r))
      else if c \<in> set outside_escapes then None
      else map_option ((#) (Plain c)) (read_markdown s))"
  by pat_completeness auto
termination
  by (relation "measure length") (auto dest!: read_code_shorter simp: is_prefix_of_iff)

declare read_markdown.simps(2) [simp del]

lemma read_escaped_code:
  assumes "d = fence \<or> d = [tick]"
  shows "read_code d (escape_inside_code inner @ d @ rest) = Some (inner, rest)"
proof (induction inner)
  case Nil
  then show ?case using assms by (cases rest) (auto simp: escape_inside_code_def)
next
  case (Cons c inner)
  obtain e t where t: "escape_inside_code inner @ d @ rest = e # t"
    using assms by (cases "escape_inside_code inner @ d @ rest") auto
  show ?case
  proof (cases "c = CHR 0x5C \<or> c = tick")
    case True
    then have "escape_inside_code (c # inner) @ d @ rest = CHR 0x5C # c # e # t" using t by (simp add: escape_inside_code_def)
    moreover have "\<not> is_prefix_of d (CHR 0x5C # s)" for s using assms by auto
    ultimately show ?thesis using Cons.IH t by simp
  next
    case False
    then have "escape_inside_code (c # inner) @ d @ rest = c # e # t" using t by (simp add: escape_inside_code_def)
    moreover have "\<not> is_prefix_of d (c # s)" for s using assms False by auto
    ultimately show ?thesis using Cons.IH t False by simp
  qed
qed

lemma read_escaped_plain: "read_markdown (escape_outside s @ t) = map_option ((@) (map Plain s)) (read_markdown t)"
proof (induction s)
  case Nil
  then show ?case by (simp add: escape_outside_def option.map_ident)
next
  case (Cons c s)
  show ?case
  proof (cases "c \<in> set outside_escapes \<or> c = CHR 0x5C")
    case True
    then have "escape_outside (c # s) @ t = CHR 0x5C # c # (escape_outside s @ t)" by (simp add: escape_outside_def)
    with Cons show ?thesis by (simp add: read_markdown.simps(2) option.map_comp comp_def)
  next
    case False
    then have e: "escape_outside (c # s) @ t = c # (escape_outside s @ t)" by (simp add: escape_outside_def)
    have "c \<noteq> tick" using False by (auto simp: outside_escapes_def)
    with False Cons show ?thesis unfolding e by (simp add: read_markdown.simps(2) option.map_comp comp_def)
  qed
qed

lemma meaning_plain: "tick \<notin> set s \<Longrightarrow> meaning (s @ t) = map Plain s @ meaning t"
  by (induction s) (auto simp: meaning.simps(2))

lemma escaped_starts_with_tick: "escape_markdown rest = tick # s \<Longrightarrow> \<exists>r. rest = tick # r"
proof (cases rest)
  case (Cons c r)
  assume "escape_markdown rest = tick # s"
  then show ?thesis using Cons
    by (cases "c = tick") (auto simp: escape_markdown.simps(2) escape_outside_def split: if_splits)
qed simp

lemma escaped_code_starts: "escape_inside_code inner = tick # s \<Longrightarrow> False"
  by (cases inner) (auto simp: escape_inside_code_def split: if_splits)

lemma inline_is_no_fence:
  assumes "\<not> is_prefix_of fence (tick # inner @ tick # rest)"
  shows "\<not> is_prefix_of fence (tick # escape_inside_code inner @ tick # escape_markdown rest)"
proof
  assume pre: "is_prefix_of fence (tick # escape_inside_code inner @ tick # escape_markdown rest)"
  show False
  proof (cases "escape_inside_code inner")
    case Nil
    then have inner: "inner = []" by (cases inner) (auto simp: escape_inside_code_def split: if_splits)
    obtain s where "escape_markdown rest = tick # s" using pre Nil by (cases "escape_markdown rest") auto
    with assms inner escaped_starts_with_tick show False by fastforce
  next
    case (Cons x xs)
    with pre escaped_code_starts show False by auto
  qed
qed

text \<open>C29. Whatever text is escaped for Telegram, the body is well formed and is read as the text was meant: the same plain characters,
  inline code and code blocks, in the same order.\<close>

theorem escaped_markdown_reads_back: "read_markdown (escape_markdown raw) = Some (meaning raw)"
proof (induction raw rule: escape_markdown.induct)
  case (2 c s)
  show ?case
  proof (cases "is_prefix_of fence (c # s)")
    case True
    then have c: "c = tick" by simp
    show ?thesis
    proof (cases "split_sub fence (drop 3 (c # s))")
      case None
      with True read_escaped_plain [of "c # s" "[]"] show ?thesis
        unfolding c by (simp add: escape_markdown.simps(2) meaning.simps(2))
    next
      case (Some e)
      obtain inner rest where e: "e = (inner, rest)" by (cases e)
      have "read_markdown (fence @ escape_inside_code inner @ fence @ escape_markdown rest) =
          map_option ((#) (Block inner)) (read_markdown (escape_markdown rest))"
        using read_escaped_code [of fence inner "escape_markdown rest"] by (simp add: read_markdown.simps(2))
      with True Some e 2(1) show ?thesis unfolding c by (simp add: escape_markdown.simps(2) meaning.simps(2))
    qed
  next
    case no: False
    show ?thesis
    proof (cases "c = tick")
      case True
      show ?thesis
      proof (cases "split_sub [tick] s")
        case None
        with True no read_escaped_plain [of "c # s" "[]"] show ?thesis
          by (simp add: escape_markdown.simps(2) meaning.simps(2))
      next
        case (Some e)
        obtain inner rest where e: "e = (inner, rest)" by (cases e)
        have "s = inner @ tick # rest" using split_sub_append [of "[tick]" s] Some e by simp
        then have "\<not> is_prefix_of fence (tick # escape_inside_code inner @ tick # escape_markdown rest)"
          using no True by (intro inline_is_no_fence) simp
        then have "read_markdown (tick # escape_inside_code inner @ tick # escape_markdown rest) =
            map_option ((#) (Inline inner)) (read_markdown (escape_markdown rest))"
          using read_escaped_code [of "[tick]" inner "escape_markdown rest"] by (simp add: read_markdown.simps(2))
        with True no Some e 2(2) show ?thesis by (simp add: escape_markdown.simps(2) meaning.simps(2))
      qed
    next
      case False
      let ?p = "takeWhile (\<lambda>x. x \<noteq> tick) (c # s)" and ?r = "dropWhile (\<lambda>x. x \<noteq> tick) (c # s)"
      have "meaning (c # s) = map Plain ?p @ meaning ?r"
      proof -
        have "tick \<notin> set ?p" by (metis (mono_tags, lifting) set_takeWhileD)
        from meaning_plain [OF this, of ?r] show ?thesis by (simp only: takeWhile_dropWhile_id)
      qed
      moreover have "escape_markdown (c # s) = escape_outside ?p @ escape_markdown ?r"
        using no False by (simp add: escape_markdown.simps(2))
      ultimately show ?thesis using 2(3) [OF no False] by (simp only: read_escaped_plain) simp
    qed
  qed
qed simp

section \<open>Rich blocks\<close>

datatype button_style = Primary | Secondary | Danger

record button =
  b_id :: string
  b_label :: string
  b_style :: "button_style option"
  b_url :: "string option"

datatype rich_block =
    Heading string
  | Paragraph string
  | Code string "string option"
  | Bulleted_list "string list"
  | Button_row "button list"
  | Divider
  | Image string "string option"
  | Context string

definition bullet :: string where
  "bullet = [CHR 0x95]"

definition dash :: string where
  "dash = [CHR 0x97]"

fun block_to_fallback_text :: "rich_block \<Rightarrow> string" where
  "block_to_fallback_text (Heading t) = ''*'' @ t @ ''*''"
| "block_to_fallback_text (Paragraph t) = t"
| "block_to_fallback_text (Code t lang) =
     fence @ (case lang of None \<Rightarrow> [] | Some l \<Rightarrow> l) @ [CHR 0x0A] @ t @ [CHR 0x0A] @ fence"
| "block_to_fallback_text (Bulleted_list items) = join [CHR 0x0A] (map (\<lambda>i. bullet @ '' '' @ i) items)"
| "block_to_fallback_text (Button_row bs) =
     join [CHR 0x0A] (map (\<lambda>(i, b). ''('' @ decimal (i + 1) @ '') '' @ b_label b @
       (case b_url b of None \<Rightarrow> [] | Some u \<Rightarrow> if u = [] then [] else '' '' @ dash @ '' '' @ u)) (enumerate 0 bs))"
| "block_to_fallback_text Divider = dash"
| "block_to_fallback_text (Image url alt) =
     (case alt of None \<Rightarrow> ''[image] '' @ url
      | Some a \<Rightarrow> if a = [] then ''[image] '' @ url else ''[image: '' @ a @ ''] '' @ url)"
| "block_to_fallback_text (Context t) = ''_'' @ t @ ''_''"

definition blocks_to_fallback_text :: "rich_block list \<Rightarrow> string" where
  "blocks_to_fallback_text bs = join [CHR 0x0A, CHR 0x0A] (map block_to_fallback_text bs)"

record capabilities =
  supports_buttons :: bool
  supports_file_upload :: bool
  supports_edit :: bool
  supports_typing :: bool

record file_ref =
  f_id :: string
  f_name :: "string option"
  f_mime :: "string option"
  f_url :: "string option"
  f_path :: "string option"

datatype channel_content =
    Text_content string "string option"
  | Rich "rich_block list"
  | Template_content string "(string \<times> string) list" "string option"
  | File_content file_ref "string option"
  | Voice_content file_ref "int option"

definition is_block_supported :: "capabilities \<Rightarrow> rich_block \<Rightarrow> bool" where
  "is_block_supported caps b =
     (case b of Button_row bs \<Rightarrow> supports_buttons caps | Image u a \<Rightarrow> supports_file_upload caps | _ \<Rightarrow> True)"

definition capabilities_aware_render :: "capabilities \<Rightarrow> channel_content \<Rightarrow> channel_content" where
  "capabilities_aware_render caps c =
     (case c of
        Rich bs \<Rightarrow>
          (let good = filter (is_block_supported caps) bs;
               rest = map block_to_fallback_text (filter (\<lambda>b. \<not> is_block_supported caps b) bs);
               tail = join [CHR 0x0A, CHR 0x0A] rest
           in if good = [] then Text_content tail (Some ''markdown'')
              else Rich (if rest \<noteq> [] then good @ [Paragraph tail] else good))
      | _ \<Rightarrow> c)"

lemma sublist_join: "x \<in> set xs \<Longrightarrow> sublist x (join d xs)"
proof (induction d xs rule: join.induct)
  case (3 d a b xs)
  have "sublist a (a @ d @ join d (b # xs))" "sublist (join d (b # xs)) (a @ d @ join d (b # xs))"
    by (metis append_Nil sublist_appendI) (metis append.assoc append_Nil2 sublist_appendI)
  with 3 show ?case by (auto intro: sublist_order.order_trans)
qed simp_all

text \<open>What a channel is asked to show: its own blocks, and no block is dropped: each is kept, or its text is part of what is sent.\<close>

fun displays :: "rich_block \<Rightarrow> channel_content \<Rightarrow> bool" where
  "displays b (Text_content t f) = sublist (block_to_fallback_text b) t"
| "displays b (Rich bs) = (b \<in> set bs \<or> (\<exists>t. Paragraph t \<in> set bs \<and> sublist (block_to_fallback_text b) t))"
| "displays b _ = False"

lemma render_keeps_blocks: "b \<in> set bs \<Longrightarrow> displays b (capabilities_aware_render caps (Rich bs))"
proof (cases "is_block_supported caps b")
  case True
  moreover assume "b \<in> set bs"
  ultimately have "b \<in> set (filter (is_block_supported caps) bs)" by simp
  then have "filter (is_block_supported caps) bs \<noteq> []" by force
  with \<open>b \<in> set (filter (is_block_supported caps) bs)\<close> show ?thesis
    by (simp add: capabilities_aware_render_def Let_def)
next
  case False
  moreover assume "b \<in> set bs"
  ultimately have mem: "block_to_fallback_text b \<in> set (map block_to_fallback_text (filter (\<lambda>b. \<not> is_block_supported caps b) bs))"
    by auto
  then have "map block_to_fallback_text (filter (\<lambda>b. \<not> is_block_supported caps b) bs) \<noteq> []" by force
  with sublist_join [OF mem] show ?thesis
    by (auto simp: capabilities_aware_render_def Let_def simp del: map_is_Nil_conv)
qed

text \<open>The channel is only given blocks it can show.\<close>

lemma render_supported:
  "case capabilities_aware_render caps (Rich bs) of Rich bs' \<Rightarrow> list_all (is_block_supported caps) bs' | _ \<Rightarrow> True"
  by (auto simp: capabilities_aware_render_def Let_def list_all_iff is_block_supported_def)

end
