(* ===== verification/Platforms.thy ===== *)
theory Platforms imports Renderer begin

text \<open>
  The renderers of the chat platforms, \<^verbatim>\<open>core/src/channels/renderer\<close>: \<^verbatim>\<open>slack.ts\<close> with \<^verbatim>\<open>block-kit-validator.ts\<close>, \<^verbatim>\<open>discord.ts\<close>,
  \<^verbatim>\<open>telegram.ts\<close> and \<^verbatim>\<open>whatsapp.ts\<close>. Slack blocks are data values, since the validator checks values of any shape.

  Shown: exactly when a rendered Slack message passes the validator; that a WhatsApp payload keeps the limits of the API; that
  Discord rows keep all buttons; and what the renderers lose.
\<close>

definition some_or :: "'a \<Rightarrow> 'a option \<Rightarrow> 'a" where
  "some_or d v = (case v of None \<Rightarrow> d | Some x \<Rightarrow> x)"

definition opt_field :: "string \<Rightarrow> string option \<Rightarrow> (string \<times> js) list" where
  "opt_field k v = (case v of None \<Rightarrow> [] | Some s \<Rightarrow> [(k, JStr s)])"

section \<open>Slack\<close>

definition slack_text :: "string \<Rightarrow> string \<Rightarrow> js" where
  "slack_text ty t = JObj [(''type'', JStr ty), (''text'', JStr t)]"

definition slack_section :: "string \<Rightarrow> js" where
  "slack_section t = JObj [(''type'', JStr ''section''), (''text'', slack_text ''mrkdwn'' (take 3000 t))]"

definition style_field :: "button_style option \<Rightarrow> (string \<times> js) list" where
  "style_field s =
     (case s of Some Primary \<Rightarrow> [(''style'', JStr ''primary'')] | Some Danger \<Rightarrow> [(''style'', JStr ''danger'')] | _ \<Rightarrow> [])"

definition button_to_slack :: "button \<Rightarrow> js option" where
  "button_to_slack b =
     (if b_label b = [] then None
      else Some (JObj ([(''type'', JStr ''button''), (''text'', slack_text ''plain_text'' (take 75 (b_label b))),
                        (''action_id'', JStr (take 255 (b_id b)))] @ style_field (b_style b) @ opt_field ''url'' (b_url b))))"

text \<open>The blocks and the text parts one block adds.\<close>

fun slack_block :: "rich_block \<Rightarrow> js list \<times> string list" where
  "slack_block (Button_row bs) =
     (let els = List.map_filter button_to_slack (take 5 bs)
      in if els \<noteq> [] then ([JObj [(''type'', JStr ''actions''), (''elements'', JArr els)]], [join '' / '' (map b_label bs)]) else ([], []))"
| "slack_block (Heading t) = ([JObj [(''type'', JStr ''header''), (''text'', slack_text ''plain_text'' (take 150 t))]], [t])"
| "slack_block (Paragraph t) = ([slack_section t], [t])"
| "slack_block (Code t lang) = ([slack_section (block_to_fallback_text (Code t lang))], [t])"
| "slack_block (Bulleted_list items) = ([slack_section (block_to_fallback_text (Bulleted_list items))], [join '', '' items])"
| "slack_block Divider = ([JObj [(''type'', JStr ''divider'')]], [])"
| "slack_block (Image url alt) =
     ([JObj [(''type'', JStr ''image''), (''image_url'', JStr url), (''alt_text'', JStr (some_or [] alt))]],
      [block_to_fallback_text (Image url alt)])"
| "slack_block (Context t) = ([JObj [(''type'', JStr ''context''), (''elements'', JArr [slack_text ''mrkdwn'' t])]], [t])"

definition slack_blocks :: "rich_block list \<Rightarrow> js list" where
  "slack_blocks bs = concat (map (\<lambda>b. fst (slack_block b)) bs)"

definition slack_summary :: "rich_block list \<Rightarrow> string" where
  "slack_summary bs = take 40000 (join '' '' (concat (map (\<lambda>b. snd (slack_block b)) bs)))"

section \<open>The validator\<close>

text \<open>An error is a message and the path it is about; the message about the type of a button leaves out the value found.\<close>

type_synonym kit_error = "string \<times> string"

fun first_problem :: "('a \<Rightarrow> kit_error option) \<Rightarrow> 'a list \<Rightarrow> kit_error option" where
  "first_problem f [] = None"
| "first_problem f (x # xs) = (case f x of None \<Rightarrow> first_problem f xs | Some e \<Rightarrow> Some e)"

definition exceeds :: "string \<Rightarrow> nat \<Rightarrow> nat \<Rightarrow> string" where
  "exceeds what limit got = what @ '' exceeds '' @ decimal limit @ '' chars (got '' @ decimal got @ '')''"

definition at_index :: "string \<Rightarrow> nat \<Rightarrow> string" where
  "at_index p i = p @ ''['' @ decimal i @ '']''"

definition validate_section :: "js \<Rightarrow> string \<Rightarrow> kit_error option" where
  "validate_section b p =
     (let t = prop_of ''text'' b
      in if \<not> is_object t then Some (''section requires a text object'', p @ ''.text'')
         else if prop_of ''type'' t \<noteq> JStr ''mrkdwn'' \<and> prop_of ''type'' t \<noteq> JStr ''plain_text'' then
           Some (''section.text.type must be \"mrkdwn\" or \"plain_text\"'', p @ ''.text.type'')
         else case prop_of ''text'' t of
             JStr s \<Rightarrow> if 3000 < length s then Some (exceeds ''section text'' 3000 (length s), p @ ''.text.text'') else None
           | _ \<Rightarrow> Some (''section.text.text must be a string'', p @ ''.text.text''))"

definition validate_header :: "js \<Rightarrow> string \<Rightarrow> kit_error option" where
  "validate_header b p =
     (let t = prop_of ''text'' b
      in if \<not> is_object t then Some (''header requires a text object'', p @ ''.text'')
         else if prop_of ''type'' t \<noteq> JStr ''plain_text'' then
           Some (''header.text.type must be \"plain_text\"'', p @ ''.text.type'')
         else case prop_of ''text'' t of
             JStr s \<Rightarrow> if 150 < length s then Some (exceeds ''header text'' 150 (length s), p @ ''.text.text'') else None
           | _ \<Rightarrow> Some (''header.text.text must be a string'', p @ ''.text.text''))"

definition validate_button :: "js \<Rightarrow> string \<Rightarrow> kit_error option" where
  "validate_button b p =
     (let t = prop_of ''text'' b
      in if \<not> is_object b then Some (''button must be an object'', p)
         else if prop_of ''type'' b \<noteq> JStr ''button'' then Some (''expected type \"button\"'', p @ ''.type'')
         else if \<not> is_object t then Some (''button requires a text object'', p @ ''.text'')
         else if prop_of ''type'' t \<noteq> JStr ''plain_text'' then
           Some (''button.text.type must be \"plain_text\"'', p @ ''.text.type'')
         else case prop_of ''text'' t of
             JStr s \<Rightarrow>
               if s = [] then Some (''button text is required'', p @ ''.text.text'')
               else if 75 < length s then Some (exceeds ''button text'' 75 (length s), p @ ''.text.text'')
               else (case prop_of ''action_id'' b of
                       JStr i \<Rightarrow>
                         if i = [] then Some (''button.action_id is required'', p @ ''.action_id'')
                         else if 255 < length i then Some (exceeds ''button.action_id'' 255 (length i), p @ ''.action_id'') else None
                     | _ \<Rightarrow> Some (''button.action_id is required'', p @ ''.action_id''))
           | _ \<Rightarrow> Some (''button text is required'', p @ ''.text.text''))"

definition validate_elements :: "string \<Rightarrow> nat \<Rightarrow> (js \<Rightarrow> string \<Rightarrow> kit_error option) \<Rightarrow> js \<Rightarrow> string \<Rightarrow> kit_error option" where
  "validate_elements what limit f b p =
     (case prop_of ''elements'' b of
        JArr els \<Rightarrow>
          if els = [] then Some (what @ '' requires a non-empty elements array'', p @ ''.elements'')
          else if limit < length els then
            Some (what @ ''.elements exceeds '' @ decimal limit @ '' entries (got '' @ decimal (length els) @ '')'', p @ ''.elements'')
          else first_problem (\<lambda>(i, e). f e (at_index (p @ ''.elements'') i)) (enumerate 0 els)
      | _ \<Rightarrow> Some (what @ '' requires a non-empty elements array'', p @ ''.elements''))"

definition validate_image :: "js \<Rightarrow> string \<Rightarrow> kit_error option" where
  "validate_image b p =
     (case prop_of ''image_url'' b of
        JStr u \<Rightarrow>
          if u = [] then Some (''image.image_url is required'', p @ ''.image_url'')
          else (case prop_of ''alt_text'' b of
                  JStr a \<Rightarrow> if 2000 < length a then Some (exceeds ''image.alt_text'' 2000 (length a), p @ ''.alt_text'') else None
                | _ \<Rightarrow> Some (''image.alt_text must be a string'', p @ ''.alt_text''))
      | _ \<Rightarrow> Some (''image.image_url is required'', p @ ''.image_url''))"

definition validate_block :: "js \<Rightarrow> string \<Rightarrow> kit_error option" where
  "validate_block b p =
     (if \<not> is_object b then Some (''block must be an object'', p)
      else case prop_of ''type'' b of
          JStr ty \<Rightarrow>
            if ty = ''section'' then validate_section b p
            else if ty = ''header'' then validate_header b p
            else if ty = ''divider'' then None
            else if ty = ''actions'' then validate_elements ''actions'' 5 validate_button b p
            else if ty = ''context'' then validate_elements ''context'' 10 (\<lambda>e p. None) b p
            else if ty = ''image'' then validate_image b p
            else Some (''unsupported block type \"'' @ ty @ ''\"'', p)
        | _ \<Rightarrow> Some (''block.type must be a string'', p))"

definition validate_block_kit :: "js \<Rightarrow> kit_error option" where
  "validate_block_kit v =
     (case v of
        JArr bs \<Rightarrow> first_problem (\<lambda>(i, b). validate_block b (at_index ''blocks'' i)) (enumerate 0 bs)
      | _ \<Rightarrow> Some (''blocks must be an array'', ''$''))"

section \<open>When a Slack message is valid\<close>

lemma first_problem_indexed:
  assumes "\<And>e p q. f e p = None \<longleftrightarrow> f e q = None"
  shows "first_problem (\<lambda>(i, e). f e (g i)) (enumerate n es) = None \<longleftrightarrow> (\<forall>e \<in> set es. f e [] = None)"
proof (induction es arbitrary: n)
  case (Cons e es)
  with assms [of e "g n" "[]"] show ?case by (auto split: option.split)
qed simp

lemma section_path: "validate_section b p = None \<longleftrightarrow> validate_section b q = None"
  by (simp add: validate_section_def Let_def split: js.split)

lemma header_path: "validate_header b p = None \<longleftrightarrow> validate_header b q = None"
  by (simp add: validate_header_def Let_def split: js.split)

lemma button_path: "validate_button b p = None \<longleftrightarrow> validate_button b q = None"
  by (simp add: validate_button_def Let_def split: js.split)

lemma image_path: "validate_image b p = None \<longleftrightarrow> validate_image b q = None"
  by (simp add: validate_image_def split: js.split)

lemma elements_valid:
  assumes "\<And>e p q. f e p = None \<longleftrightarrow> f e q = None"
  shows "validate_elements what limit f b p = None \<longleftrightarrow>
     (\<exists>els. prop_of ''elements'' b = JArr els \<and> els \<noteq> [] \<and> length els \<le> limit \<and> (\<forall>e \<in> set els. f e [] = None))"
  using first_problem_indexed [of f, OF assms] by (auto simp: validate_elements_def split: js.split)

lemma block_path: "validate_block b p = None \<longleftrightarrow> validate_block b q = None"
  using section_path [of b p q] header_path [of b p q] image_path [of b p q]
    elements_valid [of validate_button, OF button_path] elements_valid [of "\<lambda>e p. None"]
  by (simp add: validate_block_def split: js.split)

text \<open>What the validator accepts of what the renderer makes of a block.\<close>

definition sendable :: "rich_block \<Rightarrow> bool" where
  "sendable b =
     (case b of
        Image url alt \<Rightarrow> url \<noteq> [] \<and> length (some_or [] alt) \<le> 2000
      | Button_row bs \<Rightarrow> list_all (\<lambda>x. b_label x = [] \<or> b_id x \<noteq> []) (take 5 bs)
      | _ \<Rightarrow> True)"

lemma prop_of_obj: "prop_of k (JObj ((k', v) # ps)) = (if k = k' then v else prop_of k (JObj ps))"
  by (simp add: prop_of_def fields_of_def)

lemma slack_text_props: "is_object (slack_text ty t)" "prop_of ''type'' (slack_text ty t) = JStr ty" "prop_of ''text'' (slack_text ty t) = JStr t"
  by (simp_all add: slack_text_def prop_of_obj)

lemma section_valid: "validate_block (slack_section t) p = None"
  by (simp add: validate_block_def slack_section_def validate_section_def prop_of_obj slack_text_props Let_def)

lemma button_valid: "button_to_slack b = Some v \<Longrightarrow> validate_button v p = None \<longleftrightarrow> b_id b \<noteq> []"
  by (auto simp: button_to_slack_def validate_button_def prop_of_obj slack_text_props Let_def split: if_splits)

lemma slack_button_None: "button_to_slack x = None \<longleftrightarrow> b_label x = []"
  by (simp add: button_to_slack_def)

lemma slack_button_ok: "(\<forall>v. button_to_slack x = Some v \<longrightarrow> validate_button v [] = None) \<longleftrightarrow> b_label x = [] \<or> b_id x \<noteq> []"
  using slack_button_None [of x] button_valid [of x _ "[]"] by (cases "button_to_slack x") auto

lemma block_sendable: "list_all (\<lambda>v. validate_block v [] = None) (fst (slack_block b)) \<longleftrightarrow> sendable b"
proof (cases b)
  case (Button_row bs)
  let ?els = "List.map_filter button_to_slack (take 5 bs)"
  have mem: "v \<in> set ?els \<longleftrightarrow> (\<exists>x \<in> set (take 5 bs). button_to_slack x = Some v)" for v
    by (force simp: List.map_filter_def)
  have len: "length ?els \<le> 5"
    using length_filter_le [of "\<lambda>x. button_to_slack x \<noteq> None" "take 5 bs"] by (simp add: List.map_filter_def)
  have "(\<forall>v \<in> set ?els. validate_button v [] = None) \<longleftrightarrow>
      (\<forall>x \<in> set (take 5 bs). \<forall>v. button_to_slack x = Some v \<longrightarrow> validate_button v [] = None)"
    unfolding Ball_def mem by blast
  then have "(\<forall>v \<in> set ?els. validate_button v [] = None) \<longleftrightarrow> sendable b"
    by (simp add: slack_button_ok sendable_def Button_row list_all_iff)
  moreover have "sendable b" if "?els = []"
  proof -
    have "button_to_slack x = None" if "x \<in> set (take 5 bs)" for x
      using that \<open>?els = []\<close> mem by (cases "button_to_slack x") auto
    then show ?thesis by (simp add: sendable_def Button_row list_all_iff slack_button_None)
  qed
  ultimately show ?thesis
    using len by (auto simp: Button_row Let_def validate_block_def prop_of_obj elements_valid [of validate_button, OF button_path])
next
  case (Heading t)
  then show ?thesis
    by (simp add: sendable_def validate_block_def prop_of_obj validate_header_def slack_text_props Let_def)
next
  case (Image url alt)
  then show ?thesis
    by (auto simp: sendable_def validate_block_def prop_of_obj validate_image_def)
next
  case (Context t)
  then show ?thesis
    by (simp add: sendable_def validate_block_def prop_of_obj elements_valid [of "\<lambda>e p. None"])
next
  case Divider
  then show ?thesis by (simp add: sendable_def validate_block_def prop_of_obj)
qed (simp_all add: sendable_def section_valid)


section \<open>Discord\<close>

record discord_button =
  db_style :: nat
  db_label :: string
  db_custom_id :: "string option"
  db_url :: "string option"

record discord_embed =
  em_title :: "string option"
  em_description :: "string option"
  em_footer :: "string option"
  em_image :: "string option"

record discord_payload =
  dp_content :: "string option"
  dp_embeds :: "discord_embed list"
  dp_rows :: "discord_button list list"

definition discord_style :: "button \<Rightarrow> nat" where
  "discord_style b = (if b_url b \<noteq> None then 5 else case b_style b of Some Primary \<Rightarrow> 1 | Some Danger \<Rightarrow> 4 | _ \<Rightarrow> 2)"

definition button_to_discord :: "button \<Rightarrow> discord_button" where
  "button_to_discord b =
     \<lparr>db_style = discord_style b, db_label = b_label b, db_custom_id = (if b_url b = None then Some (b_id b) else None),
      db_url = b_url b\<rparr>"

function (sequential) button_rows :: "button list \<Rightarrow> discord_button list list" where
  "button_rows [] = []"
| "button_rows (b # bs) = map button_to_discord (take 5 (b # bs)) # button_rows (drop 5 (b # bs))"
  by pat_completeness auto
termination by (relation "measure length") auto

definition empty_embed :: discord_embed where
  "empty_embed = \<lparr>em_title = None, em_description = None, em_footer = None, em_image = None\<rparr>"

record discord_acc =
  da_embed :: discord_embed
  da_description :: "string list"
  da_extra :: "string list"
  da_rows :: "discord_button list list"

fun discord_step :: "rich_block \<Rightarrow> discord_acc \<Rightarrow> discord_acc" where
  "discord_step (Button_row bs) a = a\<lparr>da_rows := da_rows a @ button_rows bs\<rparr>"
| "discord_step (Heading t) a =
     (if em_title (da_embed a) = None then a\<lparr>da_embed := (da_embed a)\<lparr>em_title := Some t\<rparr>\<rparr>
      else a\<lparr>da_description := da_description a @ [''**'' @ t @ ''**'']\<rparr>)"
| "discord_step (Image url alt) a =
     (if em_image (da_embed a) = None then a\<lparr>da_embed := (da_embed a)\<lparr>em_image := Some url\<rparr>\<rparr>
      else a\<lparr>da_extra := da_extra a @ [block_to_fallback_text (Image url alt)]\<rparr>)"
| "discord_step (Context t) a = a\<lparr>da_embed := (da_embed a)\<lparr>em_footer := Some t\<rparr>\<rparr>"
| "discord_step b a = a\<lparr>da_description := da_description a @ [block_to_fallback_text b]\<rparr>"

definition discord_rich :: "rich_block list \<Rightarrow> discord_payload" where
  "discord_rich bs =
     (let a = fold discord_step bs \<lparr>da_embed = empty_embed, da_description = [], da_extra = [], da_rows = []\<rparr>;
          e = (if da_description a \<noteq> [] then (da_embed a)\<lparr>em_description := Some (join [CHR 0x0A, CHR 0x0A] (da_description a))\<rparr>
               else da_embed a)
      in \<lparr>dp_content = (if da_extra a \<noteq> [] then Some (join [CHR 0x0A] (da_extra a)) else None),
          dp_embeds = (if e = empty_embed then [] else [e]), dp_rows = da_rows a\<rparr>)"

lemma button_rows_keep: "concat (button_rows bs) = map button_to_discord bs"
  by (induction bs rule: button_rows.induct) (simp_all add: map_append [symmetric] del: map_append)

lemma button_rows_short: "row \<in> set (button_rows bs) \<Longrightarrow> row \<noteq> [] \<and> length row \<le> 5"
  by (induction bs rule: button_rows.induct) auto

definition buttons_in :: "rich_block list \<Rightarrow> button list" where
  "buttons_in bs = concat (map (\<lambda>b. case b of Button_row xs \<Rightarrow> xs | _ \<Rightarrow> []) bs)"

lemma discord_rows_step:
  "da_rows (discord_step b a) = da_rows a @ (case b of Button_row xs \<Rightarrow> button_rows xs | _ \<Rightarrow> [])"
  by (cases b) auto

lemma discord_rows_fold:
  "da_rows (fold discord_step bs a) = da_rows a @ concat (map (\<lambda>b. case b of Button_row xs \<Rightarrow> button_rows xs | _ \<Rightarrow> []) bs)"
  by (induction bs arbitrary: a) (simp_all add: discord_rows_step)

text \<open>Every button of a message is in the rows, in order, and no row has more than five.\<close>

lemma discord_keeps_buttons:
  "concat (dp_rows (discord_rich bs)) = map button_to_discord (buttons_in bs) \<and>
   list_all (\<lambda>r. r \<noteq> [] \<and> length r \<le> 5) (dp_rows (discord_rich bs))"
proof -
  let ?rows = "\<lambda>b. case b of Button_row xs \<Rightarrow> button_rows xs | _ \<Rightarrow> []"
  have rows: "dp_rows (discord_rich bs) = concat (map ?rows bs)"
    by (simp add: discord_rich_def Let_def discord_rows_fold)
  have "concat (?rows b) = map button_to_discord (case b of Button_row xs \<Rightarrow> xs | _ \<Rightarrow> [])" for b
    by (cases b) (simp_all add: button_rows_keep)
  then have "concat (concat (map ?rows bs)) = map button_to_discord (buttons_in bs)"
    by (induction bs) (simp_all add: buttons_in_def)
  moreover have "list_all (\<lambda>r. r \<noteq> [] \<and> length r \<le> 5) (?rows b)" for b
    by (cases b) (auto simp: list_all_iff dest: button_rows_short)
  then have "list_all (\<lambda>r. r \<noteq> [] \<and> length r \<le> 5) (concat (map ?rows bs))"
    by (induction bs) simp_all
  ultimately show ?thesis by (simp add: rows)
qed

text \<open>Of several context blocks only the last is shown.\<close>

lemma discord_drops_context:
  "discord_rich [Context s, Context t] = discord_rich [Context t]"
  by (simp add: discord_rich_def)

section \<open>Telegram\<close>

record telegram_button =
  tb_text :: string
  tb_callback :: "string option"
  tb_url :: "string option"

definition button_to_telegram :: "button \<Rightarrow> telegram_button" where
  "button_to_telegram b =
     \<lparr>tb_text = b_label b, tb_callback = (if b_url b = None then Some (b_id b) else None), tb_url = b_url b\<rparr>"

fun telegram_block :: "rich_block \<Rightarrow> string" where
  "telegram_block (Heading t) = ''*'' @ escape_markdown t @ ''*''"
| "telegram_block (Paragraph t) = escape_markdown t"
| "telegram_block (Code t lang) =
     (case lang of
        None \<Rightarrow> fence @ [CHR 0x0A] @ t @ [CHR 0x0A] @ fence
      | Some l \<Rightarrow> if l = [] then fence @ [CHR 0x0A] @ t @ [CHR 0x0A] @ fence
                else fence @ escape_markdown l @ [CHR 0x0A] @ t @ [CHR 0x0A] @ fence)"
| "telegram_block (Bulleted_list items) = join [CHR 0x0A] (map (\<lambda>i. bullet @ '' '' @ escape_markdown i) items)"
| "telegram_block Divider = dash"
| "telegram_block (Image url alt) = escape_markdown (block_to_fallback_text (Image url alt))"
| "telegram_block (Context t) = ''_'' @ escape_markdown t @ ''_''"
| "telegram_block (Button_row bs) = []"

definition telegram_rich :: "rich_block list \<Rightarrow> string \<times> telegram_button list list" where
  "telegram_rich bs =
     (join [CHR 0x0A, CHR 0x0A] (map telegram_block (filter (\<lambda>b. case b of Button_row xs \<Rightarrow> False | _ \<Rightarrow> True) bs)),
      concat (map (\<lambda>b. case b of Button_row xs \<Rightarrow> [map button_to_telegram xs] | _ \<Rightarrow> []) bs))"

text \<open>The text of a code block is not escaped: a backslash in it is taken for an escape and disappears.\<close>

definition code_char :: "char \<Rightarrow> bool" where
  "code_char c \<longleftrightarrow> c \<noteq> tick \<and> c \<noteq> CHR 0x5C"

lemma read_code_plain: "list_all code_char s \<Longrightarrow> t \<noteq> [] \<Longrightarrow> read_code fence (s @ t) = map_option (\<lambda>(l, r). (s @ l, r)) (read_code fence t)"
proof (induction s)
  case Nil
  show ?case by (cases "read_code fence t") auto
next
  case (Cons c s)
  obtain e u where u: "s @ t = e # u" using Cons.prems(2) by (cases "s @ t") auto
  have "tick \<noteq> c" "c \<noteq> CHR 0x5C" using Cons.prems(1) by (auto simp: code_char_def)
  then have "read_code fence (c # e # u) = map_option (\<lambda>(l, r). (c # l, r)) (read_code fence (e # u))"
    by simp
  with Cons u show ?case by (cases "read_code fence t") auto
qed

lemma telegram_code_loses_backslash:
  assumes "list_all code_char x" "code_char c \<or> c = CHR 0x5C" "list_all code_char y"
  shows "read_markdown (telegram_block (Code (x @ CHR 0x5C # c # y) None)) =
           Some [Block (CHR 0x0A # x @ c # y @ [CHR 0x0A])]"
proof -
  have nl: "code_char (CHR 0x0A)" by (simp add: code_char_def)
  have "read_code fence ((y @ [CHR 0x0A]) @ fence) = Some (y @ [CHR 0x0A], [])"
    using assms(3) nl by (subst read_code_plain) simp_all
  then have "read_code fence (CHR 0x5C # c # (y @ [CHR 0x0A]) @ fence) = Some (c # y @ [CHR 0x0A], [])" by simp
  then have "read_code fence ((CHR 0x0A # x) @ CHR 0x5C # c # (y @ [CHR 0x0A]) @ fence) = Some (CHR 0x0A # x @ c # y @ [CHR 0x0A], [])"
    using assms(1) nl by (subst read_code_plain) simp_all
  then show ?thesis by (simp add: read_markdown.simps(2))
qed

section \<open>WhatsApp\<close>

definition ellipsis :: char where
  "ellipsis = CHR 0x85"

definition middle_dot :: string where
  "middle_dot = '' '' @ [CHR 0xB7] @ '' ''"

definition cut_at :: "string \<Rightarrow> nat \<Rightarrow> string" where
  "cut_at t n = (if length t \<le> n then t else take (n - 1) t @ [ellipsis])"

datatype media_type = Document | Image_media | Audio | Video

definition infer_media_type :: "string option \<Rightarrow> media_type" where
  "infer_media_type m =
     (case m of None \<Rightarrow> Document
      | Some t \<Rightarrow> if is_prefix_of ''image/'' t then Image_media
                 else if is_prefix_of ''audio/'' t then Audio
                 else if is_prefix_of ''video/'' t then Video else Document)"

text \<open>Buttons and rows are pairs of an id and a title.\<close>

datatype whatsapp_payload =
    Wa_text string
  | Wa_buttons string "string option" "(string \<times> string) list"
  | Wa_list string "string option" "(string \<times> string) list"
  | Wa_template string string "(string \<times> string) list"
  | Wa_media media_type "string option" "string option" "string option"

record whatsapp_acc =
  wa_text :: "string list"
  wa_context :: "string list"
  wa_buttons :: "button list"
  wa_image :: "string option"

fun whatsapp_step :: "rich_block \<Rightarrow> whatsapp_acc \<Rightarrow> whatsapp_acc" where
  "whatsapp_step (Button_row bs) a = a\<lparr>wa_buttons := wa_buttons a @ bs\<rparr>"
| "whatsapp_step (Code t lang) a = a\<lparr>wa_text := wa_text a @ [t]\<rparr>"
| "whatsapp_step (Image url alt) a =
     (if wa_image a = None then a\<lparr>wa_image := Some url\<rparr> else a\<lparr>wa_text := wa_text a @ [block_to_fallback_text (Image url alt)]\<rparr>)"
| "whatsapp_step (Context t) a = a\<lparr>wa_context := wa_context a @ [t]\<rparr>"
| "whatsapp_step b a = a\<lparr>wa_text := wa_text a @ [block_to_fallback_text b]\<rparr>"

definition non_empty_or :: "string \<Rightarrow> string \<Rightarrow> string" where
  "non_empty_or d t = (if t = [] then d else t)"

definition whatsapp_rich :: "rich_block list \<Rightarrow> whatsapp_payload" where
  "whatsapp_rich bs =
     (let a = fold whatsapp_step bs \<lparr>wa_text = [], wa_context = [], wa_buttons = [], wa_image = None\<rparr>;
          body = join [CHR 0x0A, CHR 0x0A] (wa_text a);
          footer = (if wa_context a = [] then None else Some (join middle_dot (wa_context a)));
          foot = map_option (\<lambda>f. cut_at f 60) footer;
          btns = wa_buttons a
      in case wa_image a of
           Some url \<Rightarrow> Wa_media Image_media (Some url) None (if body = [] then None else Some (cut_at body 1024))
         | None \<Rightarrow>
             if btns = [] then Wa_text (cut_at (if body = [] then some_or [] footer else body) 1024)
             else if length btns \<le> 3 then
               Wa_buttons (cut_at (non_empty_or '' '' body) 1024) foot (map (\<lambda>b. (b_id b, cut_at (b_label b) 20)) btns)
             else
               (let extra = join [CHR 0x0A] (map (\<lambda>(i, b). ''('' @ decimal (10 + i + 1) @ '') '' @ b_label b) (enumerate 0 (drop 10 btns)));
                    texts = (if 10 < length btns then wa_text a @ [extra] else wa_text a)
                in Wa_list (cut_at (non_empty_or '' '' (join [CHR 0x0A, CHR 0x0A] texts)) 1024) foot
                     (map (\<lambda>b. (b_id b, cut_at (b_label b) 24)) (take 10 btns))))"

definition render_whatsapp :: "capabilities \<Rightarrow> channel_content \<Rightarrow> whatsapp_payload" where
  "render_whatsapp caps c =
     (case capabilities_aware_render caps c of
        Text_content t fmt \<Rightarrow> Wa_text (cut_at t 1024)
      | Rich bs \<Rightarrow> whatsapp_rich bs
      | Template_content n ps lang \<Rightarrow> Wa_template n (some_or ''en_US'' lang) ps
      | File_content f cap \<Rightarrow> Wa_media (infer_media_type (f_mime f)) (f_url f) (f_path f) cap
      | Voice_content f d \<Rightarrow> Wa_media Audio (f_url f) (f_path f) None)"

section \<open>The other payloads\<close>

datatype slack_payload =
    Slack_text string
  | Slack_rich string "js list"
  | Slack_template string "(string \<times> string) list" "string option"
  | Slack_files string "(string \<times> string option \<times> string option) list"

definition render_slack :: "capabilities \<Rightarrow> channel_content \<Rightarrow> kit_error + slack_payload" where
  "render_slack caps c =
     (case capabilities_aware_render caps c of
        Text_content t fmt \<Rightarrow> Inr (Slack_text t)
      | Rich bs \<Rightarrow>
          (case validate_block_kit (JArr (slack_blocks bs)) of
             Some e \<Rightarrow> Inl e
           | None \<Rightarrow> Inr (Slack_rich (slack_summary bs) (slack_blocks bs)))
      | Template_content n ps lang \<Rightarrow> Inr (Slack_template n ps lang)
      | File_content f cap \<Rightarrow>
          (let name = some_or ''file'' (f_name f) in Inr (Slack_files (some_or name cap) [(name, f_url f, f_path f)]))
      | Voice_content f d \<Rightarrow> Inr (Slack_files ''voice message'' [(some_or ''voice'' (f_name f), f_url f, f_path f)]))"

datatype telegram_payload =
    Tg_text string "telegram_button list list"
  | Tg_document "string option" "string option" "string option"
  | Tg_voice "string option" "string option" "int option"
  | Tg_template string "(string \<times> string) list" "string option"

definition render_telegram :: "capabilities \<Rightarrow> channel_content \<Rightarrow> telegram_payload" where
  "render_telegram caps c =
     (case capabilities_aware_render caps c of
        Text_content t fmt \<Rightarrow> Tg_text (escape_markdown t) []
      | Rich bs \<Rightarrow> (case telegram_rich bs of (t, rows) \<Rightarrow> Tg_text t rows)
      | Template_content n ps lang \<Rightarrow> Tg_template n ps lang
      | File_content f cap \<Rightarrow> Tg_document (f_url f) (f_path f) (map_option escape_markdown cap)
      | Voice_content f d \<Rightarrow> Tg_voice (f_url f) (f_path f) d)"

datatype discord_message =
    Dc_text string
  | Dc_rich discord_payload
  | Dc_template string "(string \<times> string) list" "string option"
  | Dc_files "string \<times> string option \<times> string option" "string option"

definition render_discord :: "capabilities \<Rightarrow> channel_content \<Rightarrow> discord_message" where
  "render_discord caps c =
     (case capabilities_aware_render caps c of
        Text_content t fmt \<Rightarrow> Dc_text t
      | Rich bs \<Rightarrow> Dc_rich (discord_rich bs)
      | Template_content n ps lang \<Rightarrow> Dc_template n ps lang
      | File_content f cap \<Rightarrow> Dc_files (some_or ''file'' (f_name f), f_url f, f_path f) cap
      | Voice_content f d \<Rightarrow> Dc_files (some_or ''voice'' (f_name f), f_url f, f_path f) None)"

section \<open>Limits of WhatsApp\<close>

definition api_limits :: "whatsapp_payload \<Rightarrow> bool" where
  "api_limits p =
     (case p of
        Wa_text t \<Rightarrow> length t \<le> 1024
      | Wa_buttons t foot bs \<Rightarrow> t \<noteq> [] \<and> length t \<le> 1024 \<and> length (some_or [] foot) \<le> 60 \<and> bs \<noteq> [] \<and> length bs \<le> 3 \<and>
          list_all (\<lambda>(i, l). length l \<le> 20) bs
      | Wa_list t foot bs \<Rightarrow> t \<noteq> [] \<and> length t \<le> 1024 \<and> length (some_or [] foot) \<le> 60 \<and> bs \<noteq> [] \<and> length bs \<le> 10 \<and>
          list_all (\<lambda>(i, l). length l \<le> 24) bs
      | Wa_template n l ps \<Rightarrow> True
      | Wa_media m u f cap \<Rightarrow> length (some_or [] cap) \<le> 1024)"

lemma cut_length: "0 < n \<Longrightarrow> length (cut_at t n) \<le> n"
  by (simp add: cut_at_def)

lemma cut_empty [simp]: "cut_at t n = [] \<longleftrightarrow> t = []"
  by (auto simp: cut_at_def)

lemma whatsapp_rich_limits: "api_limits (whatsapp_rich bs)"
  by (auto simp: whatsapp_rich_def Let_def api_limits_def some_or_def cut_length non_empty_or_def list_all_iff split: option.split)

text \<open>Whatever is sent to WhatsApp keeps the limits of its API: at most 1024 characters of text, 60 of footer, three buttons with
  titles of at most 20 or ten list rows with titles of at most 24; the only exception is the caption of a file, which is passed
  on at any length.\<close>

lemma whatsapp_keeps_limits:
  "api_limits (render_whatsapp caps c) \<or> (\<exists>f cap. c = File_content f (Some cap) \<and> 1024 < length cap)"
proof (cases c)
  case (Rich bs)
  then show ?thesis
    using whatsapp_rich_limits
    by (auto simp: render_whatsapp_def capabilities_aware_render_def api_limits_def cut_length Let_def)
next
  case (File_content f cap)
  then show ?thesis
    by (cases cap) (auto simp: render_whatsapp_def capabilities_aware_render_def api_limits_def some_or_def)
qed (auto simp: render_whatsapp_def capabilities_aware_render_def api_limits_def cut_length some_or_def)

text \<open>An image takes the place of everything else that is interactive: the buttons and the context beside it are not sent.\<close>

lemma whatsapp_image_drops_buttons:
  "whatsapp_rich [Image url alt, Button_row bs, Context t] = whatsapp_rich [Image url alt]"
  by (simp add: whatsapp_rich_def)

end
