(* ===== verification/Channels.thy ===== *)
theory Channels imports Renderer Dispatcher begin

text \<open>
  Around the channels of \<^verbatim>\<open>core/src/channels\<close>: session ids (\<^verbatim>\<open>session-id.ts\<close>), the registry of instances (\<^verbatim>\<open>registry.ts\<close>), the
  channel context of sessions (\<^verbatim>\<open>session-context.ts\<close>) and the bridge that turns inbound events into skill calls
  (\<^verbatim>\<open>inbound-bridge.ts\<close>). What the bus does with an event the bridge publishes is the argument \<open>publish\<close>.

  Shown: two conversations get the same session id only if they are the same conversation and thread, up to a thread that is
  called like the placeholder; the bridge never bridges its own events; and a bridged event that has an idempotency key is a
  duplicate for the dispatcher.
\<close>

section \<open>Session ids\<close>

record conversation_ref =
  cv_channel :: string
  cv_conversation :: string
  cv_thread :: "string option"

definition escape_component :: "string \<Rightarrow> string" where
  "escape_component s = replace_all (CHR '':'') [CHR 0x5C, CHR '':''] (replace_all (CHR 0x5C) [CHR 0x5C, CHR 0x5C] s)"

definition thread_of :: "conversation_ref \<Rightarrow> string" where
  "thread_of r = (case cv_thread r of None \<Rightarrow> ''main'' | Some t \<Rightarrow> t)"

definition conversation_session_id :: "conversation_ref \<Rightarrow> string" where
  "conversation_session_id r =
     join '':'' [''chat'', escape_component (cv_channel r), escape_component (cv_conversation r), escape_component (thread_of r)]"

definition user_session_id :: "string \<Rightarrow> string \<Rightarrow> string" where
  "user_session_id channel user = join '':'' [''chat-user'', escape_component channel, escape_component user]"

definition ephemeral_session_id :: "conversation_ref \<Rightarrow> string \<Rightarrow> string" where
  "ephemeral_session_id r sfx = join '':'' [conversation_session_id r, escape_component sfx]"

text \<open>Reading the components of an id back.\<close>

fun read_component :: "string \<Rightarrow> string \<times> string option" where
  "read_component [] = ([], None)"
| "read_component [c] = (if c = CHR '':'' then ([], Some []) else ([c], None))"
| "read_component (c # d # s) =
     (if c = CHR '':'' then ([], Some (d # s))
      else if c = CHR 0x5C then (case read_component s of (l, r) \<Rightarrow> (d # l, r))
      else (case read_component (d # s) of (l, r) \<Rightarrow> (c # l, r)))"

lemma read_component_shorter: "read_component s = (l, Some r) \<Longrightarrow> length r < length s"
  by (induction s arbitrary: l rule: read_component.induct) (fastforce split: if_splits prod.splits)+

function (sequential) components :: "string \<Rightarrow> string list" where
  "components s = (case read_component s of (l, None) \<Rightarrow> [l] | (l, Some r) \<Rightarrow> l # components r)"
  by pat_completeness auto
termination by (relation "measure length") (auto dest: read_component_shorter [OF sym])

declare components.simps [simp del]

lemma escape_component_Cons:
  "escape_component (c # s) = (if c = CHR '':'' \<or> c = CHR 0x5C then [CHR 0x5C, c] else [c]) @ escape_component s"
  by (simp add: escape_component_def replace_all_def)

lemma escape_component_Nil [simp]: "escape_component [] = []"
  by (simp add: escape_component_def replace_all_def)

lemma read_escaped:
  "read_component (escape_component s) = (s, None)"
  "read_component (escape_component s @ CHR '':'' # t) = (s, Some t)"
proof (induction s)
  case Nil
  { case 1 show ?case by simp }
  { case 2 show ?case by (cases t) simp_all }
next
  case (Cons c s)
  { case 1 show ?case using Cons by (cases "escape_component s") (auto simp: escape_component_Cons split: prod.splits) }
  { case 2 show ?case
      using Cons by (cases "escape_component s @ CHR '':'' # t") (auto simp: escape_component_Cons split: prod.splits) }
qed

lemma components_join: "components (join '':'' (map escape_component (c # cs))) = c # cs"
proof (induction cs arbitrary: c)
  case Nil
  then show ?case by (simp add: components.simps [of "escape_component c"] read_escaped)
next
  case (Cons d cs)
  have "components (escape_component c @ CHR '':'' # join '':'' (map escape_component (d # cs))) = c # d # cs"
    using Cons.IH [of d] by (subst components.simps) (simp add: read_escaped)
  then show ?case by simp
qed

lemma plain_component: "CHR '':'' \<notin> set s \<Longrightarrow> CHR 0x5C \<notin> set s \<Longrightarrow> escape_component s = s"
  by (induction s) (auto simp: escape_component_Cons)

lemma id_components:
  "components (conversation_session_id r) = [''chat'', cv_channel r, cv_conversation r, thread_of r]"
  "components (user_session_id a b) = [''chat-user'', a, b]"
  "components (ephemeral_session_id r x) = [''chat'', cv_channel r, cv_conversation r, thread_of r, x]"
  using components_join [of "''chat''" "[cv_channel r, cv_conversation r, thread_of r]"] components_join [of "''chat-user''" "[a, b]"]
    components_join [of "''chat''" "[cv_channel r, cv_conversation r, thread_of r, x]"]
  by (simp_all add: conversation_session_id_def user_session_id_def ephemeral_session_id_def plain_component)

section \<open>The registry and the session context\<close>

definition register_channel :: "string \<Rightarrow> 'c \<Rightarrow> (string, 'c) jmap \<Rightarrow> string + (string, 'c) jmap" where
  "register_channel i c m =
     (if jm_has i m then Inl (''channel id '' @ [CHR 0x27] @ i @ [CHR 0x27] @ '' is already registered'') else Inr (jm_set i c m))"

definition unregister_channel :: "string \<Rightarrow> (string, 'c) jmap \<Rightarrow> (string, 'c) jmap" where
  "unregister_channel i m = jm_del i m"

definition get_channel :: "string \<Rightarrow> (string, 'c) jmap \<Rightarrow> 'c option" where
  "get_channel i m = jm_get i m"

definition list_channels :: "(string, 'c) jmap \<Rightarrow> 'c list" where
  "list_channels m = map snd m"

record channel_principal =
  cp_principal :: event_principal
  cp_channel :: string
  cp_user :: string
  cp_scopes :: "string list"
  cp_verified :: bool

record session_channel_context =
  sx_origin :: conversation_ref
  sx_principal :: "channel_principal option"
  sx_last_inbound :: "(conversation_ref \<times> string) option"

type_synonym context_store = "(string, session_channel_context) jmap"

definition set_context :: "string \<Rightarrow> session_channel_context \<Rightarrow> context_store \<Rightarrow> context_store" where
  "set_context i c m = jm_set i c m"

definition get_context :: "string \<Rightarrow> context_store \<Rightarrow> session_channel_context option" where
  "get_context i m = jm_get i m"

definition clear_context :: "string \<Rightarrow> context_store \<Rightarrow> context_store" where
  "clear_context i m = jm_del i m"

definition list_contexts :: "context_store \<Rightarrow> (string \<times> session_channel_context) list" where
  "list_contexts m = m"

section \<open>The inbound bridge\<close>

record inbound_route =
  rt_event :: event_kind
  rt_skill :: string
  rt_session_key :: "string option"

definition extract_channel_id :: "agent_event \<Rightarrow> string option" where
  "extract_channel_id e =
     (case ev_source e of
        STelegram c _ _ \<Rightarrow> Some c
      | SDiscord c _ _ _ \<Rightarrow> Some c
      | SSlack c _ _ _ _ \<Rightarrow> Some c
      | SWhatsapp c _ _ _ \<Rightarrow> Some c
      | _ \<Rightarrow> None)"

definition base_payload :: "js \<Rightarrow> (string \<times> js) list" where
  "base_payload v = (case v of JObj ps \<Rightarrow> ps | JArr xs \<Rightarrow> map (\<lambda>(i, x). (decimal i, x)) (enumerate 0 xs) | _ \<Rightarrow> [])"

definition skill_event :: "string \<Rightarrow> inbound_route \<Rightarrow> agent_event \<Rightarrow> agent_event" where
  "skill_event i rt e =
     \<lparr>ev_id = i, ev_source = ev_source e, ev_target = TSkill (rt_skill rt) (base_payload (ev_payload e)) (rt_session_key rt),
      ev_kind = ev_kind e, ev_timestamp = ev_timestamp e, ev_payload = ev_payload e, ev_auth = ev_auth e,
      ev_meta = Some ((case ev_meta e of None \<Rightarrow> empty_meta | Some m \<Rightarrow> m)\<lparr>caused_by := Some (ev_id e)\<rparr>)\<rparr>"

fun publish_routes :: "(agent_event \<Rightarrow> 'w \<Rightarrow> bool \<times> 'w) \<Rightarrow> (nat \<Rightarrow> string) \<Rightarrow> agent_event \<Rightarrow> inbound_route list \<Rightarrow> nat \<times> 'w \<Rightarrow> nat \<times> 'w" where
  "publish_routes publish fresh e [] s = s"
| "publish_routes publish fresh e (rt # rts) (n, w) =
     (if rt_event rt \<noteq> ev_kind e then publish_routes publish fresh e rts (n, w)
      else (case publish (skill_event (fresh (length rts)) rt e) w of
              (ok, w') \<Rightarrow> publish_routes publish fresh e rts (if ok then n + 1 else n, w')))"

text \<open>The subscriber of the bridge: the number of events emitted so far and the state of the bus.\<close>

definition bridge_inbound ::
    "(agent_event \<Rightarrow> 'w \<Rightarrow> bool \<times> 'w) \<Rightarrow> (string, inbound_route list) jmap \<Rightarrow> (nat \<Rightarrow> string) \<Rightarrow> agent_event \<Rightarrow> nat \<times> 'w \<Rightarrow> nat \<times> 'w" where
  "bridge_inbound publish routes fresh e s =
     (if target_type (ev_target e) \<noteq> ''session'' then s
      else case extract_channel_id e of
          None \<Rightarrow> s
        | Some c \<Rightarrow> (case jm_get c routes of None \<Rightarrow> s | Some rts \<Rightarrow> publish_routes publish fresh e rts s))"

text \<open>A bridged event is not bridged again.\<close>

lemma bridge_ignores_own: "bridge_inbound publish routes fresh (skill_event i rt e) s = s"
  by (simp add: bridge_inbound_def skill_event_def)

section \<open>Properties\<close>


lemma lookup_by_key:
  assumes "ic_ok c" "t' - t \<le> ic_ttl c" "st \<noteq> []" "k \<noteq> []"
  shows "fst (ic_lookup t' j (Some k) st (ic_remember i (Some k) st t c)) \<noteq> None"
proof -
  have ok: "ic_ok (ic_write i t c)" using assms(1) by (rule inv_intros)
  have "fst (ic_read t' (idempotency_cache_key st k) (ic_write (idempotency_cache_key st k) t (ic_write i t c))) = Some t"
    using get_ic_write(1) [OF ok, of "idempotency_cache_key st k" t] assms(2) by (simp add: fst_ic_read)
  then show ?thesis using assms(3,4) by (auto simp: lookup_none_iff ic_remember_def)
qed

text \<open>The bridge copies the idempotency key of an event to the skill event it publishes, so once the dispatcher has seen the
  original, it takes the skill event for a duplicate and no skill runs.\<close>

lemma bridged_event_is_duplicate:
  assumes "dispatcher_ok d" "\<not> hooks_present env" "fst (dedup_check env t1 e d) = None"
    and "ev_idem_key e = Some k" "k \<noteq> []" "t2 - t1 \<le> ic_ttl (d_idem d)"
    and "d1 = snd (handle_internal env t1 recent e d)"
  shows "\<exists>ts ic. handle_internal env t2 recent' (skill_event i rt e) d1 = (Inr (Duplicate ts i), d1\<lparr>d_idem := ic\<rparr>)"
proof -
  obtain d0 where d0: "dedup_check env t1 e d = (None, d0)" using assms(3) by (metis prod.collapse)
  let ?c = "dedup_commit t1 e d0" and ?e = "skill_event i rt e"
  have d1: "d1 = snd (admit env t1 recent e ?c)"
    using assms(2,7) d0 by (simp add: handle_internal_def dispatch_event_def)
  have idem: "d_idem d1 = ic_remember (ev_id e) (Some k) (source_type (ev_source e)) t1 (d_idem d0)"
    using admit_keeps [of env t1 recent e ?c "ev_id e"] assms(4) by (simp add: d1 idem_after_commit)
  have e: "ev_id ?e = i" "ev_idem_key ?e = Some k" "ev_source ?e = ev_source e"
    using assms(4) by (auto simp: skill_event_def meta_get_def split: option.splits)
  have "ic_ok (d_idem d0)" "t2 - t1 \<le> ic_ttl (d_idem d0)"
    using assms(1,6) check_none(2,3) [OF d0] by (simp_all add: dispatcher_ok_def)
  then have "fst (ic_lookup t2 (ev_id ?e) (ev_idem_key ?e) (source_type (ev_source ?e)) (d_idem d1)) \<noteq> None"
    unfolding idem e using assms(5) by (intro lookup_by_key) simp_all
  then obtain ts ic where "dedup_check env t2 ?e d1 = (Some (Duplicate ts (ev_id ?e)), d1\<lparr>d_idem := ic\<rparr>)"
    using check_duplicate [of t2 ?e d1 env] by blast
  then have "handle_internal env t2 recent' ?e d1 = (Inr (Duplicate ts i), d1\<lparr>d_idem := ic\<rparr>)"
    using assms(2) e by (simp add: handle_internal_def dispatch_event_def fire_after_def)
  then show ?thesis by blast
qed

end
