(* ===== verification/Cron.thy ===== *)
theory Cron imports Framing Semver JsonPath begin

text \<open>
  Cron triggers, \<^verbatim>\<open>core/src/events/sources/cron.ts\<close>, with the target check of \<^verbatim>\<open>core/src/events/target-validate.ts\<close>: the parser of
  schedules, the computation of the next fire, and the source that arms its timer. The calendar is that of JavaScript's \<^verbatim>\<open>Date\<close>: the
  Gregorian one over days since 1970. The offset of a time zone in minutes at a moment is the argument \<open>off\<close>; the keys that an
  alias table inherits from its prototype are left out.

  Shown: the calendar is the Gregorian one; a printed field parses back to the values it names; at a constant offset the
  next fire is the first matching minute within four years, if there is one; when clocks go forward over a matching minute
  the next fire lies in the past; a fire more than 24.8 days away happens at once; and a source has one timer unless it is started again while it fires.
\<close>

section \<open>The calendar\<close>

text \<open>The day number of the first of January, as ECMAScript defines it.\<close>

definition day_from_year :: "int \<Rightarrow> int" where
  "day_from_year y = 365 * (y - 1970) + (y - 1969) div 4 - (y - 1901) div 100 + (y - 1601) div 400"

definition leap_year :: "int \<Rightarrow> bool" where
  "leap_year y \<longleftrightarrow> y mod 4 = 0 \<and> (y mod 100 \<noteq> 0 \<or> y mod 400 = 0)"

definition month_lengths :: "bool \<Rightarrow> int list" where
  "month_lengths leap = [31, if leap then 29 else 28, 31, 30, 31, 30, 31, 31, 30, 31, 30, 31]"

text \<open>Year and day of the year of a day number, by cycles of 400, 100, 4 and 1 years.\<close>

definition year_and_day :: "int \<Rightarrow> int \<times> int" where
  "year_and_day d =
     (let n = d + 719162; a = n div 146097; r = n mod 146097;
          b = min 3 (r div 36524); s = r - 36524 * b; c = s div 1461; t = s mod 1461; e = min 3 (t div 365)
      in (400 * a + 100 * b + 4 * c + e + 1, t - 365 * e))"

fun month_and_day :: "int list \<Rightarrow> int \<Rightarrow> int \<times> int" where
  "month_and_day [] d = (1, d + 1)"
| "month_and_day (l # ls) d = (if d < l then (1, d + 1) else (case month_and_day ls (d - l) of (m, k) \<Rightarrow> (m + 1, k)))"

definition civil :: "int \<Rightarrow> int \<times> int \<times> int" where
  "civil d = (case year_and_day d of (y, k) \<Rightarrow> (y, month_and_day (month_lengths (leap_year y)) k))"

text \<open>The day number of a date.\<close>

definition day_number :: "int \<Rightarrow> int \<Rightarrow> int \<Rightarrow> int" where
  "day_number y m d = day_from_year y + sum_list (take (nat (m - 1)) (month_lengths (leap_year y))) + d - 1"

lemma div_value: "x = n * q + r \<Longrightarrow> 0 \<le> r \<Longrightarrow> r < n \<Longrightarrow> x div n = (q::int)"
  by (simp add: int_div_pos_eq)

lemma dvd_value: "x = n * q + r \<Longrightarrow> 0 \<le> r \<Longrightarrow> r < n \<Longrightarrow> x mod n = 0 \<longleftrightarrow> r = (0::int)"
  by (simp add: int_mod_pos_eq)

lemma cycles:
  assumes "0 \<le> b" "b \<le> 3" "0 \<le> c" "c \<le> 24" "0 \<le> e" "e \<le> 3" "y = 400 * a + 100 * b + 4 * c + e + 1"
  shows "day_from_year y = 146097 * a + 36524 * b + 1461 * c + 365 * e - 719162"
    and "leap_year y \<longleftrightarrow> e = 3 \<and> (c \<noteq> 24 \<or> b = 3)"
proof -
  have y: "y - 1969 = 4 * (100 * a + 25 * b + c - 492) + e" "y - 1901 = 100 * (4 * a + b - 19) + (4 * c + e)"
      "y - 1601 = 400 * (a - 4) + (100 * b + 4 * c + e)"
    using assms(7) by simp_all
  have "(y - 1969) div 4 = 100 * a + 25 * b + c - 492" using y(1) assms(5,6) by (intro div_value [where r = e]) simp_all
  moreover have "(y - 1901) div 100 = 4 * a + b - 19" using y(2) assms(3-6) by (intro div_value [where r = "4 * c + e"]) simp_all
  moreover have "(y - 1601) div 400 = a - 4" using y(3) assms(1-6) by (intro div_value [where r = "100 * b + 4 * c + e"]) simp_all
  ultimately show "day_from_year y = 146097 * a + 36524 * b + 1461 * c + 365 * e - 719162"
    unfolding day_from_year_def assms(7) by simp
  have "y mod 4 = 0 \<longleftrightarrow> e = 3"
  proof (cases "e = 3")
    case True
    then have "y = 4 * (100 * a + 25 * b + c + 1) + 0" using assms(7) by simp
    with True show ?thesis by (simp add: dvd_value)
  next
    case False
    then have "y = 4 * (100 * a + 25 * b + c) + (e + 1)" using assms(7) by simp
    then have "y mod 4 = 0 \<longleftrightarrow> e + 1 = 0" using assms(5,6) False by (intro dvd_value [where q = "100 * a + 25 * b + c"]) simp_all
    with False assms(5) show ?thesis by simp
  qed
  moreover have "y mod 100 = 0 \<longleftrightarrow> e = 3 \<and> c = 24"
  proof (cases "e = 3 \<and> c = 24")
    case True
    then have "y = 100 * (4 * a + b + 1) + 0" using assms(7) by simp
    with True show ?thesis by (simp add: dvd_value)
  next
    case False
    then have "c \<le> 23 \<or> e \<le> 2" using assms(4,6) by linarith
    then have "4 * c + e + 1 < 100" using assms(4,6) by linarith
    moreover have "y = 100 * (4 * a + b) + (4 * c + e + 1)" using assms(7) by simp
    ultimately
    have "y mod 100 = 0 \<longleftrightarrow> 4 * c + e + 1 = 0" using assms(3,5) by (intro dvd_value [where q = "4 * a + b"]) simp_all
    with False assms(3,5) show ?thesis by simp
  qed
  moreover have "y mod 400 = 0 \<longleftrightarrow> e = 3 \<and> c = 24 \<and> b = 3"
  proof (cases "e = 3 \<and> c = 24 \<and> b = 3")
    case True
    then have "y = 400 * (a + 1) + 0" using assms(7) by simp
    with True show ?thesis by (simp add: dvd_value)
  next
    case False
    then have "c \<le> 23 \<or> e \<le> 2 \<or> b \<le> 2" using assms(2,4,6) by linarith
    then have "100 * b + 4 * c + e + 1 < 400" using assms(2,4,6) by linarith
    moreover have "y = 400 * a + (100 * b + 4 * c + e + 1)" using assms(7) by simp
    ultimately have "y mod 400 = 0 \<longleftrightarrow> 100 * b + 4 * c + e + 1 = 0" using assms(1,3,5) by (intro dvd_value [where q = a]) simp_all
    with False assms(1,3,5) show ?thesis by simp
  qed
  ultimately show "leap_year y \<longleftrightarrow> e = 3 \<and> (c \<noteq> 24 \<or> b = 3)" unfolding leap_year_def by (simp only:) blast
qed

text \<open>A quotient that is capped at 3, for a cycle that may be longer by one.\<close>

lemma capped:
  fixes r m :: int
  assumes "0 \<le> r" "0 < m" "r \<le> 4 * m" "q = min 3 (r div m)"
  shows "0 \<le> q \<and> q \<le> 3 \<and> 0 \<le> r - m * q \<and> (r - m * q < m \<or> q = 3 \<and> r = 4 * m)"
proof (cases "r div m \<le> 3")
  case True
  then have "r - m * q = r mod m" using assms(4) by (simp add: minus_mult_div_eq_mod)
  moreover have "0 \<le> r div m" using assms(1,2) by (simp add: pos_imp_zdiv_nonneg_iff)
  ultimately show ?thesis using True assms(2,4) by simp
next
  case False
  then have q: "q = 3" using assms(4) by simp
  have "m * 4 \<le> m * (r div m)" using False assms(2) by (intro mult_left_mono) simp_all
  moreover have "m * (r div m) \<le> r" using assms(2) by (metis mult.commute div_times_less_eq_dividend add.commute le_add_same_cancel2 mult_div_mod_eq pos_mod_sign)
  ultimately have "m * 4 \<le> r" by (rule order_trans)
  with q assms(2,3) show ?thesis by auto
qed

lemma year_and_day_ok:
  assumes "year_and_day d = (y, k)"
  shows "day_from_year y + k = d" "0 \<le> k" "k < (if leap_year y then 366 else 365)"
proof -
  define a where "a = (d + 719162) div 146097"
  define r where "r = (d + 719162) mod 146097"
  define b where "b = min 3 (r div 36524)"
  define s where "s = r - 36524 * b"
  define c where "c = s div 1461"
  define t where "t = s mod 1461"
  define e where "e = min 3 (t div 365)"
  have y: "y = 400 * a + 100 * b + 4 * c + e + 1" "k = t - 365 * e"
    using assms unfolding year_and_day_def Let_def a_def r_def b_def s_def c_def t_def e_def by simp_all
  have r: "0 \<le> r" "r < 146097" "d + 719162 = 146097 * a + r" by (simp_all add: r_def a_def)
  have b: "0 \<le> b" "b \<le> 3" "0 \<le> s" "s < 36524 \<or> b = 3 \<and> s = 36524"
    using capped [of r 36524 b] r(1,2) by (auto simp: b_def s_def)
  have c: "s = 1461 * c + t" "0 \<le> t" "t < 1461" by (simp_all add: c_def t_def)
  have "s \<le> 36524" using b(4) by linarith
  then have "c \<le> 24" "0 \<le> c" using c b(3) by linarith+
  moreover have "c = 24 \<Longrightarrow> b = 3 \<or> t < 1460" using c(1) b(4) by linarith
  ultimately have c': "0 \<le> c" "c \<le> 24" "c = 24 \<longrightarrow> b = 3 \<or> t < 1460" by simp_all
  have e: "0 \<le> e" "e \<le> 3" "0 \<le> t - 365 * e" "t - 365 * e < 365 \<or> e = 3 \<and> t = 1460"
    using capped [of t 365 e] c(2,3) by (auto simp: e_def)
  note f = cycles [OF b(1,2) c'(1,2) e(1,2) y(1)]
  show "day_from_year y + k = d" using f(1) y(2) r(3) c(1) s_def by linarith
  show "0 \<le> k" using y(2) e(3) by simp
  show "k < (if leap_year y then 366 else 365)" using y(2) e(4) c'(3) f(2) by auto
qed

lemma month_and_day_ok:
  assumes "list_all (\<lambda>l. 0 < l) ls" "0 \<le> d" "d < sum_list ls" "month_and_day ls d = (m, k)"
  shows "1 \<le> m \<and> m \<le> int (length ls) \<and> 1 \<le> k \<and> k \<le> ls ! nat (m - 1) \<and> sum_list (take (nat (m - 1)) ls) + k - 1 = d"
  using assms
proof (induction ls arbitrary: d m k)
  case (Cons l ls)
  show ?case
  proof (cases "d < l")
    case True
    with Cons.prems show ?thesis by simp
  next
    case False
    obtain m' where m: "month_and_day ls (d - l) = (m', k)" "m = m' + 1"
      using Cons.prems(4) False by (simp split: prod.splits)
    with Cons.IH [of "d - l" m' k] Cons.prems(1,3) False
    have h: "1 \<le> m'" "m' \<le> int (length ls)" "1 \<le> k" "k \<le> ls ! nat (m' - 1)" "sum_list (take (nat (m' - 1)) ls) + k - 1 = d - l"
      by simp_all
    have "nat (m - 1) = Suc (nat (m' - 1))" using h(1) m(2) by simp
    with h m(2) show ?thesis by simp
  qed
qed simp

text \<open>The year, month and day that are read off a moment are those of the Gregorian calendar: the month and the day exist in that
  year, and they are the date whose day number it is.\<close>

lemma civil_is_calendar:
  "case civil n of (y, m, d) \<Rightarrow>
     1 \<le> m \<and> m \<le> 12 \<and> 1 \<le> d \<and> d \<le> month_lengths (leap_year y) ! nat (m - 1) \<and> day_number y m d = n"
proof -
  obtain y k where yk: "year_and_day n = (y, k)" by (cases "year_and_day n")
  note ok = year_and_day_ok [OF yk]
  let ?ls = "month_lengths (leap_year y)"
  obtain m d where md: "month_and_day ?ls k = (m, d)" by (cases "month_and_day ?ls k")
  have l: "list_all (\<lambda>l. 0 < l) ?ls" "sum_list ?ls = (if leap_year y then 366 else 365)" "length ?ls = 12"
    by (simp_all add: month_lengths_def)
  have "1 \<le> m \<and> m \<le> int (length ?ls) \<and> 1 \<le> d \<and> d \<le> ?ls ! nat (m - 1) \<and> sum_list (take (nat (m - 1)) ?ls) + d - 1 = k"
    using month_and_day_ok [OF l(1) ok(2) _ md] ok(3) l(2) by simp
  moreover have "civil n = (y, m, d)" by (simp add: civil_def yk md)
  ultimately show ?thesis using ok(1) l(3) by (simp add: day_number_def)
qed

section \<open>Schedules\<close>

datatype cron_error =
    Not_object
  | No_id
  | No_schedule
  | Bad_timezone
  | No_target
  | Target_kind string
  | No_target_type
  | Unknown_target string
  | Bad_duration string
  | Not_positive string
  | Field_count nat
  | Invalid_step "string option" string
  | Invalid_token string
  | Out_of_range int int int
  | Bad_range int int string
  | No_values string
  | No_fire

text \<open>\<^verbatim>\<open>Number.parseInt(s, 10)\<close>; \<open>None\<close> is \<^verbatim>\<open>NaN\<close>.\<close>

definition parse_int :: "string \<Rightarrow> int option" where
  "parse_int s0 =
     (let s = dropWhile is_space s0;
          (neg, r) = (case s of c # cs \<Rightarrow> if c = CHR ''-'' then (True, cs) else if c = CHR ''+'' then (False, cs) else (False, s) | [] \<Rightarrow> (False, s));
          ds = takeWhile is_digit r
      in if ds = [] then None else Some (if neg then - int (parse_nat ds) else int (parse_nat ds)))"

definition is_duration :: "string \<Rightarrow> bool" where
  "is_duration s = is_prefix_of ''pt'' (map lower (trim s))"

text \<open>An optional part of a duration: a number and its unit.\<close>

definition scan_number :: "string \<Rightarrow> (rat \<times> string) option" where
  "scan_number s =
     (let ip = takeWhile is_digit s; r = dropWhile is_digit s
      in if ip = [] then None
         else case r of
             c # cs \<Rightarrow>
               (let fp = takeWhile is_digit cs
                in if c = CHR ''.'' \<and> fp \<noteq> [] then Some (of_nat (parse_nat (ip @ fp)) / 10 ^ length fp, dropWhile is_digit cs)
                   else Some (of_nat (parse_nat ip), r))
           | [] \<Rightarrow> Some (of_nat (parse_nat ip), r))"

definition duration_part :: "char \<Rightarrow> string \<Rightarrow> rat option \<times> string" where
  "duration_part u s =
     (case scan_number s of
        Some (x, c # cs) \<Rightarrow> if lower c = u then (Some x, cs) else (None, s)
      | _ \<Rightarrow> (None, s))"

definition parse_duration :: "string \<Rightarrow> cron_error + int" where
  "parse_duration s =
     (let t = trim s
      in if \<not> is_prefix_of ''pt'' (map lower t) then Inl (Bad_duration s)
         else case duration_part (CHR ''h'') (drop 2 t) of
             (h, r1) \<Rightarrow>
               (case duration_part (CHR ''m'') r1 of
                  (m, r2) \<Rightarrow>
                    (case duration_part (CHR ''s'') r2 of
                       (sec, r3) \<Rightarrow>
                         if r3 \<noteq> [] \<or> h = None \<and> m = None \<and> sec = None then Inl (Bad_duration s)
                         else let v = (\<lambda>x. case x of None \<Rightarrow> 0 | Some y \<Rightarrow> y);
                                  ms = \<lfloor>v h * 3600000 + v m * 60000 + v sec * 1000 + 1 / 2\<rfloor>
                              in if ms \<le> 0 then Inl (Not_positive s) else Inr ms)))"

definition month_names :: "(string \<times> int) list" where
  "month_names = [(''jan'', 1), (''feb'', 2), (''mar'', 3), (''apr'', 4), (''may'', 5), (''jun'', 6), (''jul'', 7), (''aug'', 8),
     (''sep'', 9), (''oct'', 10), (''nov'', 11), (''dec'', 12)]"

definition day_names :: "(string \<times> int) list" where
  "day_names = [(''sun'', 0), (''mon'', 1), (''tue'', 2), (''wed'', 3), (''thu'', 4), (''fri'', 5), (''sat'', 6)]"

record field_spec =
  fs_lo :: int
  fs_hi :: int
  fs_aliases :: "(string \<times> int) list"
  fs_seven :: bool

definition parse_one :: "field_spec \<Rightarrow> string \<Rightarrow> cron_error + int" where
  "parse_one f raw =
     (case map_of (fs_aliases f) (map lower raw) of
        Some n \<Rightarrow> Inr n
      | None \<Rightarrow>
          (case parse_int raw of
             None \<Rightarrow> Inl (Invalid_token raw)
           | Some n \<Rightarrow>
               if fs_seven f \<and> n = 7 then Inr 0
               else if n < fs_lo f \<or> n > fs_hi f then Inl (Out_of_range n (fs_lo f) (fs_hi f))
               else Inr n))"

text \<open>\<^verbatim>\<open>for (let v = lo; v <= hi; v += step)\<close>, for a positive step.\<close>

function range_values :: "int \<Rightarrow> int \<Rightarrow> int \<Rightarrow> int list" where
  "range_values v hi step = (if v > hi \<or> step \<le> 0 then [] else v # range_values (v + step) hi step)"
  by pat_completeness auto
termination by (relation "measure (\<lambda>(v, hi, step). nat (hi + 1 - v))") auto

declare range_values.simps [simp del]

definition split_at :: "char \<Rightarrow> string \<Rightarrow> string \<times> string option" where
  "split_at c s =
     (case dropWhile (\<lambda>x. x \<noteq> c) s of [] \<Rightarrow> (s, None) | x # r \<Rightarrow> (takeWhile (\<lambda>x. x \<noteq> c) s, Some r))"

definition parse_piece :: "field_spec \<Rightarrow> string \<Rightarrow> string \<Rightarrow> cron_error + int list" where
  "parse_piece f s piece =
     (case split_at (CHR ''/'') piece of
        (rest, step_str) \<Rightarrow>
          (case (case step_str of None \<Rightarrow> Some 1 | Some t \<Rightarrow> parse_int t) of
             None \<Rightarrow> Inl (Invalid_step step_str s)
           | Some step \<Rightarrow>
               if step \<le> 0 then Inl (Invalid_step step_str s)
               else bind_err
                 (if rest = ''*'' \<or> rest = [] then Inr (fs_lo f, fs_hi f)
                  else case split_at (CHR ''-'') rest of
                      (a, Some b) \<Rightarrow> bind_err (parse_one f a) (\<lambda>lo. bind_err (parse_one f b) (\<lambda>hi. Inr (lo, hi)))
                    | (_, None) \<Rightarrow> bind_err (parse_one f rest) (\<lambda>lo. Inr (lo, if step_str = None then lo else fs_hi f)))
                 (\<lambda>(lo, hi). if lo > hi then Inl (Bad_range lo hi s) else Inr (range_values lo hi step))))"

fun parse_pieces :: "field_spec \<Rightarrow> string \<Rightarrow> string list \<Rightarrow> cron_error + int list" where
  "parse_pieces f s [] = Inr []"
| "parse_pieces f s (p # ps) = bind_err (parse_piece f s p) (\<lambda>vs. bind_err (parse_pieces f s ps) (\<lambda>ws. Inr (vs @ ws)))"

definition parse_field :: "field_spec \<Rightarrow> string \<Rightarrow> cron_error + int set" where
  "parse_field f s =
     bind_err (parse_pieces f s (split_on (CHR '','') s)) (\<lambda>vs. if vs = [] then Inl (No_values s) else Inr (set vs))"

record cron_fields =
  cf_minute :: "int set"
  cf_hour :: "int set"
  cf_dom :: "int set"
  cf_month :: "int set"
  cf_dow :: "int set"
  cf_dom_restricted :: bool
  cf_dow_restricted :: bool

definition minute_field :: field_spec where "minute_field = \<lparr>fs_lo = 0, fs_hi = 59, fs_aliases = [], fs_seven = False\<rparr>"
definition hour_field :: field_spec where "hour_field = \<lparr>fs_lo = 0, fs_hi = 23, fs_aliases = [], fs_seven = False\<rparr>"
definition dom_field :: field_spec where "dom_field = \<lparr>fs_lo = 1, fs_hi = 31, fs_aliases = [], fs_seven = False\<rparr>"
definition month_field :: field_spec where "month_field = \<lparr>fs_lo = 1, fs_hi = 12, fs_aliases = month_names, fs_seven = False\<rparr>"
definition dow_field :: field_spec where "dow_field = \<lparr>fs_lo = 0, fs_hi = 6, fs_aliases = day_names, fs_seven = True\<rparr>"

definition parse_cron :: "string \<Rightarrow> cron_error + cron_fields" where
  "parse_cron expr =
     (case split_ws (trim expr) of
        [mi, ho, dm, mo, dw] \<Rightarrow>
          bind_err (parse_field minute_field mi) (\<lambda>a. bind_err (parse_field hour_field ho) (\<lambda>b.
          bind_err (parse_field dom_field dm) (\<lambda>c. bind_err (parse_field month_field mo) (\<lambda>d.
          bind_err (parse_field dow_field dw) (\<lambda>e.
            Inr \<lparr>cf_minute = a, cf_hour = b, cf_dom = c, cf_month = d, cf_dow = e, cf_dom_restricted = dm \<noteq> ''*'',
                 cf_dow_restricted = dw \<noteq> ''*''\<rparr>)))))
      | ps \<Rightarrow> Inl (Field_count (length ps)))"

definition validate_schedule :: "string \<Rightarrow> cron_error option" where
  "validate_schedule s =
     (if is_duration s then (case parse_duration s of Inl e \<Rightarrow> Some e | Inr ms \<Rightarrow> None)
      else (case parse_cron s of Inl e \<Rightarrow> Some e | Inr f \<Rightarrow> None))"

definition known_target_types :: "string list" where
  "known_target_types = [''session'', ''new-session'', ''skill'', ''sub-agent'', ''broadcast'']"

definition assert_event_target :: "js \<Rightarrow> cron_error option" where
  "assert_event_target v =
     (if \<not> is_object v then Some No_target
      else case prop_of ''type'' v of
          JStr (c # cs) \<Rightarrow> if c # cs \<in> set known_target_types then None else Some (Unknown_target (c # cs))
        | _ \<Rightarrow> (case prop_of ''kind'' v of JStr k \<Rightarrow> Some (Target_kind k) | _ \<Rightarrow> Some No_target_type))"

definition assert_trigger_config :: "js \<Rightarrow> cron_error option" where
  "assert_trigger_config v =
     (if \<not> is_object v then Some Not_object
      else case prop_of ''id'' v of
          JStr (i # is) \<Rightarrow>
            (case prop_of ''schedule'' v of
               JStr (c # cs) \<Rightarrow>
                 if prop_of ''timezone'' v \<noteq> JUndef \<and> (\<forall>z. prop_of ''timezone'' v \<noteq> JStr z) then Some Bad_timezone
                 else (case assert_event_target (prop_of ''target'' v) of Some e \<Rightarrow> Some e | None \<Rightarrow> validate_schedule (c # cs))
             | _ \<Rightarrow> Some No_schedule)
        | _ \<Rightarrow> Some No_id)"

section \<open>The next fire\<close>

definition minute_of :: "int \<Rightarrow> int" where "minute_of ms = ms div 60000 mod 60"
definition hour_of :: "int \<Rightarrow> int" where "hour_of ms = ms div 3600000 mod 24"
definition day_of :: "int \<Rightarrow> int" where "day_of ms = ms div 86400000"

definition weekday_of :: "int \<Rightarrow> int" where "weekday_of ms = (day_of ms + 4) mod 7"

definition matches_day :: "cron_fields \<Rightarrow> int \<Rightarrow> int \<Rightarrow> bool" where
  "matches_day f dy wd =
     (if cf_dom_restricted f \<and> cf_dow_restricted f then dy \<in> cf_dom f \<or> wd \<in> cf_dow f
      else if cf_dom_restricted f then dy \<in> cf_dom f
      else if cf_dow_restricted f then wd \<in> cf_dow f
      else True)"

definition cron_matches :: "cron_fields \<Rightarrow> int \<Rightarrow> bool" where
  "cron_matches f ms =
     (case civil (day_of ms) of
        (y, m, d) \<Rightarrow>
          minute_of ms \<in> cf_minute f \<and> hour_of ms \<in> cf_hour f \<and> m \<in> cf_month f \<and> matches_day f d (weekday_of ms))"

text \<open>The operator \<^verbatim>\<open>%\<close>, and the loop over the minutes.\<close>

definition js_rem :: "int \<Rightarrow> int \<Rightarrow> int" where
  "js_rem a b = (if 0 \<le> a then a mod b else - ((- a) mod b))"

fun walk_minutes :: "nat \<Rightarrow> cron_fields \<Rightarrow> int \<Rightarrow> int option" where
  "walk_minutes 0 f l = None"
| "walk_minutes (Suc n) f l = (if cron_matches f l then Some l else walk_minutes n f (l + 60000))"

definition max_minutes :: nat where "max_minutes = 4 * 366 * 24 * 60"

definition first_minute :: "(int \<Rightarrow> int) \<Rightarrow> int \<Rightarrow> int" where
  "first_minute off after = (let l = after + off after * 60000 in l - js_rem l 60000 + 60000)"

definition next_cron_fire :: "cron_fields \<Rightarrow> (int \<Rightarrow> int) \<Rightarrow> int \<Rightarrow> cron_error + int" where
  "next_cron_fire f off after =
     (case walk_minutes max_minutes f (first_minute off after) of
        None \<Rightarrow> Inl No_fire
      | Some l \<Rightarrow> Inr (l - off (l - off after * 60000) * 60000))"

definition compute_next_fire :: "string \<Rightarrow> (int \<Rightarrow> int) \<Rightarrow> int \<Rightarrow> cron_error + int" where
  "compute_next_fire sch off after =
     (if is_duration sch then bind_err (parse_duration sch) (\<lambda>ms. Inr (after + ms))
      else bind_err (parse_cron sch) (\<lambda>f. next_cron_fire f off after))"

lemma walk_found:
  "walk_minutes n f l = Some m \<Longrightarrow> \<exists>k < n. m = l + 60000 * int k \<and> cron_matches f m \<and> (\<forall>j < k. \<not> cron_matches f (l + 60000 * int j))"
proof (induction n arbitrary: l)
  case (Suc n)
  show ?case
  proof (cases "cron_matches f l")
    case True
    with Suc.prems show ?thesis by (intro exI [of _ 0]) simp
  next
    case False
    with Suc obtain k where k: "k < n" "m = l + 60000 + 60000 * int k" "cron_matches f m"
        "\<forall>j < k. \<not> cron_matches f (l + 60000 + 60000 * int j)"
      by (metis walk_minutes.simps(2))
    have "\<not> cron_matches f (l + 60000 * int j)" if "j < Suc k" for j
      using False k(4) that by (cases j) (simp_all add: algebra_simps)
    with k show ?thesis by (intro exI [of _ "Suc k"]) (simp add: algebra_simps)
  qed
qed simp

lemma walk_none: "walk_minutes n f l = None \<Longrightarrow> j < n \<Longrightarrow> \<not> cron_matches f (l + 60000 * int j)"
proof (induction n arbitrary: l j)
  case (Suc n)
  then have "\<not> cron_matches f l" "walk_minutes n f (l + 60000) = None" by (simp_all split: if_splits)
  with Suc.IH [of "l + 60000"] Suc.prems(2) show ?case by (cases j) (simp_all add: algebra_simps)
qed simp

text \<open>The whole minutes after a moment are those of the walk.\<close>

lemma minutes_after:
  assumes "0 \<le> l" "l < u" "u mod 60000 = 0"
  shows "\<exists>j. u = l - js_rem l 60000 + 60000 + 60000 * int j"
proof -
  obtain q where q: "u = 60000 * q" using assms(3) by (metis mult_div_mod_eq add_0_right)
  have l: "l - js_rem l 60000 = 60000 * (l div 60000)" using assms(1) by (simp add: js_rem_def minus_mod_eq_mult_div)
  have "l div 60000 < q"
  proof -
    have "l < 60000 * q" using assms(2) q by simp
    then show ?thesis by (simp add: div_less_iff_less_mult mult.commute)
  qed
  then have "u = l - js_rem l 60000 + 60000 + 60000 * int (nat (q - l div 60000 - 1))"
    by (simp add: l q algebra_simps)
  then show ?thesis by blast
qed


lemma walk_first:
  "k < n \<Longrightarrow> cron_matches f (l + 60000 * int k) \<Longrightarrow> (\<And>j. j < k \<Longrightarrow> \<not> cron_matches f (l + 60000 * int j)) \<Longrightarrow>
   walk_minutes n f l = Some (l + 60000 * int k)"
proof (induction n arbitrary: l k)
  case (Suc n)
  show ?case
  proof (cases k)
    case 0
    with Suc.prems(2) show ?thesis by simp
  next
    case (Suc j)
    have "\<not> cron_matches f l" using Suc.prems(3) [of 0] Suc by simp
    moreover have "walk_minutes n f (l + 60000) = Some (l + 60000 + 60000 * int j)"
    proof (rule Suc.IH)
      show "j < n" using Suc.prems(1) Suc by simp
      show "cron_matches f (l + 60000 + 60000 * int j)" using Suc.prems(2) Suc by (simp add: algebra_simps)
      show "\<not> cron_matches f (l + 60000 + 60000 * int i)" if "i < j" for i
        using Suc.prems(3) [of "Suc i"] that Suc by (simp add: algebra_simps)
    qed
    ultimately show ?thesis using Suc by (simp add: algebra_simps)
  qed
qed simp

text \<open>When the clocks go forward over a minute \<open>l\<close> of the schedule (the offset changes from \<open>a\<close> to \<open>b\<close> at the moment \<open>z\<close>), the next fire
  is computed as \<open>l\<close> at the new offset, a moment before the change. At every moment from there to the change the answer is that
  same moment, which has passed: the delay is 0, and the trigger fires without a pause until the clocks change.\<close>

lemma spring_forward_fires_in_past:
  assumes "off = (\<lambda>x. if x < z then a else b)" "a < b" "b - a \<le> 1440" "cron_matches f l" "l mod 60000 = 0"
    and "z + a * 60000 \<le> l" "l < z + b * 60000" "t = l - b * 60000" "0 \<le> t + a * 60000"
    and "\<forall>u. t + a * 60000 < u \<and> u < l \<and> u mod 60000 = 0 \<longrightarrow> \<not> cron_matches f u"
    and "t \<le> x" "x < z"
  shows "next_cron_fire f off x = Inr t \<and> t < z \<and> max 0 (t - x) = 0"
proof -
  define y where "y = x + a * 60000"
  define s where "s = first_minute off x"
  have y: "0 \<le> y" "y < l" "t + a * 60000 \<le> y" using assms(6,9,11,12) by (simp_all add: y_def)
  have s: "s = y - js_rem y 60000 + 60000" using assms(1,12) by (simp add: s_def first_minute_def y_def Let_def)
  have r: "0 \<le> js_rem y 60000" "js_rem y 60000 < 60000" "s mod 60000 = 0"
    using y(1) by (simp_all add: s js_rem_def minus_mod_eq_mult_div)
  obtain k where k: "l = s + 60000 * int k" using minutes_after [OF y(1,2) assms(5)] s by blast
  have "60000 * int k \<le> (b - a) * 60000" using k s r(2) y(3) assms(8) by (simp add: algebra_simps)
  then have "k < max_minutes" using assms(3) by (simp add: max_minutes_def)
  moreover have "\<not> cron_matches f (s + 60000 * int j)" if "j < k" for j
  proof -
    have "t + a * 60000 < s + 60000 * int j" "s + 60000 * int j < l" using that k s r(2) y(3) by linarith+
    moreover have "(s + 60000 * int j) mod 60000 = 0" using r(3) by simp
    ultimately show ?thesis using spec [OF assms(10), of "s + 60000 * int j"] by (simp only: simp_thms)
  qed
  ultimately have w: "walk_minutes max_minutes f s = Some l" using assms(4) k walk_first [of k max_minutes f s] by simp
  have "off x = a" using assms(1,12) by simp
  moreover have "off (l - a * 60000) = b" using assms(1,6) by simp
  ultimately have "next_cron_fire f off x = Inr t" using w assms(8) by (simp add: next_cron_fire_def s_def)
  with assms(7,8,11) show ?thesis by simp
qed

text \<open>Half past two in New York on the day of 2026 on which two o'clock is followed by three.\<close>

definition half_past_two :: cron_fields where
  "half_past_two = \<lparr>cf_minute = {30}, cf_hour = {2}, cf_dom = {1..31}, cf_month = {1..12}, cf_dow = {0..6}, cf_dom_restricted = False,
     cf_dow_restricted = False\<rparr>"

lemma minutes_differ:
  assumes "l div 60000 mod 60 = (30::int)" "l mod 60000 = 0" "l - 3600000 < u" "u < l" "u mod 60000 = 0"
  shows "u div 60000 mod 60 \<noteq> 30"
proof -
  define p where "p = l div 60000"
  define q where "q = u div 60000"
  have p: "l = 60000 * p" "u = 60000 * q"
    using assms(2,5) mult_div_mod_eq [of 60000 l] mult_div_mod_eq [of 60000 u] by (simp_all add: p_def q_def)
  have "p mod 60 = 30" using assms(1) by (simp only: p_def)
  moreover have "p - 60 < q" "q < p" using assms(3,4) p by linarith+
  ultimately have "\<exists>k. p = 60 * k + 30" by (metis mult_div_mod_eq)
  then obtain k where "p = 60 * k + 30" ..
  with \<open>p - 60 < q\<close> \<open>q < p\<close> have "60 * (k - 1) + 30 < q" "q < 60 * k + 30" by simp_all
  then have "q mod 60 \<noteq> 30" by presburger
  with p show ?thesis by simp
qed

lemma spring_forward_fires_in_past_instance:
  "next_cron_fire half_past_two (\<lambda>x. if x < 1772953200000 then - 300 else - 240) 1772952000000 = Inr 1772951400000"
proof -
  have m: "cron_matches half_past_two 1772937000000"
    by (simp add: cron_matches_def half_past_two_def civil_def year_and_day_def day_of_def minute_of_def hour_of_def matches_day_def
        month_lengths_def leap_year_def Let_def)
  have "\<not> cron_matches half_past_two u" if "1772933400000 < u" "u < 1772937000000" "u mod 60000 = 0" for u
    using minutes_differ [of 1772937000000 u] that by (simp add: cron_matches_def minute_of_def half_past_two_def split: prod.split)
  then show ?thesis
    using spring_forward_fires_in_past [of "\<lambda>x. if x < 1772953200000 then - 300 else - 240" 1772953200000 "- 300" "- 240" half_past_two
        1772937000000 1772951400000 1772952000000] m by simp
qed


section \<open>The source\<close>

text \<open>\<open>cr_timers\<close> holds the timers that are armed, with the moment each is due; \<open>cr_cancel\<close> the one that \<^verbatim>\<open>cancelTimer\<close> cancels;
  \<open>cr_firing\<close> counts the callbacks that wait for the bus.\<close>

record cron_source =
  cr_id :: string
  cr_schedule :: string
  cr_target :: event_target
  cr_tenant :: "string option"
  cr_started :: bool
  cr_stopped :: bool
  cr_paused :: bool
  cr_timers :: "(nat \<times> int) list"
  cr_cancel :: "nat option"
  cr_next :: nat
  cr_firing :: nat
  cr_count :: nat
  cr_last :: "int option"
  cr_published :: "agent_event list"

definition create_cron :: "string \<Rightarrow> string \<Rightarrow> event_target \<Rightarrow> string option \<Rightarrow> cron_source" where
  "create_cron i sch tgt tenant =
     \<lparr>cr_id = i, cr_schedule = sch, cr_target = tgt, cr_tenant = tenant, cr_started = False, cr_stopped = False, cr_paused = False,
      cr_timers = [], cr_cancel = None, cr_next = 0, cr_firing = 0, cr_count = 0, cr_last = None, cr_published = []\<rparr>"

definition cron_event :: "string \<Rightarrow> int \<Rightarrow> cron_source \<Rightarrow> agent_event" where
  "cron_event u now s =
     stamp_tenant_id (cr_tenant s)
       \<lparr>ev_id = u, ev_source = SCron (cr_id s) (cr_schedule s), ev_target = cr_target s, ev_kind = Trigger_fire, ev_timestamp = now,
        ev_payload = JObj [], ev_auth = ATrigger (cr_id s), ev_meta = None\<rparr>"

text \<open>\<^verbatim>\<open>setTimeout\<close> takes a delay below 1 or above the largest signed 32-bit number for a delay of 1.\<close>

definition timer_delay :: "int \<Rightarrow> int" where
  "timer_delay d = (if 1 \<le> d \<and> d \<le> 2147483647 then d else 1)"

definition schedule_next :: "(int \<Rightarrow> int) \<Rightarrow> int \<Rightarrow> cron_source \<Rightarrow> cron_source" where
  "schedule_next off now s =
     (if cr_stopped s then s
      else case compute_next_fire (cr_schedule s) off now of
          Inl e \<Rightarrow> s\<lparr>cr_stopped := True\<rparr>
        | Inr t \<Rightarrow> s\<lparr>cr_timers := cr_timers s @ [(cr_next s, now + timer_delay (max 0 (t - now)))], cr_cancel := Some (cr_next s), cr_next := cr_next s + 1\<rparr>)"

definition start_cron :: "(int \<Rightarrow> int) \<Rightarrow> int \<Rightarrow> cron_source \<Rightarrow> cron_source" where
  "start_cron off now s = (if cr_started s then s else schedule_next off now (s\<lparr>cr_started := True, cr_stopped := False\<rparr>))"

definition stop_cron :: "cron_source \<Rightarrow> cron_source" where
  "stop_cron s =
     s\<lparr>cr_stopped := True, cr_started := False,
       cr_timers := (case cr_cancel s of None \<Rightarrow> cr_timers s | Some k \<Rightarrow> filter (\<lambda>x. fst x \<noteq> k) (cr_timers s)), cr_cancel := None\<rparr>"

text \<open>A timer is due: the callback publishes and waits for the bus, or goes on at once while the source is paused.\<close>

definition timer_due :: "(int \<Rightarrow> int) \<Rightarrow> int \<Rightarrow> string \<Rightarrow> nat \<Rightarrow> cron_source \<Rightarrow> cron_source" where
  "timer_due off now u k s0 =
     (if k \<notin> fst ` set (cr_timers s0) then s0
      else let s = s0\<lparr>cr_timers := filter (\<lambda>x. fst x \<noteq> k) (cr_timers s0), cr_cancel := None\<rparr>
           in if cr_stopped s then s
              else if cr_paused s then schedule_next off now s
              else s\<lparr>cr_count := cr_count s + 1, cr_last := Some now, cr_published := cr_published s @ [cron_event u now s],
                     cr_firing := cr_firing s + 1\<rparr>)"

text \<open>The bus is done with an event, whether it threw or not.\<close>

definition fire_done :: "(int \<Rightarrow> int) \<Rightarrow> int \<Rightarrow> cron_source \<Rightarrow> cron_source" where
  "fire_done off now s = (if cr_firing s = 0 then s else schedule_next off now (s\<lparr>cr_firing := cr_firing s - 1\<rparr>))"

datatype cron_step = Cron_start int | Cron_stop | Cron_pause | Cron_resume | Cron_due int string nat | Cron_fired int

fun cron_run_step :: "(int \<Rightarrow> int) \<Rightarrow> cron_source \<Rightarrow> cron_step \<Rightarrow> cron_source" where
  "cron_run_step off s (Cron_start t) = start_cron off t s"
| "cron_run_step off s Cron_stop = stop_cron s"
| "cron_run_step off s Cron_pause = s\<lparr>cr_paused := True\<rparr>"
| "cron_run_step off s Cron_resume = s\<lparr>cr_paused := False\<rparr>"
| "cron_run_step off s (Cron_due t u k) = timer_due off t u k s"
| "cron_run_step off s (Cron_fired t) = fire_done off t s"

datatype cron_health = Degraded string | Healthy

definition health_of_cron :: "cron_source \<Rightarrow> cron_health" where
  "health_of_cron s =
     (if \<not> cr_started s then Degraded (if cr_stopped s then ''stopped'' else ''not-started'')
      else if cr_paused s then Degraded ''paused''
      else Healthy)"

text \<open>What of a source can still lead to a fire.\<close>

definition chains :: "cron_source \<Rightarrow> nat" where
  "chains s = length (cr_timers s) + cr_firing s"

definition one_chain :: "cron_source \<Rightarrow> bool" where
  "one_chain s \<longleftrightarrow> chains s \<le> 1 \<and> map fst (cr_timers s) = (case cr_cancel s of None \<Rightarrow> [] | Some k \<Rightarrow> [k]) \<and>
     (\<not> cr_started s \<longrightarrow> cr_timers s = [] \<and> (cr_stopped s \<or> cr_firing s = 0))"

text \<open>No start falls between a fire and the answer of the bus.\<close>

fun calm :: "(int \<Rightarrow> int) \<Rightarrow> cron_source \<Rightarrow> cron_step list \<Rightarrow> bool" where
  "calm off s [] = True"
| "calm off s (e # es) = ((case e of Cron_start t \<Rightarrow> cr_firing s = 0 | _ \<Rightarrow> True) \<and> calm off (cron_run_step off s e) es)"

lemma next_chain:
  assumes "cr_timers s = []" "cr_cancel s = None" "cr_firing s = 0" "cr_started s \<or> cr_stopped s"
  shows "one_chain (schedule_next off t s)"
  using assms by (auto simp: schedule_next_def one_chain_def chains_def split: sum.split)

lemma one_chain_step:
  assumes "one_chain s" "case e of Cron_start t \<Rightarrow> cr_firing s = 0 | _ \<Rightarrow> True"
  shows "one_chain (cron_run_step off s e)"
proof (cases e)
  case (Cron_start t)
  show ?thesis
  proof (cases "cr_started s")
    case False
    with assms Cron_start have "cr_timers s = []" "cr_cancel s = None" "cr_firing s = 0"
      by (auto simp: one_chain_def split: option.splits)
    then have "one_chain (schedule_next off t (s\<lparr>cr_started := True, cr_stopped := False\<rparr>))" by (intro next_chain) simp_all
    with False Cron_start show ?thesis by (simp add: start_cron_def)
  qed (use assms Cron_start in \<open>simp add: start_cron_def\<close>)
next
  case Cron_stop
  have "filter (\<lambda>x. fst x \<noteq> k) (cr_timers s) = []" if "cr_cancel s = Some k" for k
    using that assms(1) by (auto simp: one_chain_def filter_empty_conv)
  then show ?thesis using assms(1) Cron_stop by (auto simp: stop_cron_def one_chain_def chains_def split: option.splits)
next
  case (Cron_due t u k)
  show ?thesis
  proof (cases "k \<in> fst ` set (cr_timers s)")
    case True
    then obtain y ys where y: "cr_timers s = y # ys" by (cases "cr_timers s") simp_all
    then have ys: "ys = []" "cr_firing s = 0" using assms(1) by (simp_all add: one_chain_def chains_def)
    with y True obtain x where x: "cr_timers s = [(k, x)]" by (cases y) simp
    then have m: "map fst (cr_timers s) = [k]" by simp
    have "cr_cancel s = Some k" "cr_started s"
      using assms(1) m x by (cases "cr_cancel s"; simp add: one_chain_def)+
    note x = x this ys(2)
    let ?s = "s\<lparr>cr_timers := [], cr_cancel := None\<rparr>"
    have "one_chain (schedule_next off t ?s)" using x by (intro next_chain) simp_all
    then show ?thesis using x Cron_due by (simp add: timer_due_def Let_def) (simp add: one_chain_def chains_def)
  qed (use assms Cron_due in \<open>simp add: timer_due_def\<close>)
next
  case (Cron_fired t)
  show ?thesis
  proof (cases "cr_firing s = 0")
    case False
    with assms(1) have "cr_timers s = []" "cr_cancel s = None" "cr_firing s = 1" "cr_started s \<or> cr_stopped s"
      by (auto simp: one_chain_def chains_def split: option.splits)
    then have "one_chain (schedule_next off t (s\<lparr>cr_firing := cr_firing s - 1\<rparr>))" by (intro next_chain) simp_all
    with False Cron_fired show ?thesis by (simp add: fire_done_def)
  qed (use assms Cron_fired in \<open>simp add: fire_done_def\<close>)
qed (use assms in \<open>simp_all add: one_chain_def chains_def\<close>)

text \<open>Through starts, stops, pauses and fires in any order a source has at most one timer armed or one event under way, as long as it is
  not started while an event is under way.\<close>

lemma cron_single_chain:
  assumes "calm off (create_cron i sch tgt tenant) evs" "s = run (cron_run_step off) (create_cron i sch tgt tenant) evs"
  shows "length (cr_timers s) + cr_firing s \<le> 1"
proof -
  have "one_chain s \<Longrightarrow> calm off s evs \<Longrightarrow> one_chain (run (cron_run_step off) s evs)" for s
    by (induction evs arbitrary: s) (simp_all add: one_chain_step)
  moreover have "one_chain (create_cron i sch tgt tenant)" by (simp add: one_chain_def chains_def create_cron_def)
  ultimately show ?thesis using assms by (auto simp: one_chain_def chains_def)
qed

text \<open>A source that is stopped and started while an event is under way has two chains from then on, and fires everything twice.\<close>

lemma restart_doubles_chain:
  assumes "cr_started s" "cr_timers s = []" "cr_cancel s = None" "cr_firing s = 1"
    and "\<And>t. \<exists>n. compute_next_fire (cr_schedule s) off t = Inr n"
  shows "length (cr_timers (run (cron_run_step off) s [Cron_stop, Cron_start t, Cron_fired u])) = 2"
proof -
  obtain m n where "compute_next_fire (cr_schedule s) off t = Inr m" "compute_next_fire (cr_schedule s) off u = Inr n"
    using assms(5) by blast
  with assms(1-4) show ?thesis by (simp add: stop_cron_def start_cron_def fire_done_def schedule_next_def)
qed

text \<open>A fire that is more than 24.8 days away is armed for the next millisecond: the trigger fires at once, and, as the next fire
  is just as far away, again a millisecond later. So does every monthly schedule, and an interval of 600 hours from its start.\<close>

lemma far_fire_is_now:
  assumes "compute_next_fire (cr_schedule s) off now = Inr t" "2147483647 < t - now" "\<not> cr_stopped s"
  shows "cr_timers (schedule_next off now s) = cr_timers s @ [(cr_next s, now + 1)]"
  using assms by (simp add: schedule_next_def timer_delay_def)

lemma long_interval_fires_at_once:
  "cr_timers (run (cron_run_step (\<lambda>_. 0)) (create_cron ''c'' ''PT600H'' TBroadcast None) [Cron_start 0]) = [(0, 1)]"
proof -
  have "compute_next_fire ''PT600H'' (\<lambda>_. 0) 0 = Inr 2160000000" by code_simp
  then show ?thesis by (simp add: create_cron_def start_cron_def schedule_next_def timer_delay_def)
qed

lemma cron_single_chain_instance:
  "\<exists>s. s = run (cron_run_step (\<lambda>_. 0)) (create_cron ''c'' ''PT5M'' TBroadcast None) [Cron_start 0, Cron_due 300000 ''u'' 0, Cron_fired 300001] \<and>
     length (cr_timers s) + cr_firing s \<le> 1"
  using cron_single_chain [of "\<lambda>_. 0" "''c''" "''PT5M''" TBroadcast None "[Cron_start 0, Cron_due 300000 ''u'' 0, Cron_fired 300001]", OF _ refl]
  by (simp add: create_cron_def start_cron_def schedule_next_def timer_due_def Let_def split: sum.split)

section \<open>Fields read back\<close>

text \<open>The documented forms of an item of a field, how they are written, and the values they name.\<close>

datatype cron_item = Every "nat option" | One nat | From_step nat nat | Span nat nat "nat option"

definition show_step :: "nat option \<Rightarrow> string" where
  "show_step k = (case k of None \<Rightarrow> [] | Some n \<Rightarrow> CHR ''/'' # show_nat n)"

fun show_item :: "cron_item \<Rightarrow> string" where
  "show_item (Every k) = ''*'' @ show_step k"
| "show_item (One a) = show_nat a"
| "show_item (From_step a k) = show_nat a @ show_step (Some k)"
| "show_item (Span a b k) = show_nat a @ CHR ''-'' # show_nat b @ show_step k"

definition progression :: "int \<Rightarrow> int \<Rightarrow> nat option \<Rightarrow> int set" where
  "progression lo hi k = {v. lo \<le> v \<and> v \<le> hi \<and> (case k of None \<Rightarrow> True | Some n \<Rightarrow> int n dvd v - lo)}"

fun item_values :: "field_spec \<Rightarrow> cron_item \<Rightarrow> int set" where
  "item_values f (Every k) = progression (fs_lo f) (fs_hi f) k"
| "item_values f (One a) = {int a}"
| "item_values f (From_step a k) = progression (int a) (fs_hi f) (Some k)"
| "item_values f (Span a b k) = progression (int a) (int b) k"

definition step_ok :: "nat option \<Rightarrow> bool" where
  "step_ok k = (case k of None \<Rightarrow> True | Some n \<Rightarrow> 0 < n)"

definition in_field :: "field_spec \<Rightarrow> nat \<Rightarrow> bool" where
  "in_field f a \<longleftrightarrow> fs_lo f \<le> int a \<and> int a \<le> fs_hi f"

fun item_ok :: "field_spec \<Rightarrow> cron_item \<Rightarrow> bool" where
  "item_ok f (Every k) = step_ok k"
| "item_ok f (One a) = in_field f a"
| "item_ok f (From_step a k) = (in_field f a \<and> 0 < k)"
| "item_ok f (Span a b k) = (in_field f a \<and> in_field f b \<and> a \<le> b \<and> step_ok k)"

definition cron_field_specs :: "field_spec list" where
  "cron_field_specs = [minute_field, hour_field, dom_field, month_field, dow_field]"

lemma spec_ok:
  assumes "f \<in> set cron_field_specs"
  shows "0 \<le> fs_lo f" "fs_lo f \<le> fs_hi f" "fs_seven f \<longrightarrow> fs_hi f < 7"
    and "k \<in> fst ` set (fs_aliases f) \<Longrightarrow> k \<noteq> [] \<and> \<not> is_digit (hd k)"
  using assms by (auto simp: cron_field_specs_def minute_field_def hour_field_def dom_field_def month_field_def dow_field_def
      month_names_def day_names_def is_digit_def)

lemma show_nat_all: "c \<in> set (show_nat n) \<Longrightarrow> is_digit c"
  using show_nat_digits by (simp add: list_all_iff)

lemma digit_chars: "\<not> is_digit (CHR ''/'')" "\<not> is_digit (CHR ''-'')" "\<not> is_digit (CHR '','')" "\<not> is_digit (CHR ''*'')" "\<not> is_digit (CHR ''+'')"
  by (simp_all add: is_digit_def)

lemma digit_not_space: "is_digit c \<Longrightarrow> \<not> is_space c"
  by (auto simp: is_digit_def is_space_def)

lemma lower_digit: "is_digit c \<Longrightarrow> lower c = c"
  by (auto simp: is_digit_def lower_def)

lemma take_digits: "takeWhile is_digit (show_nat n) = show_nat n"
  using show_nat_all by (simp add: takeWhile_eq_all_conv)

lemma parse_int_show: "parse_int (show_nat n) = Some (int n)"
proof -
  obtain d r where d: "show_nat n = d # r" by (cases "show_nat n") simp_all
  then have "is_digit d" using show_nat_all [of d n] by simp
  then have "dropWhile is_space (show_nat n) = show_nat n" "d \<noteq> CHR ''-''" "d \<noteq> CHR ''+''"
    using d digit_not_space digit_chars by auto
  moreover have "takeWhile is_digit (d # r) = d # r" using take_digits [of n] d by simp
  moreover have "parse_nat (d # r) = n" using parse_show_nat [of n] d by simp
  ultimately show ?thesis using d by (simp add: parse_int_def)
qed

lemma parse_one_show:
  assumes "f \<in> set cron_field_specs" "in_field f a"
  shows "parse_one f (show_nat a) = Inr (int a)"
proof -
  have "map lower (show_nat a) = show_nat a" using show_nat_all lower_digit by (intro map_idI) blast
  moreover have "map_of (fs_aliases f) (show_nat a) = None"
  proof -
    have "is_digit (hd (show_nat a))" using show_nat_all [of "hd (show_nat a)" a] by simp
    then show ?thesis using spec_ok(4) [OF assms(1), of "show_nat a"] by (auto simp: map_of_eq_None_iff)
  qed
  ultimately show ?thesis using assms spec_ok(3) [OF assms(1)] by (auto simp: parse_one_def parse_int_show in_field_def)
qed

lemma split_at_show:
  "c \<notin> set xs \<Longrightarrow> split_at c (xs @ c # ys) = (xs, Some ys)" "c \<notin> set xs \<Longrightarrow> split_at c xs = (xs, None)"
proof -
  assume "c \<notin> set xs"
  then have "dropWhile (\<lambda>x. x \<noteq> c) (xs @ c # ys) = c # ys" "takeWhile (\<lambda>x. x \<noteq> c) (xs @ c # ys) = xs"
    by (induction xs) auto
  then show "split_at c (xs @ c # ys) = (xs, Some ys)" by (simp add: split_at_def)
next
  assume "c \<notin> set xs"
  then have "dropWhile (\<lambda>x. x \<noteq> c) xs = []" by auto
  then show "split_at c xs = (xs, None)" unfolding split_at_def by (simp only: list.case)
qed

lemma not_in_show: "CHR ''/'' \<notin> set (show_nat n)" "CHR ''-'' \<notin> set (show_nat n)" "CHR '','' \<notin> set (show_nat n)" "CHR ''*'' \<notin> set (show_nat n)"
  using show_nat_all digit_chars by blast+

lemma range_values_set: "0 < step \<Longrightarrow> set (range_values v hi step) = {x. v \<le> x \<and> x \<le> hi \<and> step dvd x - v}"
proof (induction v hi step rule: range_values.induct)
  case (1 v hi step)
  show ?case
  proof (cases "v > hi")
    case True
    then show ?thesis by (subst range_values.simps) auto
  next
    case False
    have *: "x = v \<or> v + step \<le> x \<and> step dvd x - (v + step)" if x: "v \<le> x" "step dvd x - v" for x
    proof -
      obtain k where k: "x - v = step * k" using x(2) by (elim dvdE)
      have "0 \<le> k" using x(1) k 1(2) by (metis diff_ge_0_iff_ge zero_le_mult_iff not_less)
      then consider "k = 0" | "1 \<le> k" by linarith
      then show ?thesis
      proof cases
        case 1
        with k show ?thesis by simp
      next
        case 2
        then have "step * 1 \<le> step * k" using \<open>0 < step\<close> by (intro mult_left_mono) simp_all
        then have "v + step \<le> x" unfolding k [symmetric] by simp
        moreover have "x - (v + step) = step * (k - 1)" unfolding right_diff_distrib k [symmetric] by simp
        ultimately show ?thesis by simp
      qed
    qed
    have "(v \<le> x \<and> x \<le> hi \<and> step dvd x - v) = (x = v \<or> v + step \<le> x \<and> x \<le> hi \<and> step dvd x - (v + step))" for x
    proof -
      have "step dvd x - v" if "step dvd x - (v + step)"
        using dvd_add [OF that dvd_refl] by simp
      moreover have "v \<le> x" if "v + step \<le> x" using that 1(2) by linarith
      moreover have "v \<le> hi" using False by simp
      ultimately show ?thesis using * by auto
    qed
    then have "{x. v \<le> x \<and> x \<le> hi \<and> step dvd x - v} = insert v {x. v + step \<le> x \<and> x \<le> hi \<and> step dvd x - (v + step)}"
      by blast
    then show ?thesis using 1 False by (subst range_values.simps) auto
  qed
qed

lemma step_text:
  "step_ok k \<Longrightarrow> CHR ''/'' \<notin> set xs \<Longrightarrow>
   split_at (CHR ''/'') (xs @ show_step k) = (xs, map_option show_nat k)"
  using split_at_show [of "CHR ''/''" xs] by (cases k) (simp_all add: show_step_def)

lemma set_values: "step_ok k \<Longrightarrow> set (range_values lo hi (case k of None \<Rightarrow> 1 | Some n \<Rightarrow> int n)) = progression lo hi k"
  by (cases k) (auto simp: range_values_set progression_def step_ok_def)

lemma piece_step:
  "step_ok k \<Longrightarrow> (case map_option show_nat k of None \<Rightarrow> Some 1 | Some t \<Rightarrow> parse_int t) = Some (case k of None \<Rightarrow> 1 | Some n \<Rightarrow> int n) \<and>
     0 < (case k of None \<Rightarrow> 1 | Some n \<Rightarrow> int n)"
  by (cases k) (simp_all add: parse_int_show step_ok_def)

lemma parse_piece_show:
  assumes "f \<in> set cron_field_specs" "item_ok f it"
  shows "\<exists>vs. parse_piece f s (show_item it) = Inr vs \<and> set vs = item_values f it \<and> vs \<noteq> []"
proof -
  have nonempty: "range_values lo hi st \<noteq> []" if "lo \<le> hi" "0 < st" for lo hi st
    using that by (subst range_values.simps) simp
  note sp = spec_ok [OF assms(1)]
  have not_star: "show_nat n \<noteq> ''*''" "show_nat n @ xs \<noteq> ''*''" for n xs
    using not_in_show(4) [of n] by (metis list.set_intros(1), metis append_is_Nil_conv append_eq_Cons_conv list.set_intros(1) show_nat_nonempty)
  show ?thesis
  proof (cases it)
    case (Every k)
    then have k: "step_ok k" using assms(2) by simp
    have "parse_piece f s (show_item it) = Inr (range_values (fs_lo f) (fs_hi f) (case k of None \<Rightarrow> 1 | Some n \<Rightarrow> int n))"
      using step_text [OF k, of "''*''"] piece_step [OF k] sp(2) Every by (simp add: parse_piece_def)
    with set_values [OF k] nonempty sp(2) piece_step [OF k] Every show ?thesis by auto
  next
    case (One a)
    then have a: "in_field f a" using assms(2) by simp
    have "parse_piece f s (show_item it) = Inr (range_values (int a) (int a) 1)"
      using split_at_show(2) [OF not_in_show(1), of a] split_at_show(2) [OF not_in_show(2), of a] parse_one_show [OF assms(1) a] not_star One
      by (simp add: parse_piece_def)
    moreover have "set (range_values (int a) (int a) 1) = {int a}" by (auto simp: range_values_set)
    ultimately show ?thesis using nonempty One by auto
  next
    case (From_step a k)
    then have a: "in_field f a" "step_ok (Some k)" using assms(2) by (simp_all add: step_ok_def)
    have "parse_piece f s (show_item it) = Inr (range_values (int a) (fs_hi f) (int k))"
      using step_text [OF a(2) not_in_show(1)] piece_step [OF a(2)] split_at_show(2) [OF not_in_show(2), of a] parse_one_show [OF assms(1) a(1)]
        not_star From_step a(1) by (simp add: parse_piece_def in_field_def)
    with set_values [OF a(2)] nonempty [of "int a" "fs_hi f" "int k"] a From_step show ?thesis by (auto simp: in_field_def step_ok_def)
  next
    case (Span a b k)
    then have a: "in_field f a" "in_field f b" "a \<le> b" "step_ok k" using assms(2) by simp_all
    have sl: "CHR ''/'' \<notin> set (show_nat a @ CHR ''-'' # show_nat b)" using not_in_show(1) by simp
    have "parse_piece f s (show_item it) = Inr (range_values (int a) (int b) (case k of None \<Rightarrow> 1 | Some n \<Rightarrow> int n))"
      using step_text [OF a(4) sl] piece_step [OF a(4)] split_at_show(1) [OF not_in_show(2), of a "show_nat b"]
        parse_one_show [OF assms(1) a(1)] parse_one_show [OF assms(1) a(2)] not_star Span a(3)
      by (simp add: parse_piece_def)
    with set_values [OF a(4)] nonempty a(3) piece_step [OF a(4)] Span show ?thesis by auto
  qed
qed

lemma split_join:
  "xs \<noteq> [] \<Longrightarrow> (\<And>x. x \<in> set xs \<Longrightarrow> c \<notin> set x) \<Longrightarrow> split_on c (join [c] xs) = xs"
proof (induction xs)
  case (Cons x xs)
  have x: "c \<notin> set x" using Cons.prems by simp
  show ?case
  proof (cases xs)
    case Nil
    from x have "split_on c x = [x]" by (induction x) auto
    with Nil show ?thesis by simp
  next
    case (Cons y ys)
    then have rest: "split_on c (join [c] (y # ys)) = y # ys" using Cons.IH Cons.prems(2) by simp
    from x have "split_on c (x @ c # join [c] (y # ys)) = x # y # ys" using rest by (induction x) auto
    with Cons show ?thesis by simp
  qed
qed simp

text \<open>C40. A field written in the documented forms, items with lists, ranges and steps whose values are in the bounds of the field, is
  read back as the set of values it names.\<close>

theorem cron_field_reads_back:
  assumes "f \<in> set cron_field_specs" "items \<noteq> []" "list_all (item_ok f) items"
  shows "parse_field f (join '','' (map show_item items)) = Inr (\<Union> (item_values f ` set items))"
proof -
  have "CHR '','' \<notin> set (show_item it)" for it
    by (cases it) (auto simp: show_step_def not_in_show split: option.split)
  then have split: "split_on (CHR '','') (join '','' (map show_item items)) = map show_item items"
    using assms(2) by (intro split_join) auto
  have "\<exists>vs. parse_pieces f s (map show_item items) = Inr vs \<and> set vs = \<Union> (item_values f ` set items) \<and> (items \<noteq> [] \<longrightarrow> vs \<noteq> [])" for s
    using assms(3)
  proof (induction items)
    case (Cons it items)
    obtain vs where "parse_piece f s (show_item it) = Inr vs" "set vs = item_values f it" "vs \<noteq> []"
      using parse_piece_show [OF assms(1), of it s] Cons.prems by auto
    with Cons show ?case by auto
  qed simp
  then obtain vs where "parse_pieces f (join '','' (map show_item items)) (map show_item items) = Inr vs"
      "set vs = \<Union> (item_values f ` set items)" "vs \<noteq> []"
    using assms(2) by blast
  then show ?thesis by (simp add: parse_field_def split)
qed

theorem cron_field_reads_back_witness:
  "parse_field minute_field ''*/20,5,50-55/5'' = Inr {0, 20, 40, 5, 50, 55}"
proof -
  have t: "join '','' (map show_item [Every (Some 20), One 5, Span 50 55 (Some 5)]) = ''*/20,5,50-55/5''"
    by code_simp
  have "progression 0 59 (Some 20) = set (range_values 0 59 20)" "progression 50 55 (Some 5) = set (range_values 50 55 5)"
    using set_values [of "Some 20"] set_values [of "Some 5"] by (simp_all add: step_ok_def)
  then have "\<Union> (item_values minute_field ` set [Every (Some 20), One 5, Span 50 55 (Some 5)]) = {0, 20, 40, 5, 50, 55}"
    by (simp add: minute_field_def range_values.simps) auto
  moreover have "list_all (item_ok minute_field) [Every (Some 20), One 5, Span 50 55 (Some 5)]"
    by (simp add: minute_field_def in_field_def step_ok_def)
  ultimately show ?thesis
    using cron_field_reads_back [of minute_field "[Every (Some 20), One 5, Span 50 55 (Some 5)]"] t by (simp add: cron_field_specs_def)
qed

text \<open>Sunday to Sunday: the 7 at the end of a range becomes 0, so the range is one day, and Friday to Sunday is no range at all.\<close>

lemma seven_in_range: "parse_field dow_field ''0-7'' = Inr {0}" "parse_field dow_field ''5-7'' = Inl (Bad_range 5 0 ''5-7'')"
  by (simp_all add: parse_field_def parse_piece_def split_at_def parse_one_def parse_int_def dow_field_def day_names_def lower_def is_digit_def
      is_space_def parse_nat_def digit_val_def range_values.simps Let_def)

end
