(* ===== verification/Spec2Isabelle.thy ===== *)
theory Spec2Isabelle
  imports Concurrency Semver FilterExpr Requeue AuditExport CapabilitySchema EngineTurns Supervisor Platforms Outbound Cron
begin

text \<open>
  A model of the core of declaragent (\<^verbatim>\<open>packages/core/src\<close>) and proofs of what it guarantees.

  \<^bold>\<open>The program.\<close> Sources and channels turn outside happenings into events; filters written in a small expression language
  decide which are let through; the bus hands events to subscribers; the dispatcher checks each event for duplicates and for
  causation loops, applies rate limits, routes it to a session, a new session, a skill or a sub-agent, and records the
  outcome in the event store. Rejected events wait in a dead-letter table and can be requeued; events interrupted by a crash
  are recovered at boot. A turn of an agent reads its mailbox and its session, calls the model, runs the tools the
  permission gate allows within the quotas of the tenant, and appends the transcript to the session store. What an agent answers
  is rendered for the chat platform of its channel. Tools of other processes are called over JSON-RPC.

  \<^bold>\<open>Theories and the code they model.\<close>
  \<^item> \<open>Prelude\<close>, \<open>JsValue\<close>: JavaScript's ordered dictionary, strings and data values.
  \<^item> \<open>EventTypes\<close>: \<^verbatim>\<open>events/types.ts\<close>.
  \<^item> \<open>CircuitBreaker\<close>: \<^verbatim>\<open>events/circuit-breaker.ts\<close>. Invariant, consecutive failures, the trial in half-open.
  \<^item> \<open>TokenBucket\<close>, \<open>RateLimiter\<close>: \<^verbatim>\<open>events/rate-limiter.ts\<close>, \<^verbatim>\<open>providers/rate-limit.ts\<close>. Admission bounds per bucket and per rule.
  \<^item> \<open>Concurrency\<close>: \<^verbatim>\<open>events/concurrency.ts\<close>. Slots are never exceeded and granted in order.
  \<^item> \<open>Semver\<close>: \<^verbatim>\<open>events/semver.ts\<close>. \<open>JsonPath\<close>: \<^verbatim>\<open>events/jsonpath.ts\<close>. \<open>FilterExpr\<close>: \<^verbatim>\<open>events/filter-expr.ts\<close>. Round trips of
    printing and parsing, meaning of comparators.
  \<^item> \<open>Caches\<close>: the idempotency cache of \<^verbatim>\<open>events/dispatcher.ts\<close>, \<^verbatim>\<open>channels/send-idempotency.ts\<close>, \<^verbatim>\<open>secrets/ttl-cache.ts\<close>.
  \<^item> \<open>Bus\<close>: \<^verbatim>\<open>events/bus.ts\<close>. Tenant isolation, the recent buffer, pressure edges.
  \<^item> \<open>EventStore\<close>: \<^verbatim>\<open>events/store.ts\<close>. Duplicate detection, the dead-letter table, erasure.
  \<^item> \<open>Framing\<close>, \<open>Skills\<close>: \<^verbatim>\<open>frameEvent\<close> of the dispatcher; \<^verbatim>\<open>skills/template.ts\<close>, \<^verbatim>\<open>skills/runner.ts\<close>.
  \<^item> \<open>Dispatcher\<close>: \<^verbatim>\<open>events/dispatcher.ts\<close>, over the breaker, limiter, cache, store and skills above.
  \<^item> \<open>Requeue\<close>: \<^verbatim>\<open>events/dlq.ts\<close>, \<^verbatim>\<open>events/recovery.ts\<close>, over the dispatcher and the bus.
  \<^item> \<open>JsonCanon\<close>, \<open>AuditLog\<close>: \<^verbatim>\<open>audit/chain-verify.ts\<close>, \<^verbatim>\<open>sqlite-sink.ts\<close>, \<^verbatim>\<open>erase.ts\<close>, \<^verbatim>\<open>backpressure.ts\<close>. The hash chain: it
    verifies after any non-overlapping use, what it pins down, and where it does not.
  \<^item> \<open>AuditExport\<close>: \<^verbatim>\<open>audit/exporter-loop.ts\<close>. Nothing is skipped; the pace is bounded.
  \<^item> \<open>CapabilitySchema\<close>: \<^verbatim>\<open>rpc/capability-validator.ts\<close>. When validation returns, and that it type-checks simple types.
  \<^item> \<open>Permission\<close>: \<^verbatim>\<open>permission/glob.ts\<close>, \<^verbatim>\<open>permission/gate.ts\<close>, \<^verbatim>\<open>channels/permissions.ts\<close>, \<^verbatim>\<open>channels/enroller.ts\<close>. Patterns mean what
    is documented on one-line keys; the gate of a sub-agent only narrows.
  \<^item> \<open>Quota\<close>: \<^verbatim>\<open>tenancy/quota.ts\<close>. No counter passes its limit.
  \<^item> \<open>SessionStore\<close>: \<^verbatim>\<open>session/sqlite.ts\<close>, \<^verbatim>\<open>session/pricing.ts\<close>. Opening again restores transcript and ledger.
  \<^item> \<open>Mailbox\<close>: \<^verbatim>\<open>events/mailbox.ts\<close>. One queue per agent.
  \<^item> \<open>Hooks\<close>: \<^verbatim>\<open>hooks/registry.ts\<close>, \<^verbatim>\<open>hooks/types.ts\<close>.
  \<^item> \<open>Engine\<close>, \<open>EngineTurns\<close>: \<^verbatim>\<open>engine/engine.ts\<close>, over gate, quotas, session handle, mailbox and hooks. Tool calls are answered,
    denied calls do not run, slots are given back, a turn ends.
  \<^item> \<open>Streams\<close>, \<open>JsonRpc\<close>: \<^verbatim>\<open>mcp/sse-parser.ts\<close>, \<^verbatim>\<open>mcp/jsonrpc.ts\<close>. Reading does not depend on how a stream is cut into chunks; every
    request is settled once.
  \<^item> \<open>McpClient\<close>, \<open>Supervisor\<close>: \<^verbatim>\<open>mcp/stdio-client.ts\<close>, \<^verbatim>\<open>mcp/supervisor.ts\<close>, over the connection, the breaker and the bucket. Callers
    are answered once, which calls reach a server, when the circuit opens, and the interleavings that leak a server process.
  \<^item> \<open>Renderer\<close>, \<open>Platforms\<close>: \<^verbatim>\<open>channels/renderer\<close>. Splitting loses nothing, escaped text reads back, what each platform gets.
  \<^item> \<open>Channels\<close>: \<^verbatim>\<open>channels/session-id.ts\<close>, \<^verbatim>\<open>registry.ts\<close>, \<^verbatim>\<open>session-context.ts\<close>, \<^verbatim>\<open>inbound-bridge.ts\<close>.
  \<^item> \<open>Outbound\<close>: \<^verbatim>\<open>channels/outbound-rate-limiter.ts\<close>, \<^verbatim>\<open>base-channel.ts\<close>, \<^verbatim>\<open>outbound-bridge.ts\<close>. Waits end at their deadline, a sent key
    is not posted again, the reply of a turn goes out once.
  \<^item> \<open>Cron\<close>: \<^verbatim>\<open>events/sources/cron.ts\<close>, \<^verbatim>\<open>events/target-validate.ts\<close>. Fields read back, the next fire is the first match, and
    the clock changes and long delays at which a trigger fires without a pause.

  \<^bold>\<open>Interfaces.\<close> A locale states what several operations share or what a client relies on, and is interpreted on the model in the
  theory that provides it: a state machine with an invariant, a reader of a chunked stream, a bucket of tokens, a cache.

  \<^bold>\<open>Conventions.\<close> Doubles are exact rationals or integers: rounding, infinities and NaN are not modelled. Strings are lists of
  8-bit code units. The clock is an argument, read once per synchronous method. A thrown exception is the left side of a
  sum. Random ids, prototype properties (\<open>proto\<close>) and the decimal text of a number (\<open>num_text\<close>) are arguments. A method
  that suspends is one definition per piece between suspensions where other calls can interfere (\<open>publish_begin\<close> and
  \<open>publish_end\<close>, \<open>take_begin\<close> and \<open>take_end\<close>, \<open>dedup_check\<close> and \<open>dedup_commit\<close>). Callbacks that call back into the
  object that fires them are not modelled. Rows that SQL leaves unordered keep insertion order. The engine is written over a
  state that a failing program keeps (\<open>chain\<close>, \<open>catch\<close>, \<open>always\<close>); provider, tools, prompter and event
  bus are arguments that act on the state \<open>world\<close> of the host.

  \<^bold>\<open>Fuel.\<close> The parser of filter expressions takes one more than the number of tokens as fuel, which \<open>parse_filter_returns\<close> shows to be
  enough; the loop check counts down from the depth limit of the code itself; the loop of a turn counts down from its iteration cap.
  Schema validation recurses through references that may run in circles; its fuel is a bound on the call depth, and
  \<open>grounded_validation_returns\<close> says when some fuel is enough.

  \<^bold>\<open>Not modelled.\<close> The command line, the clients of chat platforms and brokers, observability and agent loading: input and output
  around the core. Within the dispatcher, the promise chain that serialises turns of one session.
\<close>

end
